(* ===== verification/Kernel_Prelude.thy ===== *)
theory Kernel_Prelude
  imports "HOL-Library.Word" "HOL-Library.Multiset"
begin

unbundle bit_operations_syntax

text \<open>
  The vocabulary every component of the AlmeidaOS model shares.

  \<^item> Names for the fixed-width C types: \<open>u8\<close>, \<open>u16\<close>, \<open>u32\<close>, \<open>u64\<close> are machine words, so that
    arithmetic wraps exactly as the compiled code does; \<open>addr\<close> is a 64-bit pointer, and \<open>NULL\<close> the
    null pointer.  A C \<open>int\<close> is a \<open>32 word\<close> (\<open>s32\<close>) read with \<^const>\<open>sint\<close>, a \<open>long\<close> a \<open>64 word\<close>.
  \<^item> The result of code that can stop the kernel: \<open>'a kres\<close> is \<open>fault + 'a\<close>.  \<open>Bug_on f\<close> is a failed
    \<open>BUG_ON\<close> of the function \<open>f\<close> (include/kernel/compiler/bug.h prints the function's name and raises
    \<open>int 0xff\<close>, which never returns); \<open>Null_deref f\<close> is a read or write through a null pointer,
    \<open>Undefined f\<close> an operation whose outcome the language leaves open (a missing variadic argument)
    and \<open>Out_of_fuel\<close> says that a loop was given fewer iterations than it needs.
  \<^item> \<open>kbind\<close>, the sequencing of two steps, the second of which runs only when the first succeeded.
  \<^item> Lemmas on natural-number powers of two and on words that the component proofs use.
\<close>

type_synonym u8 = "8 word"
type_synonym u16 = "16 word"
type_synonym u32 = "32 word"
type_synonym u64 = "64 word"
type_synonym s32 = "32 word"
type_synonym addr = "64 word"

abbreviation (input) NULL :: addr where "NULL \<equiv> 0"

abbreviation (input) UINT64_MAX :: u64 where "UINT64_MAX \<equiv> - 1"

datatype fault = Bug_on string | Null_deref string | Undefined string | Out_of_fuel

type_synonym 'a kres = "fault + 'a"

definition kbind :: "'a kres \<Rightarrow> ('a \<Rightarrow> 'b kres) \<Rightarrow> 'b kres" where
  "kbind r f = (case r of Inl e \<Rightarrow> Inl e | Inr x \<Rightarrow> f x)"

text \<open>The macro \<open>BUG_ON(cond)\<close> followed by the rest of the function.\<close>

definition BUG_ON :: "string \<Rightarrow> bool \<Rightarrow> 'a kres \<Rightarrow> 'a kres" where
  "BUG_ON fn cond rest = (if cond then Inl (Bug_on fn) else rest)"

lemma kbind_simps [simp]:
  "kbind (Inl e) f = Inl e"
  "kbind (Inr x) f = f x"
  by (simp_all add: kbind_def)

lemma kbind_Inr_iff: "kbind r f = Inr y \<longleftrightarrow> (\<exists>x. r = Inr x \<and> f x = Inr y)"
  by (cases r) auto

lemma kbind_InrE:
  assumes "kbind r f = Inr y"
  obtains x where "r = Inr x" and "f x = Inr y"
  using assms by (auto simp: kbind_Inr_iff)

lemma kbind_cong [fundef_cong]:
  "r = r' \<Longrightarrow> (\<And>x. r' = Inr x \<Longrightarrow> f x = f' x) \<Longrightarrow> kbind r f = kbind r' f'"
  by (cases r') auto

lemma BUG_ON_simps [simp]:
  "BUG_ON fn False r = r"
  "BUG_ON fn True r = Inl (Bug_on fn)"
  by (simp_all add: BUG_ON_def)

lemma BUG_ON_Inr_iff [simp]: "BUG_ON fn c r = Inr x \<longleftrightarrow> \<not> c \<and> r = Inr x"
  by (simp add: BUG_ON_def)

lemma BUG_ON_cong [fundef_cong]:
  "c = c' \<Longrightarrow> (\<not> c' \<Longrightarrow> r = r') \<Longrightarrow> BUG_ON fn c r = BUG_ON fn c' r'"
  by (simp add: BUG_ON_def)

text \<open>The same sequencing for code that contains a loop: \<open>None\<close> is a loop that does not end.\<close>

definition obind :: "'a kres option \<Rightarrow> ('a \<Rightarrow> 'b kres option) \<Rightarrow> 'b kres option" where
  "obind r f = (case r of None \<Rightarrow> None | Some (Inl e) \<Rightarrow> Some (Inl e) | Some (Inr x) \<Rightarrow> f x)"

lemma obind_simps [simp]:
  "obind None f = None"
  "obind (Some (Inl e)) f = Some (Inl e)"
  "obind (Some (Inr x)) f = f x"
  by (simp_all add: obind_def)

lemma obind_Some_Inr_iff: "obind r f = Some (Inr y) \<longleftrightarrow> (\<exists>x. r = Some (Inr x) \<and> f x = Some (Inr y))"
  by (auto simp: obind_def split: option.splits sum.splits)

lemma obind_cong [fundef_cong]:
  "r = r' \<Longrightarrow> (\<And>x. r' = Some (Inr x) \<Longrightarrow> f x = f' x) \<Longrightarrow> obind r f = obind r' f'"
  by (auto simp: obind_def split: option.splits sum.splits)

subsection \<open>Words and powers of two\<close>

text \<open>\<open>word_nat\<close> collects the rules that move a 64-bit computation to the natural numbers.\<close>

named_theorems word_nat

lemma unat_two_power [word_nat]: "n < LENGTH('a) \<Longrightarrow> unat (2 ^ n :: 'a::len word) = 2 ^ n"
  using unat_of_nat [of "2 ^ n", where 'a = 'a]
  by (simp add: take_bit_eq_mod power_strict_increasing_iff)

lemma unat_add_small [word_nat]:
  "unat a + unat b < 2 ^ LENGTH('a) \<Longrightarrow> unat (a + b :: 'a::len word) = unat a + unat b"
  by (simp add: unat_add_lem)

lemma unat_sub_small [word_nat]:
  "unat b \<le> unat a \<Longrightarrow> unat (a - b :: 'a::len word) = unat a - unat b"
  by (simp add: unat_sub word_le_nat_alt)

lemma unat_mult_small [word_nat]:
  "unat a * unat b < 2 ^ LENGTH('a) \<Longrightarrow> unat (a * b :: 'a::len word) = unat a * unat b"
  by (simp add: unat_mult_lem)

lemma unat_of_nat_small [word_nat]:
  "n < 2 ^ LENGTH('a) \<Longrightarrow> unat (of_nat n :: 'a::len word) = n"
  by (simp add: unat_of_nat take_bit_nat_eq_self)

lemma unat_lt64 [simp]: "unat (w :: u64) < 18446744073709551616"
  using unsigned_less [of w, where 'a = nat] by simp

lemma unat_lt8 [simp]: "unat (w :: u8) < 256"
  using unsigned_less [of w, where 'a = nat] by simp

lemma drop_bit_unat_div: "unat (drop_bit n (w :: 'a::len word)) = unat w div 2 ^ n"
  unfolding unat_drop_bit_eq by (rule drop_bit_eq_div)

lemma bit_unat_odd: "bit (w :: 'a::len word) n \<longleftrightarrow> odd (unat w div 2 ^ n)"
proof -
  have "bit w n \<longleftrightarrow> bit (unat w) n"
    by (simp add: bit_unsigned_iff)
  then show ?thesis by (simp add: bit_nat_iff bit_iff_odd)
qed

lemma floor_log2_ex: "0 < (n::nat) \<Longrightarrow> \<exists>h. 2 ^ h \<le> n \<and> n < 2 ^ (h + 1)"
  using ex_power_ivl1 [of 2 n] by auto

lemma floor_log2_unique:
  assumes "2 ^ a \<le> (n::nat)" "n < 2 ^ (a + 1)" "2 ^ b \<le> n" "n < 2 ^ (b + 1)"
  shows "a = b"
proof -
  from assms have "(2::nat) ^ a < 2 ^ (b + 1)" "(2::nat) ^ b < 2 ^ (a + 1)" by linarith+
  then have "a < b + 1" "b < a + 1"
    by (auto intro: power_less_imp_less_exp [of "2::nat"])
  then show ?thesis by simp
qed

end
