(* ===== verification/Bit_Ops.thy ===== *)
theory Bit_Ops
  imports Kernel_Prelude
begin

unbundle bit_operations_syntax

text \<open>
  The bit helpers of include/kernel/lib/bit.h.  Each is one C expression on a 64-bit field; the shift
  counts of the callers are constants below 64.  The lemmas say which bits of the result are which
  bits of the field, the form in which the page-table, IDT and PIC code rely on them.
\<close>

definition test_bit :: "u8 \<Rightarrow> u64 \<Rightarrow> bool" where
  "test_bit bit_number field = ((drop_bit (unat bit_number) field AND 1) \<noteq> 0)"

definition extract_bit_chunk :: "u8 \<Rightarrow> u8 \<Rightarrow> u64 \<Rightarrow> u64" where
  "extract_bit_chunk bit_from bit_to field =
     drop_bit (unat bit_from) field
       AND drop_bit (unat ((64 :: u64) - (ucast bit_to - ucast bit_from + 1))) UINT64_MAX"

definition set_bit_u64 :: "u8 \<Rightarrow> u64 \<Rightarrow> u64" where
  "set_bit_u64 bit_number field = field OR push_bit (unat bit_number) 1"

definition clear_bit :: "u8 \<Rightarrow> u64 \<Rightarrow> u64" where
  "clear_bit bit_number field = field AND NOT (push_bit (unat bit_number) 1)"

definition toggle_bit :: "u8 \<Rightarrow> u64 \<Rightarrow> u64" where
  "toggle_bit bit_number field = field XOR push_bit (unat bit_number) 1"

lemma test_bit_iff: "test_bit b w = bit w (unat b)"
  by (simp add: test_bit_def and_one_eq bit_iff_odd_drop_bit odd_iff_mod_2_eq_one)

lemma bit_two_power_u64: "bit (2 ^ k :: u64) n \<longleftrightarrow> n = k \<and> n < 64"
  by (auto simp: bit_simps)

lemma bit_set_bit: "unat b < 64 \<Longrightarrow> bit (set_bit_u64 b w) n = (n = unat b \<or> bit w n)"
  by (auto simp: set_bit_u64_def bit_or_iff bit_two_power_u64)

lemma bit_clear_bit: "unat b < 64 \<Longrightarrow> bit (clear_bit b w) n = (n \<noteq> unat b \<and> bit w n)"
  by (auto simp: clear_bit_def bit_and_iff bit_not_iff bit_two_power_u64 dest: bit_imp_le_length)

lemma bit_toggle_bit: "unat b < 64 \<Longrightarrow> bit (toggle_bit b w) n = (if n = unat b then \<not> bit w n else bit w n)"
  by (auto simp: toggle_bit_def bit_xor_iff bit_two_power_u64)

lemma drop_bit_max: "k \<le> 64 \<Longrightarrow> drop_bit k UINT64_MAX = (mask (64 - k) :: u64)"
  by (rule bit_word_eqI) (auto simp: bit_simps)

lemma unat_ucast_u8 [simp]: "unat (ucast (b :: u8) :: u64) = unat b"
  by (simp add: unsigned_ucast_eq take_bit_nat_eq_self less_trans [OF unat_lt8])

lemma extract_bit_chunk_eq:
  assumes "unat lo \<le> unat hi" "unat hi < 64"
  shows "extract_bit_chunk lo hi w = take_bit (unat hi - unat lo + 1) (drop_bit (unat lo) w)"
proof -
  have "unat ((ucast hi :: u64) - ucast lo + 1) = unat hi - unat lo + 1"
    using assms by (simp add: word_nat unat_ucast_u8)
  then have "unat ((64 :: u64) - (ucast hi - ucast lo + 1)) = 64 - (unat hi - unat lo + 1)"
    using assms by (subst unat_sub_small) auto
  then show ?thesis
    using assms by (simp add: extract_bit_chunk_def drop_bit_max take_bit_eq_mask Suc_diff_le)
qed

lemma unat_extract_bit_chunk:
  assumes "unat lo \<le> unat hi" "unat hi < 64"
  shows "unat (extract_bit_chunk lo hi w) = unat w div 2 ^ unat lo mod 2 ^ (unat hi - unat lo + 1)"
  using assms by (simp add: extract_bit_chunk_eq unsigned_take_bit_eq drop_bit_unat_div)
    (simp add: take_bit_eq_mod)

end
