(* ===== verification/Kernel_Math.thy ===== *)
theory Kernel_Math
  imports Bit_Ops
begin

unbundle bit_operations_syntax

text \<open>
  The integer routines of src/kernel/lib/math: rounding to powers of two, the integer logarithm, fast
  exponentiation, the branch-free absolute value and the pseudo-random generator.  All of them work on
  fixed-width words, so the statements about them say for which inputs the 64-bit result is the
  mathematical one.
\<close>

subsection \<open>round.c\<close>

definition round_up_po2 :: "u64 \<Rightarrow> u64 \<Rightarrow> u64" where
  "round_up_po2 value power_of_2 = (value + power_of_2 - 1) AND (- power_of_2)"

text \<open>The six \<open>value |= value >> k\<close> lines that \<open>flp2\<close> and \<open>clp2\<close> share.\<close>

definition smear_right :: "u64 \<Rightarrow> u64" where
  "smear_right value =
     (let value = value OR drop_bit 1 value;
          value = value OR drop_bit 2 value;
          value = value OR drop_bit 4 value;
          value = value OR drop_bit 8 value;
          value = value OR drop_bit 16 value
      in value OR drop_bit 32 value)"

definition flp2 :: "u64 \<Rightarrow> u64" where
  "flp2 value = (let value = smear_right value in value - drop_bit 1 value)"

definition clp2 :: "u64 \<Rightarrow> u64" where
  "clp2 value = (let value = smear_right (value - 1) in value + 1)"

subsection \<open>ilog2.c\<close>

text \<open>The macro \<open>ROUND(v, a, w)\<close>; its pair of lvalues is the pair \<open>(v, a)\<close>.\<close>

definition ROUND :: "nat \<Rightarrow> u32 \<times> s32 \<Rightarrow> u32 \<times> s32" where
  "ROUND w va =
     (case va of (v, a) \<Rightarrow>
       if v AND push_bit w (push_bit w 1 - 1) \<noteq> 0 then (drop_bit w v, a + of_nat w) else (v, a))"

definition ilog2 :: "u64 \<Rightarrow> s32" where
  "ilog2 vv =
     (let v = ucast (drop_bit 32 vv) :: u32;
          (v, p) = (if v \<noteq> 0 then (v, 32) else (ucast vv, 0))
      in snd (ROUND 1 (ROUND 2 (ROUND 4 (ROUND 8 (ROUND 16 (v, p)))))))"

subsection \<open>upow.c\<close>

function upow_loop :: "u64 \<Rightarrow> u64 \<Rightarrow> u64 \<Rightarrow> u64" where
  "upow_loop p y exp =
     (let y = (if exp AND 1 \<noteq> 0 then p * y else y);
          exp' = drop_bit 1 exp
      in if exp' = 0 then y else upow_loop (p * p) y exp')"
  by pat_completeness auto
termination
proof (relation "measure (\<lambda>(p, y, exp). unat exp)")
  fix p y exp :: u64 and ya exp'
  assume "exp' = drop_bit 1 exp" "exp' \<noteq> 0"
  then have "unat exp' = unat exp div 2" "0 < unat exp'"
    using drop_bit_unat_div [of 1 exp] unat_gt_0 [of exp'] by simp_all
  then have "unat exp' < unat exp" by linarith
  then show "((p * p, ya, exp'), p, y, exp) \<in> measure (\<lambda>(p, y, exp). unat exp)" by simp
qed simp

declare upow_loop.simps [simp del]

definition upow :: "u64 \<Rightarrow> u64 \<Rightarrow> u64" where
  "upow base exp = upow_loop base 1 exp"

subsection \<open>abs.c and rand.c\<close>

definition abs_int :: "s32 \<Rightarrow> s32" where
  "abs_int value = (let mask = signed_drop_bit 31 value in (value + mask) XOR mask)"

text \<open>
  \<open>RAND_MOD\<close> is the unparenthesised macro \<open>RAND_MAX + 1\<close>, so \<open>x % RAND_MOD\<close> expands to
  \<open>x % RAND_MAX + 1\<close>.  The state is the static variable \<open>rand_seed\<close>.
\<close>

definition RAND_MAX :: u32 where "RAND_MAX = 0x7fffffff"

definition rand_next_seed :: "u32 \<Rightarrow> u32" where
  "rand_next_seed seed = (1103515245 * seed + 12345) mod RAND_MAX + 1"

definition rand_init_seed :: "u32 \<Rightarrow> u32" where
  "rand_init_seed new_seed = (if new_seed < 1 then 1 else new_seed)"

definition rand :: "u32 \<Rightarrow> s32 \<times> u32" where
  "rand rand_seed =
     (let rand_seed = rand_next_seed rand_seed
      in (ucast (extract_bit_chunk 16 30 (ucast rand_seed)), rand_seed))"

definition rand_r :: "u32 \<Rightarrow> s32" where
  "rand_r seed = ucast (extract_bit_chunk 16 30 (ucast (rand_next_seed seed)))"

subsection \<open>Rounding to powers of two\<close>

lemma bit_smear_step:
  assumes "\<And>n. bit (v :: u64) n \<longleftrightarrow> (\<exists>j < s. bit (w :: u64) (n + j))"
  shows "bit (v OR drop_bit s v) n \<longleftrightarrow> (\<exists>j < s + s. bit w (n + j))"
proof -
  have "bit (v OR drop_bit s v) n \<longleftrightarrow> (\<exists>j < s. bit w (n + j)) \<or> (\<exists>j < s. bit w (n + s + j))"
    by (simp add: bit_or_iff bit_drop_bit_eq assms ac_simps)
  also have "\<dots> \<longleftrightarrow> (\<exists>j < s + s. bit w (n + j))"
  proof safe
    fix j assume "j < s" "bit w (n + s + j)"
    then show "\<exists>j < s + s. bit w (n + j)" by (intro exI [of _ "s + j"]) (simp add: ac_simps)
  next
    fix j assume j: "j < s + s" "bit w (n + j)" "\<not> (\<exists>j < s. bit w (n + s + j))"
    then have "j < s" by (metis add.assoc add_diff_inverse_nat less_diff_conv2 linorder_not_less)
    with j show "\<exists>j < s. bit w (n + j)" by blast
  qed (auto intro: trans_less_add1)
  finally show ?thesis .
qed

lemma bit_smear_right: "bit (smear_right w) n \<longleftrightarrow> (\<exists>m\<ge>n. bit w m)"
proof -
  have "bit (smear_right w) n \<longleftrightarrow> (\<exists>j<32 + 32. bit w (n + j))"
    unfolding smear_right_def Let_def
    by (intro bit_smear_step [where s = 32] bit_smear_step [where s = 16, simplified]
        bit_smear_step [where s = 8, simplified] bit_smear_step [where s = 4, simplified]
        bit_smear_step [where s = 2, simplified] bit_smear_step [where s = 1, unfolded one_add_one]) auto
  also have "\<dots> \<longleftrightarrow> (\<exists>m\<ge>n. bit w m)"
  proof safe
    fix m assume "n \<le> m" "bit w m"
    moreover from \<open>bit w m\<close> have "m < 64" using bit_imp_le_length [of w m] by simp
    ultimately show "\<exists>j<32 + 32. bit w (n + j)" by (intro exI [of _ "m - n"]) auto
  next
    fix j assume "bit w (n + j)"
    then show "\<exists>m\<ge>n. bit w m" by (intro exI [of _ "n + j"]) simp
  qed
  finally show ?thesis .
qed

lemma smear_right_mask:
  assumes "2 ^ h \<le> unat w" "unat w < 2 ^ (h + 1)" "h < 64"
  shows "smear_right w = mask (h + 1)"
proof (rule bit_word_eqI)
  fix n
  have high: "\<not> bit w m" if "h < m" for m
  proof -
    have "unat w < 2 ^ m"
      using assms(2) power_increasing [of "h + 1" m "2::nat"] that by simp
    then show ?thesis by (simp add: bit_unat_odd)
  qed
  have "unat w div 2 ^ h = 1"
    using assms(1,2) by (simp add: div_nat_eqI)
  then have "bit w h" by (simp add: bit_unat_odd)
  moreover have "m \<le> h" if "bit w m" for m
    using high [of m] that by force
  ultimately have "(\<exists>m\<ge>n. bit w m) \<longleftrightarrow> n < h + 1"
    by (auto simp: less_Suc_eq_le intro: order.trans)
  then show "bit (smear_right w) n = bit (mask (h + 1) :: u64) n"
    using assms(3) by (auto simp: bit_smear_right bit_mask_iff)
qed

lemma flp2_power:
  assumes "2 ^ h \<le> unat v" "unat v < 2 ^ (h + 1)" "h < 64"
  shows "flp2 v = 2 ^ h"
proof -
  have "drop_bit 1 (mask (h + 1) :: u64) = mask h"
    using assms(3) by (intro bit_word_eqI) (auto simp: bit_drop_bit_eq bit_mask_iff)
  moreover have "(mask (h + 1) :: u64) = 2 ^ h + mask h"
    by (simp add: mask_eq_exp_minus_1)
  ultimately show ?thesis
    by (simp add: flp2_def smear_right_mask [OF assms])
qed

lemma flp2_0 [simp]: "flp2 0 = 0"
  by (simp add: flp2_def smear_right_def)

lemma log2_u64_ex:
  assumes "(v :: u64) \<noteq> 0"
  obtains h where "2 ^ h \<le> unat v" "unat v < 2 ^ (h + 1)" "h < 64"
proof -
  obtain h where h: "2 ^ h \<le> unat v" "unat v < 2 ^ (h + 1)"
    using floor_log2_ex [of "unat v"] assms by (auto simp: unat_gt_0)
  have "(2::nat) ^ h < 2 ^ 64" using h(1) unat_lt64 [of v] by (simp add: le_less_trans)
  then have "h < 64" by (rule power_less_imp_less_exp [rotated]) simp
  with h that show ?thesis by blast
qed

text \<open>C19: \<open>flp2\<close> rounds a non-zero 64-bit value down to the nearest power of two.\<close>

theorem flp2_spec:
  assumes "v \<noteq> 0"
  shows "\<exists>h<64. flp2 v = 2 ^ h \<and> 2 ^ h \<le> unat v \<and> unat v < 2 ^ (h + 1)"
  using assms by (rule log2_u64_ex) (use flp2_power in blast)

theorem flp2_spec_witness:
  "\<exists>h<64. flp2 0x7fee0000 = 2 ^ h \<and> 2 ^ h \<le> unat (0x7fee0000 :: u64) \<and> unat (0x7fee0000 :: u64) < 2 ^ (h + 1)"
  by (rule flp2_spec) simp

lemma clp2_power:
  assumes "2 ^ h < unat v" "unat v \<le> 2 ^ (h + 1)" "h < 63"
  shows "clp2 v = 2 ^ (h + 1)"
proof -
  have "unat (v - 1) = unat v - 1" using assms(1) by (simp add: unat_sub_small)
  then have "smear_right (v - 1) = mask (h + 1)"
    using assms by (intro smear_right_mask) auto
  then show ?thesis by (simp add: clp2_def mask_eq_exp_minus_1)
qed

lemma clp2_1 [simp]: "clp2 1 = 1"
  by (simp add: clp2_def smear_right_def)

text \<open>C20: \<open>clp2\<close> rounds up to the nearest power of two every value that has one in 64 bits.\<close>

theorem clp2_spec:
  assumes "v \<noteq> 0" and "unat v \<le> 2 ^ 63"
  shows "\<exists>h<64. clp2 v = 2 ^ h \<and> unat v \<le> 2 ^ h \<and> 2 ^ h < 2 * unat v"
proof (cases "v = 1")
  case True
  then show ?thesis by (intro exI [of _ 0]) simp
next
  case False
  with assms(1) have "2 \<le> unat v"
    by (metis One_nat_def Suc_1 Suc_leI less_one linorder_neqE_nat not_less_eq unat_1 unat_gt_0 word_unat_eq_iff)
  then obtain h where h: "2 ^ h < unat v" "unat v \<le> 2 ^ (h + 1)"
    using ex_power_ivl2 [of 2 "unat v"] by auto
  then have "(2::nat) ^ h < 2 ^ 63" using assms(2) by simp
  then have "h < 63" by (rule power_less_imp_less_exp [rotated]) simp
  with h clp2_power [OF h] show ?thesis by (intro exI [of _ "h + 1"]) auto
qed

theorem clp2_spec_witness:
  "\<exists>h<64. clp2 5000 = 2 ^ h \<and> unat (5000 :: u64) \<le> 2 ^ h \<and> 2 ^ h < 2 * unat (5000 :: u64)"
  by (rule clp2_spec) simp_all

lemma and_minus_power:
  assumes "k < 64"
  shows "unat ((x :: u64) AND (- (2 ^ k))) = unat x div 2 ^ k * 2 ^ k"
proof -
  have "x AND (- (2 ^ k)) = x AND NOT (mask k)"
    by (simp add: mask_eq_exp_minus_1 not_eq_complement)
  moreover have "(x AND mask k) + (x AND NOT (mask k)) = x"
    by (subst disjunctive_add_eq_or) (auto intro!: bit_word_eqI simp: bit_simps)
  ultimately have "x AND (- (2 ^ k)) = x - take_bit k x"
    by (simp add: take_bit_eq_mask eq_diff_eq add.commute)
  moreover have "unat (take_bit k x) = unat x mod 2 ^ k"
    by (simp add: unsigned_take_bit_eq) (simp add: take_bit_eq_mod)
  ultimately show ?thesis
    by (simp add: unat_sub_small minus_mod_eq_div_mult)
qed

lemma unat_round_up_po2:
  assumes "k < 64" and "unat v + 2 ^ k \<le> 2 ^ 64"
  shows "unat (round_up_po2 v (2 ^ k)) = (unat v + 2 ^ k - 1) div 2 ^ k * 2 ^ k"
proof -
  have "unat (v + (2 ^ k - 1)) = unat v + (2 ^ k - 1)"
    using assms by (subst unat_add_small) (auto simp: unat_sub_small unat_two_power)
  then have "unat (v + 2 ^ k - 1) = unat v + 2 ^ k - 1"
    by (simp add: add_diff_eq)
  then show ?thesis using assms(1) by (simp add: round_up_po2_def and_minus_power)
qed

lemma div_round_up:
  assumes "0 < (q::nat)"
  shows "x \<le> (x + q - 1) div q * q" "(x + q - 1) div q * q < x + q"
proof -
  have "(x + q - 1) div q * q + (x + q - 1) mod q = x + q - 1" by simp
  moreover have "(x + q - 1) mod q < q" using assms by simp
  ultimately show "x \<le> (x + q - 1) div q * q" "(x + q - 1) div q * q < x + q" using assms by linarith+
qed

text \<open>C21: \<open>round_up_po2\<close> returns the least multiple of the given power of two that is not below its argument.\<close>

theorem round_up_po2_spec:
  assumes "k < 64" and "unat v + 2 ^ k \<le> 2 ^ 64"
  shows "2 ^ k dvd unat (round_up_po2 v (2 ^ k)) \<and> unat v \<le> unat (round_up_po2 v (2 ^ k))
    \<and> unat (round_up_po2 v (2 ^ k)) < unat v + 2 ^ k"
  unfolding unat_round_up_po2 [OF assms] using div_round_up [of "2 ^ k" "unat v"] by simp_all

theorem round_up_po2_spec_witness:
  "2 ^ 12 dvd unat (round_up_po2 4097 (2 ^ 12)) \<and> unat (4097 :: u64) \<le> unat (round_up_po2 4097 (2 ^ 12))
    \<and> unat (round_up_po2 4097 (2 ^ 12)) < unat (4097 :: u64) + 2 ^ 12"
  using round_up_po2_spec [of 12 4097] by simp

subsection \<open>The integer logarithm\<close>

lemma ROUND_test:
  assumes "unat (v :: u32) < 2 ^ (2 * w)"
  shows "v AND push_bit w (push_bit w 1 - 1) \<noteq> 0 \<longleftrightarrow> 2 ^ w \<le> unat v"
proof -
  have "v AND push_bit w (push_bit w 1 - 1) = push_bit w (take_bit w (drop_bit w v))"
    by (rule bit_word_eqI) (auto simp: bit_simps simp flip: mask_eq_exp_minus_1)
  moreover have "take_bit w (drop_bit w v) = drop_bit w v"
  proof -
    have "unat (drop_bit w v) < 2 ^ w"
      using assms by (simp add: drop_bit_unat_div less_mult_imp_div_less mult_2 power_add)
    then have "unat (take_bit w (drop_bit w v)) = unat (drop_bit w v)"
      by (simp add: unsigned_take_bit_eq take_bit_nat_eq_self)
    then show ?thesis by (simp only: word_unat_eq_iff)
  qed
  moreover have "drop_bit w (push_bit w (drop_bit w v)) = drop_bit w v"
    by (rule bit_word_eqI) (auto simp: bit_simps dest: bit_imp_le_length)
  then have "push_bit w (drop_bit w v) = 0 \<longleftrightarrow> drop_bit w v = 0"
    by (metis drop_bit_of_0 push_bit_of_0)
  moreover have "drop_bit w v = 0 \<longleftrightarrow> unat v div 2 ^ w = 0"
    using drop_bit_unat_div [of w v] unat_0_iff [of "drop_bit w v"] by simp
  ultimately show ?thesis by (simp add: div_eq_0_iff not_less)
qed

lemma ROUND_spec:
  assumes "unat v < 2 ^ (2 * w)" "unat v = n div 2 ^ unat p" "0 < unat v" "unat p + w < 64"
    and "ROUND w (v, p) = (v', p')"
  shows "unat v' < 2 ^ w \<and> unat v' = n div 2 ^ unat p' \<and> 0 < unat v' \<and> unat p' \<le> unat p + w"
proof (cases "2 ^ w \<le> unat v")
  case True
  then have eqs: "v' = drop_bit w v" "p' = p + of_nat w"
    using assms(5) ROUND_test [OF assms(1)] by (auto simp: ROUND_def)
  have p': "unat p' = unat p + w"
    using assms(4) by (simp add: eqs unat_add_small unat_of_nat_small)
  have v': "unat v' = unat v div 2 ^ w" by (simp add: eqs drop_bit_unat_div)
  have "unat v' < 2 ^ w"
    using assms(1) by (simp add: v' less_mult_imp_div_less mult_2 power_add)
  moreover have "0 < unat v'" using True by (simp add: v' div_greater_zero_iff)
  moreover have "unat v' = n div 2 ^ unat p'"
    by (simp add: v' p' assms(2) power_add div_mult2_eq)
  ultimately show ?thesis by (simp add: p')
next
  case False
  then show ?thesis using assms ROUND_test [OF assms(1)] by (auto simp: ROUND_def)
qed

lemma ilog2_start:
  fixes vv :: u64
  assumes "vv \<noteq> 0"
  defines "vp \<equiv> (if (ucast (drop_bit 32 vv) :: u32) \<noteq> 0 then (ucast (drop_bit 32 vv), 32) else (ucast vv, 0)) :: u32 \<times> s32"
  shows "unat (fst vp) < 2 ^ 32" "unat (fst vp) = unat vv div 2 ^ unat (snd vp)" "0 < unat (fst vp)"
    "unat (snd vp) \<le> 32"
proof -
  have nz: "unat vv \<noteq> 0" using assms(1) by (simp only: unat_0_iff not_False_eq_True)
  have hi: "unat (ucast (drop_bit 32 vv) :: u32) = unat vv div 2 ^ 32"
    by (simp add: unsigned_ucast_eq drop_bit_unat_div take_bit_nat_eq_self less_mult_imp_div_less)
  have lo: "unat (ucast vv :: u32) = unat vv" if "unat vv div 2 ^ 32 = 0"
    using that by (simp add: unsigned_ucast_eq take_bit_nat_eq_self div_eq_0_iff)
  show "unat (fst vp) < 2 ^ 32" by (simp add: unsigned_less [of "fst vp", where 'a = nat, simplified])
  show "unat (fst vp) = unat vv div 2 ^ unat (snd vp)"
    using hi lo unat_0_iff [of "ucast (drop_bit 32 vv) :: u32"] by (auto simp: vp_def)
  show "0 < unat (fst vp)"
    using hi lo nz unat_0_iff [of "ucast (drop_bit 32 vv) :: u32"] by (auto simp: vp_def)
  show "unat (snd vp) \<le> 32" by (simp add: vp_def)
qed

lemma ilog2_bounds:
  assumes "vv \<noteq> 0"
  shows "unat vv div 2 ^ unat (ilog2 vv) = 1 \<and> unat (ilog2 vv) < 64"
proof -
  obtain v p where vp: "(if (ucast (drop_bit 32 vv) :: u32) \<noteq> 0 then (ucast (drop_bit 32 vv), 32) else (ucast vv, 0)) = (v :: u32, p :: s32)"
    by fastforce
  obtain v1 p1 where r1: "ROUND 16 (v, p) = (v1, p1)" by fastforce
  obtain v2 p2 where r2: "ROUND 8 (v1, p1) = (v2, p2)" by fastforce
  obtain v3 p3 where r3: "ROUND 4 (v2, p2) = (v3, p3)" by fastforce
  obtain v4 p4 where r4: "ROUND 2 (v3, p3) = (v4, p4)" by fastforce
  obtain v5 p5 where r5: "ROUND 1 (v4, p4) = (v5, p5)" by fastforce
  note start = ilog2_start [OF assms, unfolded vp, simplified fst_conv snd_conv]
  have s1: "unat v1 < 2 ^ 16 \<and> unat v1 = unat vv div 2 ^ unat p1 \<and> 0 < unat v1 \<and> unat p1 \<le> unat p + 16"
    using start by (intro ROUND_spec [OF _ _ _ _ r1]) auto
  have s2: "unat v2 < 2 ^ 8 \<and> unat v2 = unat vv div 2 ^ unat p2 \<and> 0 < unat v2 \<and> unat p2 \<le> unat p1 + 8"
    using s1 start by (intro ROUND_spec [OF _ _ _ _ r2]) auto
  have s3: "unat v3 < 2 ^ 4 \<and> unat v3 = unat vv div 2 ^ unat p3 \<and> 0 < unat v3 \<and> unat p3 \<le> unat p2 + 4"
    using s2 s1 start by (intro ROUND_spec [OF _ _ _ _ r3]) auto
  have s4: "unat v4 < 2 ^ 2 \<and> unat v4 = unat vv div 2 ^ unat p4 \<and> 0 < unat v4 \<and> unat p4 \<le> unat p3 + 2"
    using s3 s2 s1 start by (intro ROUND_spec [OF _ _ _ _ r4]) auto
  have s5: "unat v5 < 2 ^ 1 \<and> unat v5 = unat vv div 2 ^ unat p5 \<and> 0 < unat v5 \<and> unat p5 \<le> unat p4 + 1"
    using s4 s3 s2 s1 start by (intro ROUND_spec [OF _ _ _ _ r5]) auto
  have "ilog2 vv = p5"
    using vp r1 r2 r3 r4 r5 by (simp add: ilog2_def Let_def split: if_splits)
  then show ?thesis using s5 s4 s3 s2 s1 start by auto
qed

lemma div_bounds:
  assumes "(n::nat) div 2 ^ h = 1"
  shows "2 ^ h \<le> n" "n < 2 ^ (h + 1)"
proof -
  show "2 ^ h \<le> n" using assms by (metis div_less leI zero_neq_one)
  show "n < 2 ^ (h + 1)" using dividend_less_div_times [of "2 ^ h" n] assms by simp
qed

lemma ilog2_0 [simp]: "ilog2 0 = 0"
  by (simp add: ilog2_def ROUND_def)

text \<open>C18: \<open>ilog2\<close> returns the floor of the base-two logarithm of every non-zero 64-bit value.\<close>

theorem ilog2_spec:
  assumes "vv \<noteq> 0"
  shows "2 ^ unat (ilog2 vv) \<le> unat vv \<and> unat vv < 2 ^ (unat (ilog2 vv) + 1) \<and> unat (ilog2 vv) < 64"
  using ilog2_bounds [OF assms] div_bounds by blast

theorem ilog2_spec_witness:
  "2 ^ unat (ilog2 4096) \<le> unat (4096 :: u64) \<and> unat (4096 :: u64) < 2 ^ (unat (ilog2 4096) + 1)
    \<and> unat (ilog2 4096) < 64"
  by (rule ilog2_spec) simp

lemma ilog2_eqI:
  assumes "2 ^ h \<le> unat v" "unat v < 2 ^ (h + 1)"
  shows "unat (ilog2 v) = h"
proof -
  have "v \<noteq> 0" using assms(1) by (auto simp: unat_0)
  from ilog2_bounds [OF this] div_bounds assms show ?thesis
    by (metis floor_log2_unique)
qed

subsection \<open>Exponentiation\<close>

lemma upow_loop_eq: "upow_loop p y exp = y * p ^ unat exp"
proof (induction p y exp rule: upow_loop.induct)
  case (1 p y exp)
  define y' where "y' = (if exp AND 1 \<noteq> 0 then p * y else y)"
  have half: "unat (drop_bit 1 exp) = unat exp div 2"
    using drop_bit_unat_div [of 1 exp] by simp
  have odd: "exp AND 1 \<noteq> 0 \<longleftrightarrow> odd (unat exp)"
    using bit_unat_odd [of exp 0] by (simp add: and_one_eq odd_iff_mod_2_eq_one bit_0)
  have step: "y' * (p * p) ^ (unat exp div 2) = y * p ^ unat exp"
  proof (cases "odd (unat exp)")
    case True
    then have "unat exp = Suc (2 * (unat exp div 2))" by presburger
    then have "p ^ unat exp = p * (p * p) ^ (unat exp div 2)"
      by (metis power_Suc power_mult power2_eq_square)
    with True odd show ?thesis by (simp add: y'_def ac_simps)
  next
    case False
    then have "unat exp = 2 * (unat exp div 2)" by presburger
    then have "p ^ unat exp = (p * p) ^ (unat exp div 2)"
      by (metis power_mult power2_eq_square)
    with False odd show ?thesis by (simp add: y'_def)
  qed
  show ?case
  proof (cases "drop_bit 1 exp = 0")
    case True
    then have "unat exp div 2 = 0" using half by (simp add: unat_0)
    with step True show ?thesis by (simp add: upow_loop.simps [of p y exp] Let_def y'_def)
  next
    case False
    then have "upow_loop p y exp = y' * (p * p) ^ unat (drop_bit 1 exp)"
      using "1.IH" [OF refl refl] by (simp add: upow_loop.simps [of p y exp] Let_def y'_def)
    with step half show ?thesis by simp
  qed
qed

text \<open>C22: the square-and-multiply loop of \<open>upow\<close> ends and computes the power, modulo \<open>2 ^ 64\<close>.\<close>

theorem upow_spec: "upow base exp = base ^ unat exp"
  by (simp add: upow_def upow_loop_eq)

subsection \<open>Absolute value and pseudo-random numbers\<close>

lemma abs_int_eq: "abs_int v = (if bit v 31 then - v else v)"
proof -
  have "signed_drop_bit 31 v = (if bit v 31 then - 1 else 0 :: s32)"
    by (rule bit_word_eqI) (auto simp: bit_signed_drop_bit_iff not_less_eq_eq)
  then show ?thesis by (simp add: abs_int_def not_eq_complement)
qed

lemma sint_neg_iff_bit: "sint (v :: s32) < 0 \<longleftrightarrow> bit v 31"
  using bit_last_iff [of v] by simp

text \<open>
  The branch-free \<open>abs\<close> is the absolute value of every \<open>int\<close> but the least one, the case its comment
  leaves undefined.
\<close>

lemma abs_int_spec:
  assumes "v \<noteq> 0x80000000"
  shows "sint (abs_int v) = \<bar>sint v\<bar>"
proof (cases "bit v 31")
  case True
  have "sint v \<noteq> - 2147483648"
  proof
    assume "sint v = - 2147483648"
    then have "uint v = uint (0x80000000 :: s32)" by (simp add: uint_sint [of v])
    with assms show False by (simp only: word_uint_eq_iff)
  qed
  moreover have "- 2147483648 \<le> sint v" using sint_ge [of v] by simp
  moreover have "sint v < 0" using True by (simp add: sint_neg_iff_bit)
  ultimately have "signed_take_bit 31 (- sint v) = - sint v"
    by (intro signed_take_bit_int_eq_self) auto
  with \<open>sint v < 0\<close> True show ?thesis by (simp add: abs_int_eq sint_word_minus)
next
  case False
  then show ?thesis using sint_neg_iff_bit [of v] by (simp add: abs_int_eq)
qed

text \<open>
  The generator keeps its seed in \<open>1 \<dots> 2 ^ 31 - 1\<close>: the macro expansion adds one after the remainder, so
  the modulus is \<open>2 ^ 31 - 1\<close> and not the \<open>2 ^ 31\<close> of the file's comment.
\<close>

lemma unat_rand_next_seed:
  "unat (rand_next_seed s) = (1103515245 * unat s + 12345) mod 2 ^ 32 mod 2147483647 + 1"
proof -
  have m: "unat ((1103515245 * s + 12345 :: u32)) = (1103515245 * unat s + 12345) mod 2 ^ 32"
    by (simp add: unat_word_ariths mod_simps)
  have "unat ((1103515245 * s + 12345 :: u32) mod RAND_MAX) < 2147483647"
    by (simp add: unat_mod RAND_MAX_def)
  then show ?thesis
    by (simp add: rand_next_seed_def unat_add_small unat_mod RAND_MAX_def m)
qed

lemma rand_next_seed_range: "1 \<le> unat (rand_next_seed s) \<and> unat (rand_next_seed s) < 2 ^ 31"
  using mod_less_divisor [of 2147483647 "(1103515245 * unat s + 12345) mod 2 ^ 32"]
  by (simp only: unat_rand_next_seed) simp

lemma unat_rand: "unat (fst (rand s)) = unat (rand_next_seed s) div 2 ^ 16 mod 2 ^ 15"
proof -
  have "take_bit 64 (unat (rand_next_seed s)) = unat (rand_next_seed s)"
    using rand_next_seed_range [of s] by (intro take_bit_nat_eq_self) simp
  moreover have "take_bit 32 (unat (rand_next_seed s) div 65536 mod 32768) = unat (rand_next_seed s) div 65536 mod 32768"
    by (intro take_bit_nat_eq_self) (simp add: less_trans [OF mod_less_divisor])
  ultimately show ?thesis
    by (simp add: rand_def Let_def unsigned_ucast_eq unat_extract_bit_chunk)
qed

end
