(* ===== verification/Mem_Types.thy ===== *)
theory Mem_Types
  imports Kernel_Prelude
begin

text \<open>
  The physical-memory descriptors of include/kernel/arch/mem.h, which the memory map, the buddy
  allocator and the paging code exchange by value.
\<close>

record mem_map_region_t =
  rg_base :: u64
  rg_length :: u64
  rg_type :: u32

definition E820_MEM_TYPE_USABLE :: u32 where "E820_MEM_TYPE_USABLE = 1"

definition E820_MEM_TYPE_RESERVED :: u32 where "E820_MEM_TYPE_RESERVED = 2"

record mem_phys_stats_t =
  phys_avail_mem :: u64
  phys_free_mem :: u64

end
