(* ===== verification/Buddy_Alloc.thy ===== *)
theory Buddy_Alloc
  imports Kernel_Math Mem_Types
begin

unbundle bit_operations_syntax

text \<open>
  The buddy allocator of src/kernel/mm/buddy.c, as the code has it: a header region that holds one array
  of slots per power-of-two order, lowest order first, and pointer arithmetic between a slot, its
  parent, its children and its sibling.

  The header memory is a store from slot addresses to slots (\<open>hdr\<close>); every operation that writes
  through a \<open>buddy_slot_t *\<close> returns the new store.  \<open>sizeof(buddy_slot_t)\<close> is 16: eight bytes of
  address, one of order, three of padding and a four-byte enum.
\<close>

subsection \<open>Data\<close>

datatype slot_type_t = UNUSED | SPLIT | USED

record buddy_slot_t =
  slot_base :: u64
  slot_order :: u8
  slot_type :: slot_type_t

record buddy_ref_t =
  header_mem_reg :: mem_map_region_t
  content_mem_reg :: mem_map_region_t
  max_pow_order :: u8
  min_pow_order :: u8

type_synonym hdr = "addr \<Rightarrow> buddy_slot_t"

definition sizeof_buddy_slot :: u64 where "sizeof_buddy_slot = 16"

definition BUDDY_ALLOC_SMALLEST_BLOCK :: u64 where "BUDDY_ALLOC_SMALLEST_BLOCK = 4096"

text \<open>What \<open>memzero\<close> leaves in a slot (\<open>UNUSED\<close> is the enum value 0).\<close>

definition zero_slot :: buddy_slot_t where
  "zero_slot = \<lparr>slot_base = 0, slot_order = 0, slot_type = UNUSED\<rparr>"

definition memzero_slots :: "hdr \<Rightarrow> addr \<Rightarrow> u64 \<Rightarrow> hdr" where
  "memzero_slots h dst sz = (\<lambda>a. if a - dst < sz then zero_slot else h a)"

subsection \<open>Positions\<close>

definition buddy_calc_header_space :: "u64 \<Rightarrow> u64 kres" where
  "buddy_calc_header_space mem_space =
     BUG_ON ''buddy_calc_header_space'' (mem_space \<noteq> flp2 mem_space)
       (let max_k = ilog2 mem_space;
            min_k = ilog2 BUDDY_ALLOC_SMALLEST_BLOCK
        in Inr (upow 2 (scast (max_k - min_k + 1)) * sizeof_buddy_slot))"

definition goto_porder_idx :: "buddy_ref_t \<Rightarrow> u8 \<Rightarrow> addr" where
  "goto_porder_idx ref po =
     (let offset_addr = upow 2 (ucast (max_pow_order ref) - (ucast (min_pow_order ref) - 1))
                        - upow 2 (ucast (max_pow_order ref) - ucast po + 1)
      in rg_base (header_mem_reg ref) + offset_addr * sizeof_buddy_slot)"

definition arr_pos :: "buddy_ref_t \<Rightarrow> hdr \<Rightarrow> addr \<Rightarrow> u64" where
  "arr_pos ref h p = (p - goto_porder_idx ref (slot_order (h p))) div sizeof_buddy_slot"

text \<open>\<open>goto_parent\<close> calls \<open>clear_bit(0, arr_pos)\<close> and drops its result, so the call has no effect here.\<close>

definition goto_parent :: "buddy_ref_t \<Rightarrow> hdr \<Rightarrow> addr \<Rightarrow> addr" where
  "goto_parent ref h child =
     goto_porder_idx ref (slot_order (h child) + 1) + (arr_pos ref h child div 2) * sizeof_buddy_slot"

definition goto_left_child :: "buddy_ref_t \<Rightarrow> hdr \<Rightarrow> addr \<Rightarrow> addr" where
  "goto_left_child ref h parent =
     goto_porder_idx ref (slot_order (h parent) - 1) + (arr_pos ref h parent * 2) * sizeof_buddy_slot"

definition goto_right_child :: "buddy_ref_t \<Rightarrow> hdr \<Rightarrow> addr \<Rightarrow> addr" where
  "goto_right_child ref h parent =
     goto_porder_idx ref (slot_order (h parent) - 1) + (arr_pos ref h parent * 2) * sizeof_buddy_slot
       + sizeof_buddy_slot"

definition goto_sibling :: "buddy_ref_t \<Rightarrow> hdr \<Rightarrow> addr \<Rightarrow> addr" where
  "goto_sibling ref h node =
     (if arr_pos ref h node mod 2 = 0 then node + sizeof_buddy_slot else node - sizeof_buddy_slot)"

definition n_of_entries :: "buddy_ref_t \<Rightarrow> u8 \<Rightarrow> u64" where
  "n_of_entries ref po = upow 2 (ucast (max_pow_order ref)) div upow 2 (ucast po)"

definition is_entry_empty :: "buddy_slot_t \<Rightarrow> bool" where
  "is_entry_empty s = (slot_base s = 0 \<and> slot_order s = 0)"

subsection \<open>Operations\<close>

definition buddy_init :: "hdr \<Rightarrow> mem_map_region_t \<Rightarrow> mem_map_region_t \<Rightarrow> (buddy_ref_t \<times> hdr) kres" where
  "buddy_init h h_mem_reg c_mem_reg =
     BUG_ON ''buddy_init'' (rg_length c_mem_reg \<noteq> flp2 (rg_length c_mem_reg))
       (let max_po = ucast (ilog2 (rg_length c_mem_reg));
            ref = \<lparr>header_mem_reg = h_mem_reg, content_mem_reg = c_mem_reg, max_pow_order = max_po,
                   min_pow_order = ucast (ilog2 BUDDY_ALLOC_SMALLEST_BLOCK)\<rparr>;
            h = memzero_slots h (rg_base h_mem_reg) (rg_length h_mem_reg);
            ptr = goto_porder_idx ref max_po;
            largest_slot = \<lparr>slot_base = rg_base c_mem_reg, slot_order = max_po, slot_type = UNUSED\<rparr>
        in Inr (ref, h(ptr := largest_slot)))"

text \<open>The search loop: \<open>i\<close> counts from 0 to \<open>n_entries - 1\<close>; \<open>NULL\<close> when no entry is free.\<close>

function find_free_slot_loop :: "hdr \<Rightarrow> addr \<Rightarrow> nat \<Rightarrow> nat \<Rightarrow> addr" where
  "find_free_slot_loop h idx n_entries i =
     (if i < n_entries then
        (let tmp = idx + of_nat i * sizeof_buddy_slot
         in if \<not> is_entry_empty (h tmp) \<and> slot_type (h tmp) = UNUSED then tmp
            else find_free_slot_loop h idx n_entries (i + 1))
      else NULL)"
  by pat_completeness auto
termination by (relation "measure (\<lambda>(h, idx, n, i). n - i)") auto

declare find_free_slot_loop.simps [simp del]

definition find_free_slot :: "buddy_ref_t \<Rightarrow> hdr \<Rightarrow> u8 \<Rightarrow> addr" where
  "find_free_slot ref h po =
     find_free_slot_loop h (goto_porder_idx ref po) (unat (n_of_entries ref po)) 0"

definition insert_child_slot :: "buddy_ref_t \<Rightarrow> hdr \<Rightarrow> addr \<Rightarrow> buddy_slot_t \<Rightarrow> hdr" where
  "insert_child_slot ref h parent child =
     (let idx = (if slot_base (h parent) = slot_base child then goto_left_child ref h parent
                 else goto_right_child ref h parent)
      in h(idx := child))"

text \<open>The split of a free slot into two free halves, the same statements in \<open>buddy_alloc\<close> and \<open>buddy_pre_alloc\<close>.\<close>

definition split_slot :: "buddy_ref_t \<Rightarrow> hdr \<Rightarrow> addr \<Rightarrow> hdr" where
  "split_slot ref h idx =
     (let left = \<lparr>slot_base = slot_base (h idx), slot_order = slot_order (h idx) - 1, slot_type = UNUSED\<rparr>;
          right = \<lparr>slot_base = slot_base (h idx) + upow 2 (ucast (slot_order (h idx)) - 1),
                   slot_order = slot_order (h idx) - 1, slot_type = UNUSED\<rparr>;
          h = insert_child_slot ref h idx left;
          h = insert_child_slot ref h idx right
      in h(idx := (h idx)\<lparr>slot_type := SPLIT\<rparr>))"

text \<open>
  The \<open>while (true)\<close> loop of \<open>buddy_alloc\<close>, with its two loop variables: the header and \<open>tmp_k_order\<close>.
  \<open>Inr (h, None)\<close> is the exit with \<open>found\<close> still false.  An order is a byte, so 512 rounds are more
  than any run of the loop takes on a well-formed header.
\<close>

fun buddy_alloc_loop :: "nat \<Rightarrow> buddy_ref_t \<Rightarrow> u8 \<Rightarrow> u8 \<Rightarrow> hdr \<Rightarrow> (hdr \<times> addr option) kres" where
  "buddy_alloc_loop 0 ref k_order tmp_k_order h = Inl Out_of_fuel"
| "buddy_alloc_loop (Suc fuel) ref k_order tmp_k_order h =
     (let idx = find_free_slot ref h tmp_k_order
      in if idx = NULL then
           (if tmp_k_order = max_pow_order ref then Inr (h, None)
            else buddy_alloc_loop fuel ref k_order (tmp_k_order + 1) h)
         else if slot_order (h idx) > k_order then
           buddy_alloc_loop fuel ref k_order (tmp_k_order - 1) (split_slot ref h idx)
         else Inr (h(idx := (h idx)\<lparr>slot_type := USED\<rparr>), Some (slot_base (h idx))))"

definition ALLOC_FUEL :: nat where "ALLOC_FUEL = 512"

definition alloc_order :: "buddy_ref_t \<Rightarrow> u64 \<Rightarrow> u8" where
  "alloc_order ref bytes =
     (let k_order = ucast (ilog2 (clp2 bytes))
      in if k_order < min_pow_order ref then min_pow_order ref else k_order)"

definition buddy_alloc :: "buddy_ref_t \<Rightarrow> hdr \<Rightarrow> u64 \<Rightarrow> (hdr \<times> addr) kres" where
  "buddy_alloc ref h bytes =
     BUG_ON ''buddy_alloc'' (bytes = 0 \<or> bytes > rg_length (content_mem_reg ref))
       (let k_order = alloc_order ref bytes
        in kbind (buddy_alloc_loop ALLOC_FUEL ref k_order k_order h)
             (\<lambda>(h, found). case found of None \<Rightarrow> Inl (Bug_on ''buddy_alloc'') | Some ptr \<Rightarrow> Inr (h, ptr)))"

text \<open>The descent of \<open>find_slot_by_addr\<close>; \<open>Inr None\<close> is the exit with \<open>slot_found\<close> still \<open>NULL\<close>.\<close>

fun find_slot_loop :: "nat \<Rightarrow> buddy_ref_t \<Rightarrow> hdr \<Rightarrow> addr \<Rightarrow> addr \<Rightarrow> addr option kres" where
  "find_slot_loop 0 ref h ptr idx = Inl Out_of_fuel"
| "find_slot_loop (Suc fuel) ref h ptr idx =
     (if slot_order (h idx) \<ge> min_pow_order ref then
        (if slot_type (h idx) = UNUSED then Inr None
         else if ptr \<ge> slot_base (h idx)
                 \<and> ptr \<le> slot_base (h idx) + upow 2 (ucast (slot_order (h idx))) div 2 - 1 then
           (if slot_type (h idx) = SPLIT then find_slot_loop fuel ref h ptr (goto_left_child ref h idx)
            else Inr (Some idx))
         else
           (if slot_type (h idx) = SPLIT then find_slot_loop fuel ref h ptr (goto_right_child ref h idx)
            else Inr (Some idx)))
      else Inr None)"

definition find_slot_by_addr :: "buddy_ref_t \<Rightarrow> hdr \<Rightarrow> addr \<Rightarrow> addr kres" where
  "find_slot_by_addr ref h ptr =
     kbind (find_slot_loop ALLOC_FUEL ref h ptr (goto_porder_idx ref (max_pow_order ref)))
       (\<lambda>slot_found. case slot_found of None \<Rightarrow> Inl (Bug_on ''find_slot_by_addr'') | Some s \<Rightarrow> Inr s)"

text \<open>The merge loop of \<open>buddy_free\<close>.\<close>

fun buddy_free_loop :: "nat \<Rightarrow> buddy_ref_t \<Rightarrow> addr \<Rightarrow> hdr \<Rightarrow> hdr kres" where
  "buddy_free_loop 0 ref ptr_slot h = Inl Out_of_fuel"
| "buddy_free_loop (Suc fuel) ref ptr_slot h =
     (if slot_order (h ptr_slot) < max_pow_order ref then
        (let sibling_slot = goto_sibling ref h ptr_slot
         in if slot_type (h sibling_slot) \<noteq> UNUSED then Inr h
            else
              (let large_slot = goto_parent ref h ptr_slot;
                   h = h(large_slot := (h large_slot)\<lparr>slot_type := UNUSED\<rparr>);
                   h = h(ptr_slot := zero_slot);
                   h = h(sibling_slot := zero_slot)
               in buddy_free_loop fuel ref large_slot h))
      else Inr h)"

definition buddy_free :: "buddy_ref_t \<Rightarrow> hdr \<Rightarrow> addr \<Rightarrow> hdr kres" where
  "buddy_free ref h ptr =
     BUG_ON ''buddy_free'' (ptr = NULL)
       (kbind (find_slot_by_addr ref h ptr)
         (\<lambda>ptr_slot. buddy_free_loop ALLOC_FUEL ref ptr_slot
            (h(ptr_slot := (h ptr_slot)\<lparr>slot_type := UNUSED\<rparr>))))"

subsection \<open>Reserving a given range\<close>

text \<open>
  \<open>buddy_pre_alloc\<close> walks down from the root to the slot that fits the range.  One round of its
  \<open>while (true)\<close> loop either goes on with a header and a slot (\<open>Walk_on\<close>), returns from the function
  (\<open>Walk_return\<close>), jumps to \<open>overlapping_block\<close> with the slot \<open>idx\<close> (\<open>Walk_overlap\<close>), or fails its
  \<open>BUG_ON\<close>.  Two branches change nothing and go round again, and the recursion has no bound of its
  own: the loop and the function are partial, and not returning is the value \<open>None\<close>.
\<close>

datatype walk = Walk_on hdr addr | Walk_return hdr | Walk_overlap hdr addr | Walk_bug

definition pre_alloc_round :: "buddy_ref_t \<Rightarrow> u64 \<Rightarrow> u64 \<Rightarrow> u8 \<Rightarrow> addr \<Rightarrow> hdr \<Rightarrow> walk" where
  "pre_alloc_round ref base_addr len k_order idx h =
     (let cur_k_order_length = upow 2 (ucast (slot_order (h idx)));
          next_k_order_length = upow 2 (ucast (slot_order (h idx)) - 1)
      in if base_addr \<ge> slot_base (h idx) \<and> base_addr + len \<le> slot_base (h idx) + cur_k_order_length then
           (if slot_order (h idx) > k_order then
              (case slot_type (h idx) of
                 UNUSED \<Rightarrow>
                   (let h = split_slot ref h idx
                    in if base_addr \<ge> slot_base (h idx)
                          \<and> base_addr + len \<le> slot_base (h idx) + next_k_order_length
                       then Walk_on h (goto_left_child ref h idx)
                       else if base_addr \<ge> slot_base (h idx) + next_k_order_length
                       then Walk_on h (goto_right_child ref h idx)
                       else Walk_overlap h idx)
               | SPLIT \<Rightarrow>
                   (if base_addr + len \<le> slot_base (h idx) + next_k_order_length
                    then Walk_on h (goto_left_child ref h idx)
                    else if base_addr \<ge> slot_base (h idx) + next_k_order_length
                    then Walk_on h (goto_right_child ref h idx)
                    else Walk_overlap h idx)
               | USED \<Rightarrow> Walk_return h)
            else if slot_order (h idx) = k_order then
              (if slot_type (h idx) \<noteq> UNUSED then Walk_bug
               else Walk_return (h(idx := (h idx)\<lparr>slot_type := USED\<rparr>)))
            else Walk_on h idx)
         else Walk_on h idx)"

partial_function (option) pre_alloc_walk ::
  "buddy_ref_t \<Rightarrow> u64 \<Rightarrow> u64 \<Rightarrow> u8 \<Rightarrow> addr \<Rightarrow> hdr \<Rightarrow> walk option" where
  "pre_alloc_walk ref base_addr len k_order idx h =
     (case pre_alloc_round ref base_addr len k_order idx h of
        Walk_on h idx \<Rightarrow> pre_alloc_walk ref base_addr len k_order idx h
      | Walk_return h \<Rightarrow> Some (Walk_return h)
      | Walk_overlap h idx \<Rightarrow> Some (Walk_overlap h idx)
      | Walk_bug \<Rightarrow> Some Walk_bug)"

definition pre_alloc_order :: "buddy_ref_t \<Rightarrow> u64 \<Rightarrow> u8" where
  "pre_alloc_order ref len =
     (let k_order = ucast (ilog2 len) in if k_order < min_pow_order ref then min_pow_order ref else k_order)"

partial_function (option) buddy_pre_alloc :: "buddy_ref_t \<Rightarrow> u64 \<Rightarrow> u64 \<Rightarrow> hdr \<Rightarrow> hdr kres option" where
  "buddy_pre_alloc ref base_addr len0 h =
     (if len0 = 0 \<or> len0 > rg_length (content_mem_reg ref) \<or> base_addr < rg_base (content_mem_reg ref)
      then Some (Inl (Bug_on ''buddy_pre_alloc''))
      else
        let len = round_up_po2 len0 BUDDY_ALLOC_SMALLEST_BLOCK
        in if len \<noteq> clp2 len then
             (let req_1_length = flp2 len
              in Option.bind (buddy_pre_alloc ref base_addr req_1_length h)
                   (\<lambda>r. case r of Inl e \<Rightarrow> Some (Inl e)
                        | Inr h \<Rightarrow> buddy_pre_alloc ref (base_addr + req_1_length) (len - req_1_length) h))
           else
             Option.bind
               (pre_alloc_walk ref base_addr len (pre_alloc_order ref len) (goto_porder_idx ref (max_pow_order ref)) h)
               (\<lambda>w. case w of
                  Walk_bug \<Rightarrow> Some (Inl (Bug_on ''buddy_pre_alloc''))
                | Walk_return h \<Rightarrow> Some (Inr h)
                | Walk_on h idx \<Rightarrow> None
                | Walk_overlap h idx \<Rightarrow>
                    (let mid = slot_base (h idx) + upow 2 (ucast (slot_order (h idx)) - 1)
                     in Option.bind (buddy_pre_alloc ref base_addr (mid - base_addr) h)
                          (\<lambda>r. case r of Inl e \<Rightarrow> Some (Inl e)
                               | Inr h \<Rightarrow> buddy_pre_alloc ref mid (base_addr + len - mid) h))))"

end
