(* ===== verification/Buddy_Tree.thy ===== *)
theory Buddy_Tree
  imports Kernel_Prelude
begin

text \<open>
  The abstract buddy system that src/kernel/mm/buddy.c promises to implement.  A block of order \<open>k\<close> at
  position \<open>i\<close> covers the offsets \<open>i * 2 ^ k\<close> up to \<open>(i + 1) * 2 ^ k\<close> of the managed region.  A state
  says for each order and position whether that block is absent, free, split into its two halves, or
  allocated; \<open>kinv\<close> is the tree invariant (a block exists exactly when its parent is split).  The
  operations are the splitting of a free block, the carving of a small block out of a larger one and
  the merging of free buddies; the lemmas show what each does to the invariant, to the set of
  allocated blocks and to the absence of free buddy pairs (\<open>coal\<close>).
\<close>

datatype bkind = Absent | Free | Split | Alloc

type_synonym bstate = "nat \<Rightarrow> nat \<Rightarrow> bkind"

definition upd :: "bstate \<Rightarrow> nat \<Rightarrow> nat \<Rightarrow> bkind \<Rightarrow> bstate" where
  "upd T k i v = T(k := (T k)(i := v))"

definition in_range :: "nat \<Rightarrow> nat \<Rightarrow> nat \<Rightarrow> nat \<Rightarrow> bool" where
  "in_range m M k i \<longleftrightarrow> m \<le> k \<and> k \<le> M \<and> i < 2 ^ (M - k)"

definition kinv :: "nat \<Rightarrow> nat \<Rightarrow> bstate \<Rightarrow> bool" where
  "kinv m M T \<longleftrightarrow>
     T M 0 \<noteq> Absent
     \<and> (\<forall>k i. m \<le> k \<and> k < M \<and> i < 2 ^ (M - k) \<longrightarrow> (T k i \<noteq> Absent \<longleftrightarrow> T (Suc k) (i div 2) = Split))
     \<and> (\<forall>i < 2 ^ (M - m). T m i \<noteq> Split)"

definition sib :: "nat \<Rightarrow> nat" where
  "sib i = (if even i then i + 1 else i - 1)"

definition block :: "nat \<Rightarrow> nat \<Rightarrow> nat set" where
  "block k i = {i * 2 ^ k ..< (i + 1) * 2 ^ k}"

definition alloc_set :: "nat \<Rightarrow> nat \<Rightarrow> bstate \<Rightarrow> (nat \<times> nat) set" where
  "alloc_set m M T = {(k, i). in_range m M k i \<and> T k i = Alloc}"

definition no_free :: "nat \<Rightarrow> bstate \<Rightarrow> nat \<Rightarrow> bool" where
  "no_free M T t \<longleftrightarrow> (\<forall>j < 2 ^ (M - t). T t j \<noteq> Free)"

definition coal :: "nat \<Rightarrow> nat \<Rightarrow> bstate \<Rightarrow> bool" where
  "coal m M T \<longleftrightarrow> (\<forall>k i. m \<le> k \<and> k < M \<and> i < 2 ^ (M - k) \<longrightarrow> \<not> (T k i = Free \<and> T k (sib i) = Free))"

text \<open>No free buddy pair but possibly the one at order \<open>t\<close>, position \<open>j\<close>.\<close>

definition coal_but :: "nat \<Rightarrow> nat \<Rightarrow> bstate \<Rightarrow> nat \<Rightarrow> nat \<Rightarrow> bool" where
  "coal_but m M T t j \<longleftrightarrow>
     (\<forall>k i. m \<le> k \<and> k < M \<and> i < 2 ^ (M - k) \<and> T k i = Free \<and> T k (sib i) = Free
        \<longrightarrow> k = t \<and> (i = j \<or> i = sib j))"

definition split_node :: "bstate \<Rightarrow> nat \<Rightarrow> nat \<Rightarrow> bstate" where
  "split_node T t j = upd (upd (upd T t j Split) (t - 1) (2 * j) Free) (t - 1) (2 * j + 1) Free"

definition merge_node :: "bstate \<Rightarrow> nat \<Rightarrow> nat \<Rightarrow> bstate" where
  "merge_node T k i = upd (upd (upd T (Suc k) (i div 2) Free) k i Absent) k (sib i) Absent"

fun carve :: "bstate \<Rightarrow> nat \<Rightarrow> nat \<Rightarrow> nat \<Rightarrow> bstate" where
  "carve T k 0 j = upd T k j Alloc"
| "carve T k (Suc d) j = carve (split_node T (k + Suc d) j) k d (2 * j)"

function merge_up :: "nat \<Rightarrow> bstate \<Rightarrow> nat \<Rightarrow> nat \<Rightarrow> bstate" where
  "merge_up M T k i =
     (if k < M \<and> T k (sib i) = Free then merge_up M (merge_node T k i) (Suc k) (i div 2) else T)"
  by pat_completeness auto
termination by (relation "measure (\<lambda>(M, T, k, i). M - k)") auto

declare merge_up.simps [simp del] carve.simps [simp del]

subsection \<open>Positions\<close>

lemma upd_apply [simp]: "upd T k i v k' i' = (if k' = k \<and> i' = i then v else T k' i')"
  by (simp add: upd_def)

lemma bstate_eqI: "(\<And>k i. T k i = T' k i) \<Longrightarrow> (T :: bstate) = T'"
  by blast

lemma div2_iff: "(i::nat) div 2 = j \<longleftrightarrow> i = 2 * j \<or> i = 2 * j + 1"
  by presburger

lemma sib_div2 [simp]: "sib i div 2 = i div 2"
  by (simp add: sib_def) presburger

lemma sib_sib [simp]: "sib (sib i) = i"
  by (auto simp: sib_def)

lemma sib_neq [simp]: "sib i \<noteq> i" "i \<noteq> sib i"
  by (auto simp: sib_def elim: oddE)

lemma sib_double [simp]: "sib (2 * j) = 2 * j + 1" "sib (Suc (2 * j)) = 2 * j"
  by (auto simp: sib_def)

lemma sib_eq_iff: "sib i = j \<longleftrightarrow> i = sib j"
  by auto

lemma pow_half: "k < M \<Longrightarrow> (2::nat) ^ (M - k) = 2 * 2 ^ (M - Suc k)"
  by (simp add: Suc_diff_Suc flip: power_Suc)

lemma div2_range: "k < M \<Longrightarrow> (i::nat) < 2 ^ (M - k) \<Longrightarrow> i div 2 < 2 ^ (M - Suc k)"
  by (simp add: pow_half less_mult_imp_div_less mult.commute)

lemma child_range:
  "k < M \<Longrightarrow> (j::nat) < 2 ^ (M - Suc k) \<Longrightarrow> 2 * j < 2 ^ (M - k) \<and> Suc (2 * j) < 2 ^ (M - k)"
  by (simp add: pow_half)

lemma sib_range:
  assumes "k < M" "i < 2 ^ (M - k)"
  shows "sib i < 2 ^ (M - k)"
proof -
  from assms have "2 * (i div 2) + 1 < (2::nat) ^ (M - k)" using child_range div2_range by auto
  moreover have "sib i \<le> 2 * (i div 2) + 1" by (simp add: sib_def)
  ultimately show ?thesis by simp
qed

lemma block_div: "x \<in> block k i \<longleftrightarrow> x div 2 ^ k = i"
  by (auto simp: block_def div_nat_eqI mult.commute intro: div_times_less_eq_dividend)
    (metis dividend_less_div_times add.commute mult.commute mult_Suc zero_less_numeral zero_less_power)

lemma div_pow_diff: "k \<le> k' \<Longrightarrow> (x::nat) div 2 ^ k div 2 ^ (k' - k) = x div 2 ^ k'"
  by (simp add: div_mult2_eq [symmetric] flip: power_add)

lemma block_subset: "k \<le> k' \<Longrightarrow> i div 2 ^ (k' - k) = i' \<Longrightarrow> block k i \<subseteq> block k' i'"
  by (auto simp: block_div div_pow_diff)

lemma block_inter: "k \<le> k' \<Longrightarrow> block k i \<inter> block k' i' \<noteq> {} \<Longrightarrow> i div 2 ^ (k' - k) = i'"
  by (auto simp: block_div div_pow_diff)

lemma last_offset_div:
  assumes "k \<le> M"
  shows "(2 ^ M - 1) div 2 ^ k = (2 ^ (M - k) - 1 :: nat)"
proof -
  define p q where "p = (2::nat) ^ k" and "q = (2::nat) ^ (M - k)"
  have "2 ^ M = q * p" "0 < p" "0 < q" using assms by (simp_all add: p_def q_def flip: power_add)
  moreover have "(q * p - 1) div p = q - 1" if "0 < p" "0 < q" for p q :: nat
    using that by (intro div_nat_eqI) (cases q, auto simp: algebra_simps)+
  ultimately show ?thesis by (simp add: p_def q_def)
qed

lemma in_range_bound:
  assumes "in_range m M k i"
  shows "(i + 1) * 2 ^ k \<le> 2 ^ M"
proof -
  have "(i + 1) * 2 ^ k \<le> 2 ^ (M - k) * 2 ^ k" using assms by (intro mult_le_mono1) (simp add: in_range_def)
  also have "\<dots> = 2 ^ M" using assms by (simp add: in_range_def flip: power_add)
  finally show ?thesis .
qed

lemma block_in_region: "in_range m M k i \<Longrightarrow> block k i \<subseteq> {0 ..< 2 ^ M}"
  using in_range_bound [of m M k i] by (auto simp: block_def)

lemma block_nonempty: "i * 2 ^ k \<in> block k i"
  by (simp add: block_def)

lemma block_halves: "block (Suc k) j = block k (2 * j) \<union> block k (Suc (2 * j))"
  by (auto simp: block_def algebra_simps)

subsection \<open>Consequences of the tree invariant\<close>

lemma kinvD:
  assumes "kinv m M T"
  shows "T M 0 \<noteq> Absent"
    and "m \<le> k \<Longrightarrow> k < M \<Longrightarrow> i < 2 ^ (M - k) \<Longrightarrow> T k i \<noteq> Absent \<longleftrightarrow> T (Suc k) (i div 2) = Split"
    and "i < 2 ^ (M - m) \<Longrightarrow> T m i \<noteq> Split"
  using assms by (auto simp: kinv_def)

lemma kinv_children:
  assumes "kinv m M T" "m \<le> k" "k < M" "j < 2 ^ (M - Suc k)"
  shows "T k (2 * j) \<noteq> Absent \<longleftrightarrow> T (Suc k) j = Split"
    and "T k (Suc (2 * j)) \<noteq> Absent \<longleftrightarrow> T (Suc k) j = Split"
  using kinvD(2) [OF assms(1-3), of "2 * j"] kinvD(2) [OF assms(1-3), of "Suc (2 * j)"]
    child_range [OF assms(3,4)] by auto

lemma kinv_sib:
  assumes "kinv m M T" "m \<le> k" "k < M" "i < 2 ^ (M - k)"
  shows "T k (sib i) \<noteq> Absent \<longleftrightarrow> T k i \<noteq> Absent"
  using kinvD(2) [OF assms(1-3), of i] kinvD(2) [OF assms(1-3), of "sib i"] sib_range [OF assms(3,4)] assms(4)
  by auto

lemma kinv_ancestor:
  assumes "kinv m M T" "m \<le> k" "T k i \<noteq> Absent" "i < 2 ^ (M - k)"
  shows "k + Suc d \<le> M \<Longrightarrow> T (k + Suc d) (i div 2 ^ Suc d) = Split"
proof (induction d)
  case 0
  then show ?case using kinvD(2) [OF assms(1,2), of i] assms(3,4) by simp
next
  case (Suc d)
  let ?j = "i div 2 ^ Suc d"
  have up: "T (k + Suc d) ?j = Split" using Suc by simp
  have "i < 2 ^ Suc d * 2 ^ (M - (k + Suc d))"
    using Suc.prems assms(4) pow_half [of k M] by (subst power_add [symmetric]) simp
  then have "?j < 2 ^ (M - (k + Suc d))" by (simp add: less_mult_imp_div_less mult.commute)
  then have "T (Suc (k + Suc d)) (?j div 2) = Split"
    using kinvD(2) [OF assms(1), of "k + Suc d" ?j] up Suc.prems assms(2) by simp
  then show ?case by (simp add: div_mult2_eq [symmetric] mult.commute)
qed

lemma leaves_disjoint_le:
  assumes "kinv m M T" "in_range m M k i" "in_range m M k' i'" "k \<le> k'"
    and "T k i \<in> {Free, Alloc}" "T k' i' \<in> {Free, Alloc}" "(k, i) \<noteq> (k', i')"
  shows "block k i \<inter> block k' i' = {}"
proof (rule ccontr)
  assume "block k i \<inter> block k' i' \<noteq> {}"
  then have anc: "i div 2 ^ (k' - k) = i'" using assms(4) by (rule block_inter [rotated])
  with assms(4,7) have "k < k'" by (cases "k = k'") auto
  then obtain d where d: "k' = k + Suc d" by (auto dest: less_imp_Suc_add)
  have "T k' i' = Split"
    using kinv_ancestor [OF assms(1), of k i d] assms(2,3,5) anc d by (auto simp: in_range_def)
  with assms(6) show False by simp
qed

lemma leaves_disjoint:
  assumes "kinv m M T" "in_range m M k i" "in_range m M k' i'"
    and "T k i \<in> {Free, Alloc}" "T k' i' \<in> {Free, Alloc}" "(k, i) \<noteq> (k', i')"
  shows "block k i \<inter> block k' i' = {}"
  using leaves_disjoint_le [OF assms(1-3)] leaves_disjoint_le [OF assms(1,3,2)] assms(4-6)
  by (cases "k \<le> k'") auto

lemma leaf_exists_below:
  assumes inv: "kinv m M T"
  shows "in_range m M k i \<Longrightarrow> T k i \<noteq> Absent \<Longrightarrow> x \<in> block k i \<Longrightarrow>
    \<exists>k' i'. k' \<le> k \<and> in_range m M k' i' \<and> T k' i' \<in> {Free, Alloc} \<and> x \<in> block k' i'"
proof (induction k arbitrary: i)
  case 0
  then have "T 0 i \<noteq> Split" using kinvD(3) [OF inv] by (auto simp: in_range_def)
  with 0 show ?case by (intro exI [of _ 0] exI [of _ i]) (cases "T 0 i", auto)
next
  case (Suc k)
  show ?case
  proof (cases "T (Suc k) i = Split")
    case False
    with Suc.prems show ?thesis by (intro exI [of _ "Suc k"] exI [of _ i]) (cases "T (Suc k) i", auto)
  next
    case True
    then have mk: "m \<le> k" "k < M" "i < 2 ^ (M - Suc k)"
      using Suc.prems(1) kinvD(3) [OF inv, of i] by (auto simp: in_range_def le_Suc_eq)
    have ch: "T k (2 * i) \<noteq> Absent" "T k (Suc (2 * i)) \<noteq> Absent"
      "in_range m M k (2 * i)" "in_range m M k (Suc (2 * i))"
      using kinv_children [OF inv mk] True mk child_range [OF mk(2,3)] by (auto simp: in_range_def)
    from Suc.prems(3) consider "x \<in> block k (2 * i)" | "x \<in> block k (Suc (2 * i))"
      by (auto simp: block_halves)
    then show ?thesis
      using Suc.IH [OF ch(3,1)] Suc.IH [OF ch(4,2)] by cases (meson le_SucI)+
  qed
qed

text \<open>Every offset of the region lies in a block that is free or allocated.\<close>

lemma leaf_exists:
  assumes "kinv m M T" "m \<le> M" "x < 2 ^ M"
  shows "\<exists>k i. in_range m M k i \<and> T k i \<in> {Free, Alloc} \<and> x \<in> block k i"
  using leaf_exists_below [OF assms(1), of M 0 x] kinvD(1) [OF assms(1)] assms(2,3)
  by (auto simp: in_range_def block_def)

subsection \<open>Preservation of the invariant\<close>

lemma kinvI:
  assumes "T M 0 \<noteq> Absent"
    and "\<And>k i. m \<le> k \<Longrightarrow> k < M \<Longrightarrow> i < 2 ^ (M - k) \<Longrightarrow> T k i \<noteq> Absent \<longleftrightarrow> T (Suc k) (i div 2) = Split"
    and "\<And>i. i < 2 ^ (M - m) \<Longrightarrow> T m i \<noteq> Split"
  shows "kinv m M T"
  using assms by (auto simp: kinv_def)

lemma kinv_mark:
  assumes "kinv m M T" "in_range m M k i" "T k i \<in> {Free, Alloc}" "v \<in> {Free, Alloc}"
  shows "kinv m M (upd T k i v)"
proof (rule kinvI)
  fix k' i' :: nat assume "m \<le> k'" "k' < M" "i' < 2 ^ (M - k')"
  from kinvD(2) [OF assms(1) this] assms(3,4)
  show "upd T k i v k' i' \<noteq> Absent \<longleftrightarrow> upd T k i v (Suc k') (i' div 2) = Split" by auto
qed (use kinvD(1,3) [OF assms(1)] assms(4) in auto)

lemma kinv_split:
  assumes inv: "kinv m M T" and "m \<le> k" "k < M" "j < 2 ^ (M - Suc k)" "T (Suc k) j = Free"
  shows "kinv m M (split_node T (Suc k) j)"
proof (rule kinvI)
  have ch: "T k (2 * j) = Absent" "T k (Suc (2 * j)) = Absent"
    using kinv_children [OF inv assms(2-4)] assms(5) by auto
  fix k' i' :: nat assume "m \<le> k'" "k' < M" "i' < 2 ^ (M - k')"
  from kinvD(2) [OF inv this] ch assms(5)
  show "split_node T (Suc k) j k' i' \<noteq> Absent \<longleftrightarrow> split_node T (Suc k) j (Suc k') (i' div 2) = Split"
    by (auto simp: split_node_def div2_iff)
qed (use kinvD(1,3) [OF inv] assms(2,3) in \<open>auto simp: split_node_def\<close>)

lemma kinv_merge:
  assumes inv: "kinv m M T" and "m \<le> k" "k < M" "i < 2 ^ (M - k)" "T k i = Free" "T k (sib i) = Free"
  shows "kinv m M (merge_node T k i)"
proof (rule kinvI)
  have par: "T (Suc k) (i div 2) = Split" using kinvD(2) [OF assms(1-4)] assms(5) by simp
  have sb: "\<And>i'. i' div 2 = i div 2 \<longleftrightarrow> i' = i \<or> i' = sib i" by (auto simp: sib_def) presburger+
  fix k' i' :: nat assume "m \<le> k'" "k' < M" "i' < 2 ^ (M - k')"
  from kinvD(2) [OF inv this] par sb [of i'] assms(5,6)
  show "merge_node T k i k' i' \<noteq> Absent \<longleftrightarrow> merge_node T k i (Suc k') (i' div 2) = Split"
    by (auto simp: merge_node_def)
qed (use kinvD(1,3) [OF inv] assms(2,3) in \<open>auto simp: merge_node_def\<close>)

subsection \<open>The allocated blocks and the free buddy pairs\<close>

lemma alloc_set_mark:
  assumes "in_range m M k i"
  shows "alloc_set m M (upd T k i Alloc) = insert (k, i) (alloc_set m M T)"
    and "v \<noteq> Alloc \<Longrightarrow> alloc_set m M (upd T k i v) = alloc_set m M T - {(k, i)}"
  using assms by (auto simp: alloc_set_def)

lemma alloc_set_split:
  assumes "kinv m M T" "m \<le> k" "k < M" "j < 2 ^ (M - Suc k)" "T (Suc k) j = Free"
  shows "alloc_set m M (split_node T (Suc k) j) = alloc_set m M T"
proof -
  have "T k (2 * j) = Absent" "T k (Suc (2 * j)) = Absent"
    using kinv_children [OF assms(1-4)] assms(5) by auto
  with assms(5) show ?thesis by (auto simp: alloc_set_def split_node_def)
qed

lemma alloc_set_merge:
  assumes "kinv m M T" "m \<le> k" "k < M" "i < 2 ^ (M - k)" "T k i = Free" "T k (sib i) = Free"
  shows "alloc_set m M (merge_node T k i) = alloc_set m M T"
proof -
  have "T (Suc k) (i div 2) = Split" using kinvD(2) [OF assms(1-4)] assms(5) by simp
  with assms(5,6) show ?thesis by (auto simp: alloc_set_def merge_node_def)
qed

lemma coal_imp_but: "coal m M T \<Longrightarrow> coal_but m M T t j"
  by (auto simp: coal_def coal_but_def)

lemma coal_butD:
  "coal_but m M T t j \<Longrightarrow> m \<le> k \<Longrightarrow> k < M \<Longrightarrow> i < 2 ^ (M - k) \<Longrightarrow> T k i = Free \<Longrightarrow> T k (sib i) = Free
    \<Longrightarrow> k = t \<and> (i = j \<or> i = sib j)"
  by (auto simp: coal_but_def)

lemma coal_but_split:
  assumes "coal_but m M T (Suc k) j"
  shows "coal_but m M (split_node T (Suc k) j) k (2 * j)"
  unfolding coal_but_def
proof (intro allI impI)
  let ?T = "split_node T (Suc k) j"
  fix k' i' assume h: "m \<le> k' \<and> k' < M \<and> i' < 2 ^ (M - k') \<and> ?T k' i' = Free \<and> ?T k' (sib i') = Free"
  show "k' = k \<and> (i' = 2 * j \<or> i' = sib (2 * j))"
  proof (rule ccontr)
    assume ne: "\<not> ?thesis"
    then have "\<not> (k' = k \<and> (sib i' = 2 * j \<or> sib i' = Suc (2 * j)))"
      by (auto simp: sib_eq_iff)
    with h ne have "T k' i' = Free" "T k' (sib i') = Free" "\<not> (k' = Suc k \<and> (i' = j \<or> sib i' = j))"
      by (auto simp: split_node_def split: if_splits)
    with coal_butD [OF assms, of k' i'] h show False by (auto simp: sib_eq_iff)
  qed
qed

lemma coal_but_merge:
  assumes "coal_but m M T k i"
  shows "coal_but m M (merge_node T k i) (Suc k) (i div 2)"
  unfolding coal_but_def
proof (intro allI impI)
  let ?T = "merge_node T k i"
  fix k' i' assume h: "m \<le> k' \<and> k' < M \<and> i' < 2 ^ (M - k') \<and> ?T k' i' = Free \<and> ?T k' (sib i') = Free"
  show "k' = Suc k \<and> (i' = i div 2 \<or> i' = sib (i div 2))"
  proof (rule ccontr)
    assume ne: "\<not> ?thesis"
    then have "\<not> (k' = Suc k \<and> (sib i' = i div 2))" by (auto simp: sib_eq_iff)
    with h ne have "T k' i' = Free" "T k' (sib i') = Free" "\<not> (k' = k \<and> (i' = i \<or> i' = sib i))"
      by (auto simp: merge_node_def split: if_splits)
    with coal_butD [OF assms, of k' i'] h show False by auto
  qed
qed

lemma coal_but_mark:
  assumes "coal_but m M T k i" "v \<noteq> Free"
  shows "coal m M (upd T k i v)"
  unfolding coal_def
proof (intro allI impI)
  fix k' i' :: nat assume h: "m \<le> k' \<and> k' < M \<and> i' < 2 ^ (M - k')"
  show "\<not> (upd T k i v k' i' = Free \<and> upd T k i v k' (sib i') = Free)"
    using coal_butD [OF assms(1), of k' i'] h assms(2) by (auto split: if_splits)
qed

lemma coal_but_free:
  assumes "coal m M T"
  shows "coal_but m M (upd T k i Free) k i"
  using assms unfolding coal_def coal_but_def by (auto simp: sib_eq_iff split: if_splits)

lemma coal_but_done:
  assumes "coal_but m M T k i" "\<not> (k < M \<and> T k (sib i) = Free)"
  shows "coal m M T"
  unfolding coal_def
proof (intro allI impI notI)
  fix k' i' assume h: "m \<le> k' \<and> k' < M \<and> i' < 2 ^ (M - k')" "T k' i' = Free \<and> T k' (sib i') = Free"
  then have "k' = k \<and> (i' = i \<or> i' = sib i)" using coal_butD [OF assms(1), of k' i'] by blast
  with h assms(2) show False by auto
qed

subsection \<open>Carving a block and merging it back\<close>

lemma carve_0: "carve T k 0 j = upd T k j Alloc"
  by (rule carve.simps(1))

lemma carve_main:
  assumes "kinv m M T" "m \<le> k" "k + d \<le> M" "j < 2 ^ (M - (k + d))" "T (k + d) j = Free"
  shows "kinv m M (carve T k d j)
    \<and> alloc_set m M (carve T k d j) = insert (k, j * 2 ^ d) (alloc_set m M T)
    \<and> (coal_but m M T (k + d) j \<longrightarrow> coal m M (carve T k d j))
    \<and> in_range m M k (j * 2 ^ d) \<and> carve T k d j k (j * 2 ^ d) = Alloc"
  using assms
proof (induction d arbitrary: T j)
  case 0
  then have "in_range m M k j" by (simp add: in_range_def)
  moreover have "upd T k j Alloc k j = Alloc" by simp
  ultimately show ?case
    using 0 kinv_mark [of m M T k j Alloc] alloc_set_mark(1) [of m M k j T] coal_but_mark [of m M T k j Alloc]
    by (simp add: carve_0 del: upd_apply)
next
  case (Suc d)
  let ?T = "split_node T (Suc (k + d)) j"
  have h: "m \<le> k + d" "k + d < M" "j < 2 ^ (M - Suc (k + d))" "T (Suc (k + d)) j = Free"
    using Suc.prems by auto
  have fr: "?T (k + d) (2 * j) = Free" by (simp add: split_node_def)
  have p: "2 * j * 2 ^ d = j * 2 ^ Suc d" by simp
  have "2 * j < 2 ^ (M - (k + d))" using child_range [OF h(2,3)] by blast
  from Suc.IH [OF kinv_split [OF Suc.prems(1) h] Suc.prems(2) less_imp_le [OF h(2)] this fr]
  show ?case
    using alloc_set_split [OF Suc.prems(1) h] coal_but_split [of m M T "k + d" j]
    unfolding p carve.simps add_Suc_right by simp
qed

lemmas carve_kinv = carve_main [THEN conjunct1]
lemmas carve_alloc_set = carve_main [THEN conjunct2, THEN conjunct1]
lemmas carve_coal = carve_main [THEN conjunct2, THEN conjunct2, THEN conjunct1, rule_format]
lemmas carve_in_range = carve_main [THEN conjunct2, THEN conjunct2, THEN conjunct2, THEN conjunct1]
lemmas carve_Alloc = carve_main [THEN conjunct2, THEN conjunct2, THEN conjunct2, THEN conjunct2]

lemma merge_up_main:
  assumes "kinv m M T" "in_range m M k i" "T k i = Free"
  shows "kinv m M (merge_up M T k i) \<and> alloc_set m M (merge_up M T k i) = alloc_set m M T
    \<and> (coal_but m M T k i \<longrightarrow> coal m M (merge_up M T k i))"
  using assms
proof (induction M T k i rule: merge_up.induct)
  case (1 M T k i)
  show ?case
  proof (cases "k < M \<and> T k (sib i) = Free")
    case True
    have "kinv m M (merge_node T k i)" "in_range m M (Suc k) (i div 2)"
      "merge_node T k i (Suc k) (i div 2) = Free" "alloc_set m M (merge_node T k i) = alloc_set m M T"
      using 1(2-4) True kinv_merge [of m M T k i] alloc_set_merge [of m M T k i] div2_range [of k M i]
      by (auto simp: in_range_def merge_node_def)
    with 1(1) True coal_but_merge [of m M T k i] show ?thesis
      unfolding merge_up.simps [of M T k i] if_P [OF True] by simp
  next
    case False
    with 1(2) coal_but_done [of m M T k i] show ?thesis
      unfolding merge_up.simps [of M T k i] if_not_P [OF False] by blast
  qed
qed

lemmas merge_up_kinv = merge_up_main [THEN conjunct1]
lemmas merge_up_alloc_set = merge_up_main [THEN conjunct2, THEN conjunct1]
lemmas merge_up_coal = merge_up_main [THEN conjunct2, THEN conjunct2, rule_format]

lemma coal_merge_up_id: "coal m M T \<Longrightarrow> in_range m M k i \<Longrightarrow> T k i = Free \<Longrightarrow> merge_up M T k i = T"
  by (subst merge_up.simps) (auto simp: coal_def in_range_def)

lemma merge_split_id:
  assumes "kinv m M T" "m \<le> k" "k < M" "j < 2 ^ (M - Suc k)" "T (Suc k) j = Free"
  shows "merge_node (split_node T (Suc k) j) k (2 * j) = T"
proof (rule bstate_eqI)
  have "T k (2 * j) = Absent" "T k (Suc (2 * j)) = Absent"
    using kinv_children [OF assms(1-4)] assms(5) by auto
  with assms(5) show "merge_node (split_node T (Suc k) j) k (2 * j) k' i' = T k' i'" for k' i'
    by (auto simp: merge_node_def split_node_def)
qed

lemma upd_upd [simp]: "upd (upd T k i v) k i w = upd T k i w"
  by (rule bstate_eqI) simp

lemma upd_same: "T k i = v \<Longrightarrow> upd T k i v = T"
  by (rule bstate_eqI) auto

text \<open>Freeing the block that was just carved merges every half that the carving split off.\<close>

lemma merge_up_carve:
  assumes "kinv m M T" "m \<le> k" "k + d \<le> M" "j < 2 ^ (M - (k + d))" "T (k + d) j = Free"
  shows "merge_up M (upd (carve T k d j) k (j * 2 ^ d) Free) k (j * 2 ^ d) = merge_up M T (k + d) j"
  using assms
proof (induction d arbitrary: T j)
  case 0
  then show ?case by (simp add: carve_0 upd_same del: upd_apply)
next
  case (Suc d)
  let ?T = "split_node T (Suc (k + d)) j"
  have h: "m \<le> k + d" "k + d < M" "j < 2 ^ (M - Suc (k + d))" "T (Suc (k + d)) j = Free"
    using Suc.prems by auto
  have fr: "?T (k + d) (2 * j) = Free" and sfr: "k + d < M \<and> ?T (k + d) (sib (2 * j)) = Free"
    using h(2) by (simp_all add: split_node_def)
  have p: "2 * j * 2 ^ d = j * 2 ^ Suc d" by simp
  have "2 * j < 2 ^ (M - (k + d))" using child_range [OF h(2,3)] by blast
  from Suc.IH [OF kinv_split [OF Suc.prems(1) h] Suc.prems(2) less_imp_le [OF h(2)] this fr]
  have "merge_up M (upd (carve T k (Suc d) j) k (j * 2 ^ Suc d) Free) k (j * 2 ^ Suc d)
      = merge_up M ?T (k + d) (2 * j)"
    unfolding p carve.simps add_Suc_right .
  also have "\<dots> = merge_up M T (Suc (k + d)) j"
    unfolding merge_up.simps [of M ?T "k + d" "2 * j"] if_P [OF sfr] merge_split_id [OF Suc.prems(1) h] by simp
  finally show ?case unfolding add_Suc_right .
qed

text \<open>Without free buddy pairs, a block that is neither absent nor free contains an allocated one.\<close>

lemma alloc_below:
  assumes inv: "kinv m M T" and co: "coal m M T"
  shows "in_range m M k i \<Longrightarrow> T k i \<in> {Split, Alloc}
    \<Longrightarrow> \<exists>k' i'. in_range m M k' i' \<and> T k' i' = Alloc \<and> block k' i' \<subseteq> block k i"
proof (induction k arbitrary: i)
  case 0
  then have "T 0 i \<noteq> Split" using kinvD(3) [OF inv, of i] by (auto simp: in_range_def)
  with 0 show ?case by blast
next
  case (Suc k)
  show ?case
  proof (cases "T (Suc k) i = Alloc")
    case False
    with Suc.prems have sp: "T (Suc k) i = Split" by simp
    then have mk: "m \<le> k" "k < M" "i < 2 ^ (M - Suc k)"
      using Suc.prems(1) kinvD(3) [OF inv, of i] by (auto simp: in_range_def le_Suc_eq)
    have r: "in_range m M k (2 * i)" "in_range m M k (Suc (2 * i))"
      using mk child_range [OF mk(2,3)] by (auto simp: in_range_def)
    have ne: "T k (2 * i) \<noteq> Absent" "T k (Suc (2 * i)) \<noteq> Absent" using kinv_children [OF inv mk] sp by auto
    have "\<not> (T k (2 * i) = Free \<and> T k (sib (2 * i)) = Free)" using co r(1) mk unfolding coal_def in_range_def by blast
    then have "T k (2 * i) \<in> {Split, Alloc} \<or> T k (Suc (2 * i)) \<in> {Split, Alloc}"
      using ne by (cases "T k (2 * i)"; cases "T k (Suc (2 * i))") auto
    then show ?thesis using Suc.IH [OF r(1)] Suc.IH [OF r(2)] unfolding block_halves by blast
  qed (use Suc.prems in blast)
qed

text \<open>With no allocated block and no free buddy pair the whole region is one free block.\<close>

lemma all_free_root:
  assumes "kinv m M T" "m \<le> M" "coal m M T" "alloc_set m M T = {}"
  shows "T M 0 = Free"
proof -
  have "T M 0 \<notin> {Split, Alloc}"
    using alloc_below [OF assms(1,3), of M 0] assms(2,4) by (auto simp: in_range_def alloc_set_def)
  with kinvD(1) [OF assms(1)] show ?thesis by (cases "T M 0") auto
qed

end
