(* ===== verification/Block_Allocator.thy ===== *)
theory Block_Allocator
  imports Kernel_Prelude
begin

text \<open>
  What the kernel's memory clients rely on from a block allocator.  An allocator has states, a managed
  region of addresses and, in every state, a set of live blocks (address sets).  Allocation adds one
  new block, disjoint from the live ones and large enough; releasing an address of the region removes
  the live block it lies in.  \<open>alloc_run\<close> is any interleaving of such calls; its parameter \<open>K\<close> is a set
  of addresses that the run never releases.  The lemmas proved here hold of every allocator that
  obeys the contract.
\<close>

inductive alloc_run ::
  "('s \<Rightarrow> u64 \<Rightarrow> ('s \<times> addr) kres) \<Rightarrow> ('s \<Rightarrow> addr \<Rightarrow> 's kres) \<Rightarrow> nat set \<Rightarrow> nat set \<Rightarrow> 's \<Rightarrow> 's \<Rightarrow> bool"
  for al :: "'s \<Rightarrow> u64 \<Rightarrow> ('s \<times> addr) kres" and fr :: "'s \<Rightarrow> addr \<Rightarrow> 's kres" and region K :: "nat set" where
  run_refl: "alloc_run al fr region K s s"
| run_alloc: "alloc_run al fr region K s s1 \<Longrightarrow> al s1 n = Inr (s2, p) \<Longrightarrow> alloc_run al fr region K s s2"
| run_free: "alloc_run al fr region K s s1 \<Longrightarrow> unat p \<in> region \<Longrightarrow> unat p \<notin> K \<Longrightarrow> fr s1 p = Inr s2
    \<Longrightarrow> alloc_run al fr region K s s2"

inductive_cases alloc_runE: "alloc_run al fr region K s s'"

locale block_allocator =
  fixes inv :: "'s \<Rightarrow> bool" and live :: "'s \<Rightarrow> nat set set" and region :: "nat set"
    and al :: "'s \<Rightarrow> u64 \<Rightarrow> ('s \<times> addr) kres" and fr :: "'s \<Rightarrow> addr \<Rightarrow> 's kres"
  assumes live_region: "inv s \<Longrightarrow> B \<in> live s \<Longrightarrow> B \<subseteq> region"
    and live_disjoint: "inv s \<Longrightarrow> B \<in> live s \<Longrightarrow> B' \<in> live s \<Longrightarrow> B \<noteq> B' \<Longrightarrow> B \<inter> B' = {}"
    and alloc_law: "inv s \<Longrightarrow> al s n = Inr (s', p) \<Longrightarrow>
      inv s' \<and> (\<exists>B. B \<notin> live s \<and> live s' = insert B (live s) \<and> unat p \<in> B \<and> (\<forall>x\<in>B. unat p \<le> x)
                 \<and> finite B \<and> unat n \<le> card B)"
    and free_law: "inv s \<Longrightarrow> unat p \<in> region \<Longrightarrow> fr s p = Inr s' \<Longrightarrow>
      inv s' \<and> (\<exists>B. B \<in> live s \<and> unat p \<in> B \<and> live s' = live s - {B})"
begin

lemma run_inv: "alloc_run al fr region K s s' \<Longrightarrow> inv s \<Longrightarrow> inv s'"
  by (induction rule: alloc_run.induct) (use alloc_law free_law in blast)+

text \<open>A block stays live as long as no address of it is released.\<close>

lemma run_keeps:
  assumes "alloc_run al fr region K s s'" "inv s" "B \<in> live s" "B \<subseteq> K"
  shows "B \<in> live s'"
  using assms
proof (induction rule: alloc_run.induct)
  case (run_alloc s s1 n s2 p)
  then have "inv s1" using run_inv by blast
  with run_alloc alloc_law [of s1 n s2 p] show ?case by blast
next
  case (run_free s s1 p s2)
  then have "inv s1" using run_inv by blast
  with run_free free_law [of s1 p s2] show ?case by blast
qed

text \<open>No address of a block that is still held is ever handed out again.\<close>

lemma no_double_alloc:
  assumes "alloc_run al fr region K s s'" "inv s" "B \<in> live s" "B \<subseteq> K" "al s' n = Inr (s2, p)"
  shows "\<exists>B'. B' \<in> live s2 \<and> unat p \<in> B' \<and> unat n \<le> card B' \<and> B' \<subseteq> region \<and> B \<inter> B' = {}"
proof -
  have i: "inv s'" and B: "B \<in> live s'" using run_inv [OF assms(1,2)] run_keeps [OF assms(1-4)] .
  from alloc_law [OF i assms(5)] obtain B' where B': "inv s2" "B' \<notin> live s'" "live s2 = insert B' (live s')"
    "unat p \<in> B'" "unat n \<le> card B'" by blast
  moreover have "B \<inter> B' = {}" using live_disjoint [OF B'(1), of B B'] B B'(2,3) by blast
  ultimately show ?thesis using live_region [OF B'(1), of B'] by blast
qed

end

end
