(* ===== verification/Buddy_Refine.thy ===== *)
theory Buddy_Refine
  imports Buddy_Alloc Buddy_Tree Block_Allocator
begin

text \<open>
  The buddy allocator of src/kernel/mm/buddy.c refines the abstract buddy system of \<open>Buddy_Tree\<close>.

  \<open>slot_addr ref k i\<close> is where the header keeps the slot of order \<open>k\<close> at position \<open>i\<close>; the pointer
  arithmetic of the code is shown to walk between these addresses.  \<open>tree ref h\<close> reads the abstract
  state off a header \<open>h\<close>, \<open>slots_ok\<close> says that every slot carries the base address and the order of its
  place, and \<open>refines ref h h' T\<close> that an operation took \<open>h\<close> to \<open>h'\<close>, whose abstract state is \<open>T\<close>,
  touching nothing outside the slots.  Each operation of the code is then matched with the abstract one.
\<close>

unbundle bit_operations_syntax

abbreviation mx :: "buddy_ref_t \<Rightarrow> nat" where "mx ref \<equiv> unat (max_pow_order ref)"

abbreviation mn :: "buddy_ref_t \<Rightarrow> nat" where "mn ref \<equiv> unat (min_pow_order ref)"

abbreviation cbase :: "buddy_ref_t \<Rightarrow> u64" where "cbase ref \<equiv> rg_base (content_mem_reg ref)"

abbreviation hbase :: "buddy_ref_t \<Rightarrow> u64" where "hbase ref \<equiv> rg_base (header_mem_reg ref)"

text \<open>The descriptor of a region whose header and content lie in the 64-bit address space.\<close>

definition ref_ok :: "buddy_ref_t \<Rightarrow> bool" where
  "ref_ok ref \<longleftrightarrow>
     1 \<le> mn ref \<and> mn ref \<le> mx ref \<and> mx ref < 64 \<and> 0 < unat (hbase ref)
     \<and> unat (hbase ref) + 16 * 2 ^ (mx ref - mn ref + 1) \<le> 2 ^ 64
     \<and> unat (cbase ref) + 2 ^ mx ref \<le> 2 ^ 64
     \<and> unat (rg_length (content_mem_reg ref)) = 2 ^ mx ref"

definition slot_num :: "buddy_ref_t \<Rightarrow> nat \<Rightarrow> nat \<Rightarrow> nat" where
  "slot_num ref k i = 2 ^ (mx ref - mn ref + 1) - 2 ^ (mx ref - k + 1) + i"

definition slot_addr :: "buddy_ref_t \<Rightarrow> nat \<Rightarrow> nat \<Rightarrow> addr" where
  "slot_addr ref k i = hbase ref + of_nat (16 * slot_num ref k i)"

abbreviation rng :: "buddy_ref_t \<Rightarrow> nat \<Rightarrow> nat \<Rightarrow> bool" where
  "rng ref \<equiv> in_range (mn ref) (mx ref)"

definition block_base :: "buddy_ref_t \<Rightarrow> nat \<Rightarrow> nat \<Rightarrow> addr" where
  "block_base ref k i = cbase ref + of_nat (i * 2 ^ k)"

fun slot_of :: "buddy_ref_t \<Rightarrow> nat \<Rightarrow> nat \<Rightarrow> bkind \<Rightarrow> buddy_slot_t" where
  "slot_of ref k i Absent = zero_slot"
| "slot_of ref k i Free = \<lparr>slot_base = block_base ref k i, slot_order = of_nat k, slot_type = UNUSED\<rparr>"
| "slot_of ref k i Split = \<lparr>slot_base = block_base ref k i, slot_order = of_nat k, slot_type = SPLIT\<rparr>"
| "slot_of ref k i Alloc = \<lparr>slot_base = block_base ref k i, slot_order = of_nat k, slot_type = USED\<rparr>"

definition slot_kind :: "buddy_slot_t \<Rightarrow> bkind" where
  "slot_kind s = (if is_entry_empty s then Absent
                  else case slot_type s of UNUSED \<Rightarrow> Free | SPLIT \<Rightarrow> Split | USED \<Rightarrow> Alloc)"

definition tree :: "buddy_ref_t \<Rightarrow> hdr \<Rightarrow> bstate" where
  "tree ref h = (\<lambda>k i. if rng ref k i then slot_kind (h (slot_addr ref k i)) else Absent)"

definition slots_ok :: "buddy_ref_t \<Rightarrow> hdr \<Rightarrow> bool" where
  "slots_ok ref h \<longleftrightarrow> (\<forall>k i. rng ref k i \<longrightarrow> h (slot_addr ref k i) = slot_of ref k i (tree ref h k i))"

definition slot_frame :: "buddy_ref_t \<Rightarrow> hdr \<Rightarrow> hdr \<Rightarrow> bool" where
  "slot_frame ref h h' \<longleftrightarrow> (\<forall>a. (\<forall>k i. rng ref k i \<longrightarrow> a \<noteq> slot_addr ref k i) \<longrightarrow> h' a = h a)"

definition refines :: "buddy_ref_t \<Rightarrow> hdr \<Rightarrow> hdr \<Rightarrow> bstate \<Rightarrow> bool" where
  "refines ref h h' T \<longleftrightarrow> slots_ok ref h' \<and> tree ref h' = T \<and> slot_frame ref h h'"

text \<open>The invariant of the header, and the set of allocated blocks it describes.\<close>

definition buddy_inv :: "buddy_ref_t \<Rightarrow> hdr \<Rightarrow> bool" where
  "buddy_inv ref h \<longleftrightarrow> ref_ok ref \<and> slots_ok ref h \<and> kinv (mn ref) (mx ref) (tree ref h)"

definition coalesced :: "buddy_ref_t \<Rightarrow> hdr \<Rightarrow> bool" where
  "coalesced ref h \<longleftrightarrow> coal (mn ref) (mx ref) (tree ref h)"

definition used_blocks :: "buddy_ref_t \<Rightarrow> hdr \<Rightarrow> (nat \<times> nat) set" where
  "used_blocks ref h = alloc_set (mn ref) (mx ref) (tree ref h)"

subsection \<open>Slot addresses\<close>

lemma ref_okD:
  assumes "ref_ok ref"
  shows "1 \<le> mn ref" "mn ref \<le> mx ref" "mx ref < 64" "0 < unat (hbase ref)"
    "unat (hbase ref) + 16 * 2 ^ (mx ref - mn ref + 1) \<le> 2 ^ 64"
    "unat (cbase ref) + 2 ^ mx ref \<le> 2 ^ 64"
    "unat (rg_length (content_mem_reg ref)) = 2 ^ mx ref"
  using assms by (auto simp: ref_ok_def)

lemma two_pow_of_nat: "(2::'a::len word) ^ n = of_nat (2 ^ n)"
  by simp

lemma slot_num_le:
  assumes "rng ref k i"
  shows "2 ^ (mx ref - k + 1) \<le> (2::nat) ^ (mx ref - mn ref + 1)"
  using assms by (intro power_increasing) (auto simp: in_range_def)

lemma slot_num_less:
  assumes "rng ref k i"
  shows "slot_num ref k i + 2 ^ (mx ref - k) < 2 ^ (mx ref - mn ref + 1)"
proof -
  define p q where "p = (2::nat) ^ (mx ref - mn ref + 1)" and "q = (2::nat) ^ (mx ref - k)"
  have "2 * q \<le> p" "i < q" using slot_num_le [OF assms] assms by (auto simp: p_def q_def in_range_def)
  then have "p - 2 * q + i + q < p" by arith
  then show ?thesis by (simp add: slot_num_def p_def q_def)
qed

lemma unat_slot_addr:
  assumes "ref_ok ref" "rng ref k i"
  shows "unat (slot_addr ref k i) = unat (hbase ref) + 16 * slot_num ref k i"
proof -
  have "unat (hbase ref) + 16 * slot_num ref k i < 2 ^ 64"
    using slot_num_less [OF assms(2)] ref_okD(5) [OF assms(1)] by linarith
  then show ?thesis unfolding slot_addr_def by (simp add: word_nat)
qed

lemma slot_num_inj_less:
  assumes "rng ref k i" "rng ref k' i'" "k < k'"
  shows "slot_num ref k i < slot_num ref k' i'"
proof -
  define p q r where "p = (2::nat) ^ (mx ref - mn ref + 1)" and "q = (2::nat) ^ (mx ref - k)"
    and "r = (2::nat) ^ (mx ref - k' + 1)"
  have "2 ^ (mx ref - k' + 1) \<le> (2::nat) ^ (mx ref - k)"
    using assms by (intro power_increasing) (auto simp: in_range_def)
  then have "r \<le> q" "2 * q \<le> p" "i < q"
    using slot_num_le [OF assms(1)] assms(1) by (auto simp: p_def q_def r_def in_range_def)
  then have "p - 2 * q + i < p - r + i'" by arith
  then show ?thesis by (simp add: slot_num_def p_def q_def r_def)
qed

lemma slot_addr_inj:
  assumes "ref_ok ref" "rng ref k i" "rng ref k' i'"
  shows "slot_addr ref k i = slot_addr ref k' i' \<longleftrightarrow> k = k' \<and> i = i'"
proof
  assume "slot_addr ref k i = slot_addr ref k' i'"
  then have "slot_num ref k i = slot_num ref k' i'"
    using unat_slot_addr [OF assms(1,2)] unat_slot_addr [OF assms(1,3)] by simp
  then show "k = k' \<and> i = i'"
    using slot_num_inj_less [OF assms(2,3)] slot_num_inj_less [OF assms(3,2)]
    by (cases k k' rule: linorder_cases) (auto simp: slot_num_def)
qed auto

lemma slot_addr_not_NULL: "ref_ok ref \<Longrightarrow> rng ref k i \<Longrightarrow> slot_addr ref k i \<noteq> NULL"
  using unat_slot_addr [of ref k i] ref_okD(4) [of ref] by (metis add_is_0 less_numeral_extra(3) unat_0)

subsection \<open>Pointer arithmetic\<close>

lemma ucast_u8_of_nat: "k < 256 \<Longrightarrow> ucast (of_nat k :: u8) = (of_nat k :: u64)"
  by (rule word_unat_eq_iff [THEN iffD2]) (simp add: unsigned_ucast_eq word_nat take_bit_nat_eq_self)

lemma max_of_nat: "max_pow_order ref = of_nat (mx ref)" and min_of_nat: "min_pow_order ref = of_nat (mn ref)"
  by simp_all

lemma upow2: "n < 64 \<Longrightarrow> upow 2 (of_nat n) = of_nat (2 ^ n)"
  by (simp add: upow_def upow_loop_eq word_nat)

lemma goto_porder_idx_eq:
  assumes "ref_ok ref" "mn ref \<le> k" "k \<le> mx ref"
  shows "goto_porder_idx ref (of_nat k) = slot_addr ref k 0"
proof -
  have e1: "ucast (max_pow_order ref) - (ucast (min_pow_order ref) - 1) = (of_nat (mx ref - mn ref + 1) :: u64)"
    using ref_okD(2) [OF assms(1)] by (simp add: of_nat_diff)
  have e2: "ucast (max_pow_order ref) - ucast (of_nat k :: u8) + 1 = (of_nat (mx ref - k + 1) :: u64)"
    using assms(3) ref_okD(3) [OF assms(1)] by (simp add: ucast_u8_of_nat of_nat_diff)
  have lt: "mx ref - mn ref + 1 < 64" "mx ref - k + 1 < 64"
    using ref_okD [OF assms(1)] assms by linarith+
  have "rng ref k 0" using assms by (simp add: in_range_def)
  note le = slot_num_le [OF this]
  have "goto_porder_idx ref (of_nat k)
      = hbase ref + (of_nat (2 ^ (mx ref - mn ref + 1)) - of_nat (2 ^ (mx ref - k + 1))) * 16"
    unfolding goto_porder_idx_def Let_def e1 e2 upow2 [OF lt(1)] upow2 [OF lt(2)] sizeof_buddy_slot_def ..
  also have "\<dots> = hbase ref + of_nat (slot_num ref k 0) * 16"
    unfolding slot_num_def add_0_right of_nat_diff [OF le] ..
  finally show ?thesis by (simp add: slot_addr_def mult.commute)
qed

lemma slot_addr_add: "slot_addr ref k i + of_nat j * sizeof_buddy_slot = slot_addr ref k (i + j)"
  by (simp add: slot_addr_def slot_num_def sizeof_buddy_slot_def algebra_simps)

lemma slot_addr_Suc: "slot_addr ref k i + sizeof_buddy_slot = slot_addr ref k (Suc i)"
  using slot_addr_add [of ref k i 1] by simp

lemma slot_addr_pred: "0 < i \<Longrightarrow> slot_addr ref k i - sizeof_buddy_slot = slot_addr ref k (i - 1)"
  using slot_addr_add [of ref k "i - 1" 1] by (simp add: diff_eq_eq)

lemma rngD:
  assumes "ref_ok ref" "rng ref k i"
  shows "mn ref \<le> k" "k \<le> mx ref" "i < 2 ^ (mx ref - k)" "k < 64" "1 \<le> k" "16 * i < 2 ^ 64"
proof -
  show "mn ref \<le> k" "k \<le> mx ref" "i < 2 ^ (mx ref - k)" using assms(2) by (auto simp: in_range_def)
  then show "k < 64" "1 \<le> k" using ref_okD(1,3) [OF assms(1)] by linarith+
  have "16 * i \<le> 16 * slot_num ref k i" by (simp add: slot_num_def)
  then show "16 * i < 2 ^ 64"
    using slot_num_less [OF assms(2)] ref_okD(5) [OF assms(1)] by linarith
qed

lemma arr_pos_eq:
  assumes "ref_ok ref" "rng ref k i" "slot_order (h (slot_addr ref k i)) = of_nat k"
  shows "arr_pos ref h (slot_addr ref k i) = of_nat i"
proof -
  note r = rngD [OF assms(1,2)]
  have "slot_addr ref k i - slot_addr ref k 0 = of_nat (16 * i)"
    using slot_addr_add [of ref k 0 i] by (simp add: sizeof_buddy_slot_def algebra_simps)
  then have "arr_pos ref h (slot_addr ref k i) = of_nat (16 * i) div 16"
    using goto_porder_idx_eq [OF assms(1) r(1,2)] assms(3) by (simp add: arr_pos_def sizeof_buddy_slot_def)
  also have "\<dots> = of_nat i"
  proof (rule word_unat_eq_iff [THEN iffD2])
    show "unat (of_nat (16 * i) div 16 :: u64) = unat (of_nat i :: u64)"
      unfolding unat_div_distrib using r(6) by (simp add: word_nat del: of_nat_mult)
  qed
  finally show ?thesis .
qed

lemma rng_up:
  assumes "rng ref k i" "k < mx ref"
  shows "rng ref (Suc k) (i div 2)" "rng ref k (sib i)"
  using assms div2_range [of k "mx ref" i] sib_range [of k "mx ref" i] by (auto simp: in_range_def)

lemma rng_down:
  assumes "rng ref (Suc k) i" "mn ref \<le> k"
  shows "rng ref k (2 * i)" "rng ref k (Suc (2 * i))"
  using assms child_range [of k "mx ref" i] by (auto simp: in_range_def)

lemma goto_parent_eq:
  assumes ok: "ref_ok ref" and r: "rng ref k i" and ord: "slot_order (h (slot_addr ref k i)) = of_nat k"
    and "k < mx ref"
  shows "goto_parent ref h (slot_addr ref k i) = slot_addr ref (Suc k) (i div 2)"
proof -
  have "of_nat i div (2 :: u64) = of_nat (i div 2)"
    using rngD(6) [OF ok r] by (intro word_unat_eq_iff [THEN iffD2]) (simp add: unat_div_distrib word_nat)
  moreover have "goto_porder_idx ref (of_nat k + 1) = slot_addr ref (Suc k) 0"
    using goto_porder_idx_eq [OF ok, of "Suc k"] rngD(1) [OF ok r] assms(4) by (simp add: add.commute)
  ultimately show ?thesis
    using slot_addr_add [of ref "Suc k" 0 "i div 2"] arr_pos_eq [where h = h, OF ok r ord] ord
    by (simp add: goto_parent_def)
qed

lemma goto_sibling_eq:
  assumes ok: "ref_ok ref" and r: "rng ref k i" and ord: "slot_order (h (slot_addr ref k i)) = of_nat k"
  shows "goto_sibling ref h (slot_addr ref k i) = slot_addr ref k (sib i)"
proof -
  have "of_nat i mod (2 :: u64) = 0 \<longleftrightarrow> even i"
    using rngD(6) [OF ok r] by (simp add: word_unat_eq_iff unat_mod_distrib word_nat even_iff_mod_2_eq_zero)
  then show ?thesis
    by (auto simp: goto_sibling_def arr_pos_eq [where h = h, OF ok r ord] sib_def slot_addr_Suc slot_addr_pred
        elim: oddE)
qed

lemma goto_children_eq:
  assumes "ref_ok ref" "rng ref (Suc k) i" "mn ref \<le> k" "slot_order (h (slot_addr ref (Suc k) i)) = of_nat (Suc k)"
  shows "goto_left_child ref h (slot_addr ref (Suc k) i) = slot_addr ref k (2 * i)"
    and "goto_right_child ref h (slot_addr ref (Suc k) i) = slot_addr ref k (Suc (2 * i))"
proof -
  have "goto_porder_idx ref (of_nat k) = slot_addr ref k 0"
    using goto_porder_idx_eq [OF assms(1,3)] rngD(2) [OF assms(1,2)] by simp
  then show l: "goto_left_child ref h (slot_addr ref (Suc k) i) = slot_addr ref k (2 * i)"
    using slot_addr_add [of ref k 0 "2 * i"] assms(4)
    by (simp add: goto_left_child_def arr_pos_eq [where h = h, OF assms(1,2,4)] mult.commute)
  then show "goto_right_child ref h (slot_addr ref (Suc k) i) = slot_addr ref k (Suc (2 * i))"
    using slot_addr_Suc [of ref k "2 * i"] by (simp add: goto_right_child_def goto_left_child_def)
qed

subsection \<open>Headers and abstract states\<close>

lemma slot_of_simps [simp]:
  "v \<noteq> Absent \<Longrightarrow> slot_base (slot_of ref k i v) = block_base ref k i"
  "v \<noteq> Absent \<Longrightarrow> slot_order (slot_of ref k i v) = of_nat k"
  by (cases v; simp)+

lemma slot_of_type:
  "slot_type (slot_of ref k i v) = (case v of Absent \<Rightarrow> UNUSED | Free \<Rightarrow> UNUSED | Split \<Rightarrow> SPLIT | Alloc \<Rightarrow> USED)"
  by (cases v) (simp_all add: zero_slot_def)

lemma slot_of_set_type [simp]:
  assumes "v \<noteq> Absent"
  shows "(slot_of ref k i v)\<lparr>slot_type := UNUSED\<rparr> = slot_of ref k i Free"
    "(slot_of ref k i v)\<lparr>slot_type := SPLIT\<rparr> = slot_of ref k i Split"
    "(slot_of ref k i v)\<lparr>slot_type := USED\<rparr> = slot_of ref k i Alloc"
  using assms by (cases v; simp)+

lemma of_nat_u8_eq_0: "1 \<le> k \<Longrightarrow> k < 64 \<Longrightarrow> (of_nat k :: u8) \<noteq> 0"
  by (simp add: word_unat_eq_iff word_nat)

lemma slot_kind_slot_of:
  assumes "1 \<le> k" "k < 64"
  shows "slot_kind (slot_of ref k i v) = v"
    and "is_entry_empty (slot_of ref k i v) \<longleftrightarrow> v = Absent"
  using of_nat_u8_eq_0 [OF assms] by (cases v; simp add: slot_kind_def is_entry_empty_def zero_slot_def)+

lemma refines_upd:
  assumes "ref_ok ref" "slots_ok ref h" "rng ref k i"
  shows "refines ref h (h(slot_addr ref k i := slot_of ref k i v)) (upd (tree ref h) k i v)"
proof -
  let ?h = "h(slot_addr ref k i := slot_of ref k i v)"
  have t: "tree ref ?h = upd (tree ref h) k i v"
  proof (rule bstate_eqI)
    show "tree ref ?h k' i' = upd (tree ref h) k i v k' i'" for k' i'
      using slot_addr_inj [OF assms(1) _ assms(3), of k' i'] assms(3)
        slot_kind_slot_of(1) [OF rngD(5,4) [OF assms(1,3)]] by (auto simp: tree_def)
  qed
  moreover have "slots_ok ref ?h"
    unfolding slots_ok_def t using assms(2) slot_addr_inj [OF assms(1) _ assms(3)] by (auto simp: slots_ok_def)
  moreover have "slot_frame ref h ?h" using assms(3) by (auto simp: slot_frame_def)
  ultimately show ?thesis by (simp add: refines_def)
qed

lemma refines_refl: "slots_ok ref h \<Longrightarrow> refines ref h h (tree ref h)"
  by (simp add: refines_def slot_frame_def)

lemma refines_trans: "refines ref h h' T \<Longrightarrow> refines ref h' h'' T' \<Longrightarrow> refines ref h h'' T'"
  by (auto simp: refines_def slot_frame_def)

lemma refines_unique:
  assumes "refines ref h h1 T" "refines ref h h2 T"
  shows "h1 = h2"
proof
  fix a
  show "h1 a = h2 a"
  proof (cases "\<exists>k i. rng ref k i \<and> a = slot_addr ref k i")
    case True
    with assms show ?thesis by (auto simp: refines_def slots_ok_def)
  next
    case False
    with assms show ?thesis by (auto simp: refines_def slot_frame_def)
  qed
qed

lemma refines_step:
  assumes "ref_ok ref" "refines ref h0 h T" "rng ref k i"
  shows "refines ref h0 (h(slot_addr ref k i := slot_of ref k i v)) (upd T k i v)"
proof -
  from assms(2) have "slots_ok ref h" and t: "tree ref h = T" by (auto simp: refines_def)
  from refines_upd [OF assms(1) this(1) assms(3)] show ?thesis
    unfolding t by (rule refines_trans [OF assms(2)])
qed

lemma slot_at:
  assumes "slots_ok ref h" "rng ref k i"
  shows "h (slot_addr ref k i) = slot_of ref k i (tree ref h k i)"
  using assms by (simp add: slots_ok_def)

subsection \<open>Splitting a slot\<close>

lemma ucast_order_pred:
  assumes "k < 63"
  shows "ucast (of_nat (Suc k) :: u8) - 1 = (of_nat k :: u64)"
proof -
  have lt: "Suc k < 256" using assms by simp
  show ?thesis unfolding ucast_u8_of_nat [OF lt] by simp
qed

lemma of_nat_u64_eq_0: "0 < n \<Longrightarrow> n < 2 ^ 64 \<Longrightarrow> (of_nat n :: u64) \<noteq> 0"
  by (simp add: word_unat_eq_iff word_nat)

lemma block_base_left: "block_base ref (Suc k) j = block_base ref k (2 * j)"
  by (simp add: block_base_def mult.left_commute)

lemma block_base_right: "block_base ref (Suc k) j + of_nat (2 ^ k) = block_base ref k (Suc (2 * j))"
  by (simp add: block_base_def algebra_simps)

lemma split_slot_refines:
  assumes "ref_ok ref" "slots_ok ref h" "rng ref (Suc k) j" "mn ref \<le> k" "tree ref h (Suc k) j = Free"
  shows "refines ref h (split_slot ref h (slot_addr ref (Suc k) j)) (split_node (tree ref h) (Suc k) j)"
proof -
  let ?p = "slot_addr ref (Suc k) j" and ?l = "slot_addr ref k (2 * j)" and ?r = "slot_addr ref k (Suc (2 * j))"
  let ?h1 = "h(?l := slot_of ref k (2 * j) Free)"
  let ?h2 = "?h1(?r := slot_of ref k (Suc (2 * j)) Free)"
  let ?h3 = "?h2(?p := slot_of ref (Suc k) j Split)"
  note c = rng_down [OF assms(3,4)]
  have lt: "k < 63" using rngD(4) [OF assms(1,3)] by simp
  have hp: "h ?p = slot_of ref (Suc k) j Free" using slot_at [OF assms(2,3)] assms(5) by simp
  have ne: "?p \<noteq> ?l" "?p \<noteq> ?r"
    using slot_addr_inj [OF assms(1,3) c(1)] slot_addr_inj [OF assms(1,3) c(2)] by auto
  have "block_base ref (Suc k) j \<noteq> block_base ref k (Suc (2 * j))"
    using of_nat_u64_eq_0 [of "2 ^ k"] lt unfolding block_base_right [symmetric] by simp
  then have nb: "slot_base (h ?p) \<noteq> block_base ref k (Suc (2 * j))" by (simp add: hp)
  have o: "slot_order (h ?p) = of_nat (Suc k)" by (simp add: hp)
  then have o1: "slot_order (h ?p) - 1 = of_nat k" by simp
  have b: "slot_base (h ?p) = block_base ref k (2 * j)" by (simp add: hp block_base_left)
  have u: "slot_base (h ?p) + upow 2 (ucast (slot_order (h ?p)) - 1) = block_base ref k (Suc (2 * j))"
    unfolding o ucast_order_pred [OF lt] using upow2 [of k] lt block_base_right [of ref k j] by (simp add: hp)
  have h1p: "?h1 ?p = h ?p" using ne by simp
  have "insert_child_slot ref h ?p (slot_of ref k (2 * j) Free) = ?h1"
    using goto_children_eq(1) [where h = h, OF assms(1,3,4) o] b by (simp add: insert_child_slot_def)
  moreover have "insert_child_slot ref ?h1 ?p (slot_of ref k (Suc (2 * j)) Free) = ?h2"
    using goto_children_eq(2) [where h = ?h1, OF assms(1,3,4)] h1p o nb
    unfolding insert_child_slot_def h1p by simp
  moreover have "?h2 ?p = slot_of ref (Suc k) j Free" using ne hp by simp
  ultimately have "split_slot ref h ?p = ?h3"
    unfolding split_slot_def u o1 by (simp add: b)
  moreover have "refines ref h ?h3
      (upd (upd (upd (tree ref h) k (2 * j) Free) k (Suc (2 * j)) Free) (Suc k) j Split)"
    by (intro refines_step refines_refl assms c)
  moreover have "upd (upd (upd (tree ref h) k (2 * j) Free) k (Suc (2 * j)) Free) (Suc k) j Split
      = split_node (tree ref h) (Suc k) j"
    by (rule bstate_eqI) (auto simp: split_node_def)
  ultimately show ?thesis by (simp only:)
qed

subsection \<open>The search for a free slot\<close>

lemma n_of_entries_eq:
  assumes "ref_ok ref" "mn ref \<le> k" "k \<le> mx ref"
  shows "unat (n_of_entries ref (of_nat k)) = 2 ^ (mx ref - k)"
proof -
  have "n_of_entries ref (of_nat k) = of_nat (2 ^ mx ref) div of_nat (2 ^ k)"
    using upow2 [of "mx ref"] upow2 [of k] ucast_u8_of_nat [of k] assms(3) ref_okD(3) [OF assms(1)]
    by (simp add: n_of_entries_def)
  then show ?thesis
    using assms(3) ref_okD(3) [OF assms(1)] by (simp add: unat_div_distrib word_nat power_diff)
qed

lemma free_slot_test:
  assumes "ref_ok ref" "slots_ok ref h" "rng ref k i"
  shows "\<not> is_entry_empty (h (slot_addr ref k i)) \<and> slot_type (h (slot_addr ref k i)) = UNUSED
    \<longleftrightarrow> tree ref h k i = Free"
  unfolding slot_at [OF assms(2,3)] slot_kind_slot_of(2) [OF rngD(5,4) [OF assms(1,3)]] slot_of_type
  by (auto split: bkind.splits)

lemma find_free_slot_loop_step:
  assumes "ref_ok ref" "slots_ok ref h" "rng ref k i" "n = 2 ^ (mx ref - k)"
  shows "find_free_slot_loop h (slot_addr ref k 0) n i
    = (if tree ref h k i = Free then slot_addr ref k i
       else find_free_slot_loop h (slot_addr ref k 0) n (Suc i))"
  using free_slot_test [OF assms(1-3)] slot_addr_add [of ref k 0 i] assms(3,4)
  by (subst find_free_slot_loop.simps) (auto simp: Let_def in_range_def)

lemma find_free_slot_loop_none:
  assumes "ref_ok ref" "slots_ok ref h" "mn ref \<le> k" "k \<le> mx ref" "n = 2 ^ (mx ref - k)"
  shows "(\<And>j. i \<le> j \<Longrightarrow> j < n \<Longrightarrow> tree ref h k j \<noteq> Free)
    \<Longrightarrow> find_free_slot_loop h (slot_addr ref k 0) n i = NULL"
proof (induction "n - i" arbitrary: i)
  case 0
  then show ?case by (simp add: find_free_slot_loop.simps)
next
  case (Suc x)
  then have "rng ref k i" "i < n" "x = n - Suc i" using assms(3-5) by (auto simp: in_range_def)
  with Suc find_free_slot_loop_step [OF assms(1,2) this(1) assms(5)] show ?case by simp
qed

lemma find_free_slot_loop_some:
  assumes "ref_ok ref" "slots_ok ref h" "mn ref \<le> k" "k \<le> mx ref" "n = 2 ^ (mx ref - k)"
    and "j < n" "tree ref h k j = Free" "\<And>j'. j' < j \<Longrightarrow> tree ref h k j' \<noteq> Free"
  shows "i \<le> j \<Longrightarrow> find_free_slot_loop h (slot_addr ref k 0) n i = slot_addr ref k j"
proof (induction "j - i" arbitrary: i)
  case 0
  then have "i = j" by simp
  have "rng ref k j" using assms(3-6) by (simp add: in_range_def)
  from find_free_slot_loop_step [OF assms(1,2) this assms(5)] \<open>i = j\<close> assms(7) show ?case by simp
next
  case (Suc x)
  then have "rng ref k i" "tree ref h k i \<noteq> Free" "x = j - Suc i" "Suc i \<le> j"
    using assms(3-6,8) by (auto simp: in_range_def)
  with Suc.hyps(1) find_free_slot_loop_step [OF assms(1,2) this(1) assms(5)] show ?case by simp
qed

lemma find_free_slot_none:
  assumes "ref_ok ref" "slots_ok ref h" "mn ref \<le> k" "k \<le> mx ref" "no_free (mx ref) (tree ref h) k"
  shows "find_free_slot ref h (of_nat k) = NULL"
  using find_free_slot_loop_none [OF assms(1-4) refl, of 0] assms(5) n_of_entries_eq [OF assms(1,3,4)]
    goto_porder_idx_eq [OF assms(1,3,4)]
  by (simp add: find_free_slot_def no_free_def)

text \<open>\<open>first_free M T t j\<close>: position \<open>j\<close> holds the leftmost free block of order \<open>t\<close>.\<close>

definition first_free :: "nat \<Rightarrow> bstate \<Rightarrow> nat \<Rightarrow> nat \<Rightarrow> bool" where
  "first_free M T t j \<longleftrightarrow> j < 2 ^ (M - t) \<and> T t j = Free \<and> (\<forall>j' < j. T t j' \<noteq> Free)"

lemma first_free_ex: "\<not> no_free M T t \<Longrightarrow> \<exists>j. first_free M T t j"
proof -
  assume "\<not> no_free M T t"
  then obtain j where j: "j < 2 ^ (M - t)" "T t j = Free" by (auto simp: no_free_def)
  define l where "l = (LEAST j. T t j = Free)"
  have "l \<le> j" unfolding l_def using j(2) by (rule Least_le)
  moreover have "T t l = Free" unfolding l_def using j(2) by (rule LeastI)
  moreover have "\<forall>j' < l. T t j' \<noteq> Free" unfolding l_def by (blast dest: not_less_Least)
  ultimately have "first_free M T t l" using j(1) by (simp add: first_free_def)
  then show ?thesis ..
qed

lemma find_free_slot_some:
  assumes "ref_ok ref" "slots_ok ref h" "mn ref \<le> k" "k \<le> mx ref" "first_free (mx ref) (tree ref h) k j"
  shows "find_free_slot ref h (of_nat k) = slot_addr ref k j"
  using find_free_slot_loop_some [OF assms(1-4) refl, of j 0] assms(5) n_of_entries_eq [OF assms(1,3,4)]
    goto_porder_idx_eq [OF assms(1,3,4)]
  by (simp add: find_free_slot_def first_free_def)

subsection \<open>The allocation loop\<close>

lemma u8_of_nat_cmp:
  assumes "a < 256" "b < 256"
  shows "(of_nat a :: u8) < of_nat b \<longleftrightarrow> a < b" "(of_nat a :: u8) = of_nat b \<longleftrightarrow> a = b"
    "(of_nat a :: u8) \<le> of_nat b \<longleftrightarrow> a \<le> b"
  using assms by (simp_all add: word_less_nat_alt word_le_nat_alt word_unat_eq_iff word_nat)

lemma first_free_split:
  assumes "no_free M T t" "j < 2 ^ (M - Suc t)" "t < M"
  shows "first_free M (split_node T (Suc t) j) t (2 * j)"
  using assms child_range [OF assms(3,2)] by (auto simp: first_free_def split_node_def no_free_def)

lemma no_free_split: "t < k \<Longrightarrow> no_free M (split_node T (Suc k) j) t \<longleftrightarrow> no_free M T t"
  by (auto simp: no_free_def split_node_def)

lemma alloc_loop_found:
  assumes "ref_ok ref" "slots_ok ref h" "mn ref \<le> k" "k \<le> mx ref" "first_free (mx ref) (tree ref h) k j"
  shows "buddy_alloc_loop (Suc fuel) ref (of_nat k) (of_nat k) h
      = Inr (h(slot_addr ref k j := slot_of ref k j Alloc), Some (block_base ref k j))"
proof -
  have r: "rng ref k j" and f: "tree ref h k j = Free"
    using assms(3-5) by (auto simp: in_range_def first_free_def)
  show ?thesis
    using find_free_slot_some [OF assms] slot_addr_not_NULL [OF assms(1) r] slot_at [OF assms(2) r] f
    by (simp add: Let_def)
qed

lemma alloc_loop_split:
  assumes "ref_ok ref" "slots_ok ref h" "mn ref \<le> k" "k \<le> t" "Suc t \<le> mx ref"
    and "first_free (mx ref) (tree ref h) (Suc t) j"
  shows "buddy_alloc_loop (Suc fuel) ref (of_nat k) (of_nat (Suc t)) h
      = buddy_alloc_loop fuel ref (of_nat k) (of_nat t) (split_slot ref h (slot_addr ref (Suc t) j))"
proof -
  have r: "rng ref (Suc t) j" and f: "tree ref h (Suc t) j = Free"
    using assms(3-6) by (auto simp: in_range_def first_free_def)
  have "slot_order (h (slot_addr ref (Suc t) j)) = of_nat (Suc t)"
    using slot_at [OF assms(2) r] f by simp
  moreover have "(of_nat k :: u8) < of_nat (Suc t)"
    using assms(4,5) ref_okD(3) [OF assms(1)] by (subst u8_of_nat_cmp) auto
  moreover have "find_free_slot ref h (of_nat (Suc t)) = slot_addr ref (Suc t) j"
    using assms by (intro find_free_slot_some) auto
  ultimately show ?thesis
    using slot_addr_not_NULL [OF assms(1) r] by (simp add: Let_def del: of_nat_Suc) simp
qed

lemma alloc_loop_up:
  assumes "ref_ok ref" "slots_ok ref h" "mn ref \<le> t" "t \<le> mx ref" "no_free (mx ref) (tree ref h) t"
  shows "buddy_alloc_loop (Suc fuel) ref k (of_nat t) h
      = (if t = mx ref then Inr (h, None) else buddy_alloc_loop fuel ref k (of_nat (Suc t)) h)"
proof -
  have "(of_nat t :: u8) = max_pow_order ref \<longleftrightarrow> t = mx ref"
    using u8_of_nat_cmp(2) [of t "mx ref"] assms(4) ref_okD(3) [OF assms(1)] by simp
  then show ?thesis using find_free_slot_none [OF assms] by (auto simp: add.commute)
qed

lemma alloc_loop_descend:
  assumes "ref_ok ref" "mn ref \<le> k"
  shows "slots_ok ref h \<Longrightarrow> k + d \<le> mx ref \<Longrightarrow> d < fuel
    \<Longrightarrow> first_free (mx ref) (tree ref h) (k + d) j \<Longrightarrow> (\<And>e. e < d \<Longrightarrow> no_free (mx ref) (tree ref h) (k + e))
    \<Longrightarrow> \<exists>h'. buddy_alloc_loop fuel ref (of_nat k) (of_nat (k + d)) h
              = Inr (h', Some (block_base ref k (j * 2 ^ d)))
            \<and> refines ref h h' (carve (tree ref h) k d j)"
proof (induction d arbitrary: h fuel j)
  case 0
  then obtain f where "fuel = Suc f" by (auto dest: less_imp_Suc_add)
  moreover have "rng ref k j" using 0 assms(2) by (simp add: in_range_def first_free_def)
  ultimately show ?case
    using 0 assms alloc_loop_found [OF assms(1) 0(1) assms(2), of j f]
      refines_upd [OF assms(1) 0(1), of k j Alloc]
    by (simp add: carve_0 del: upd_apply buddy_alloc_loop.simps)
next
  case (Suc d)
  then obtain f where f: "fuel = Suc f" "d < f" by (cases fuel) auto
  let ?h = "split_slot ref h (slot_addr ref (Suc (k + d)) j)"
  have r: "rng ref (Suc (k + d)) j" "tree ref h (Suc (k + d)) j = Free" "mn ref \<le> k + d"
    using Suc.prems(2,4) assms(2) by (auto simp: in_range_def first_free_def)
  have ref': "refines ref h ?h (split_node (tree ref h) (Suc (k + d)) j)"
    by (rule split_slot_refines [OF assms(1) Suc.prems(1) r(1,3,2)])
  then have ok': "slots_ok ref ?h" and t': "tree ref ?h = split_node (tree ref h) (Suc (k + d)) j"
    by (auto simp: refines_def)
  have "first_free (mx ref) (tree ref ?h) (k + d) (2 * j)"
    unfolding t' using Suc.prems(2,4) Suc.prems(5) [of d] by (intro first_free_split) (auto simp: first_free_def)
  moreover have "no_free (mx ref) (tree ref ?h) (k + e)" if "e < d" for e
    unfolding t' using that Suc.prems(5) [of e] no_free_split [of "k + e" "k + d"] by simp
  moreover have "k + d \<le> mx ref" using Suc.prems(2) by simp
  ultimately obtain h' where h': "buddy_alloc_loop f ref (of_nat k) (of_nat (k + d)) ?h
      = Inr (h', Some (block_base ref k (2 * j * 2 ^ d)))" "refines ref ?h h' (carve (tree ref ?h) k d (2 * j))"
    using Suc.IH [OF ok' _ f(2)] by blast
  have p: "2 * j * 2 ^ d = j * 2 ^ Suc d" by simp
  have "buddy_alloc_loop fuel ref (of_nat k) (of_nat (k + Suc d)) h
      = Inr (h', Some (block_base ref k (j * 2 ^ Suc d)))"
    using alloc_loop_split [OF assms(1) Suc.prems(1) assms(2), of "k + d" j f] Suc.prems(2,4) h'(1)
    unfolding p f(1) add_Suc_right by simp
  moreover have "refines ref h h' (carve (tree ref h) k (Suc d) j)"
    using refines_trans [OF ref' h'(2)] unfolding t' carve.simps add_Suc_right .
  ultimately show ?case by blast
qed

lemma alloc_loop_ascend:
  assumes "ref_ok ref" "mn ref \<le> k" "slots_ok ref h" "k + d \<le> mx ref"
    and "first_free (mx ref) (tree ref h) (k + d) j" "\<And>e. e < d \<Longrightarrow> no_free (mx ref) (tree ref h) (k + e)"
  shows "e \<le> d \<Longrightarrow> d + (d - e) < fuel
    \<Longrightarrow> \<exists>h'. buddy_alloc_loop fuel ref (of_nat k) (of_nat (k + e)) h
              = Inr (h', Some (block_base ref k (j * 2 ^ d)))
            \<and> refines ref h h' (carve (tree ref h) k d j)"
proof (induction "d - e" arbitrary: e fuel)
  case 0
  then show ?case using alloc_loop_descend [OF assms(1-4) _ assms(5,6)] by simp
next
  case (Suc x)
  then obtain f where f: "fuel = Suc f" by (auto dest: less_imp_Suc_add)
  have "e < d" "x = d - Suc e" using Suc.hyps(2) by auto
  then have "no_free (mx ref) (tree ref h) (k + e)" "k + e < mx ref" using assms(4,6) by auto
  then have "buddy_alloc_loop fuel ref (of_nat k) (of_nat (k + e)) h
      = buddy_alloc_loop f ref (of_nat k) (of_nat (k + Suc e)) h"
    using alloc_loop_up [OF assms(1,3), of "k + e" f "of_nat k"] assms(2) unfolding f by simp
  with Suc.hyps(1) [OF \<open>x = d - Suc e\<close>, of f] Suc.prems \<open>e < d\<close> f show ?case by simp
qed

lemma alloc_loop_none:
  assumes "ref_ok ref" "slots_ok ref h" "\<And>t. k \<le> t \<Longrightarrow> t \<le> mx ref \<Longrightarrow> no_free (mx ref) (tree ref h) t" "mn ref \<le> k"
  shows "k \<le> t \<Longrightarrow> t \<le> mx ref \<Longrightarrow> mx ref - t < fuel \<Longrightarrow> buddy_alloc_loop fuel ref ko (of_nat t) h = Inr (h, None)"
proof (induction "mx ref - t" arbitrary: t fuel)
  case 0
  then obtain f where f: "fuel = Suc f" by (auto dest: less_imp_Suc_add)
  show ?case
    using alloc_loop_up [OF assms(1,2), of t f ko] assms(3) [of t] assms(4) 0 unfolding f by simp
next
  case (Suc x)
  then obtain f where f: "fuel = Suc f" by (auto dest: less_imp_Suc_add)
  have "x = mx ref - Suc t" "t < mx ref" using Suc.hyps(2) by auto
  with Suc.hyps(1) [of "Suc t" f] Suc.prems show ?case
    using alloc_loop_up [OF assms(1,2), of t f ko] assms(3) [of t] assms(4)
    unfolding f by (simp del: of_nat_Suc buddy_alloc_loop.simps)
qed

subsection \<open>Allocation\<close>

lemma alloc_order_spec:
  assumes "ref_ok ref" "0 < unat bytes" "unat bytes \<le> 2 ^ mx ref"
  shows "mn ref \<le> unat (alloc_order ref bytes)" "unat (alloc_order ref bytes) \<le> mx ref"
    "unat bytes \<le> 2 ^ unat (alloc_order ref bytes)"
    "unat (alloc_order ref bytes) = mn ref \<or> 2 ^ unat (alloc_order ref bytes) < 2 * unat bytes"
proof -
  obtain n where n: "unat (clp2 bytes) = 2 ^ n" "n \<le> mx ref" "unat bytes \<le> 2 ^ n" "2 ^ n < 2 * unat bytes"
  proof (cases "unat bytes = 1")
    case True
    then have "bytes = 1" by (simp add: word_unat_eq_iff)
    then show ?thesis using that [of 0] by simp
  next
    case False
    with assms(2) have b2: "2 \<le> unat bytes" by simp
    obtain g where g: "2 ^ g < unat bytes" "unat bytes \<le> 2 ^ (g + 1)"
      using ex_power_ivl2 [of 2 "unat bytes"] b2 by auto
    have "(2::nat) ^ g < 2 ^ mx ref" using g(1) assms(3) by linarith
    then have "g < mx ref" by simp
    then have g63: "g < 63" using ref_okD(3) [OF assms(1)] by simp
    have "unat (clp2 bytes) = 2 ^ (g + 1)"
      unfolding clp2_power [OF g g63] using g63 by (intro unat_two_power) simp
    with \<open>g < mx ref\<close> g show ?thesis by (intro that [of "g + 1"]) simp_all
  qed
  have "n < 64" using n(2) ref_okD(3) [OF assms(1)] by simp
  have "unat (ilog2 (clp2 bytes)) = n" by (rule ilog2_eqI) (simp_all add: n(1))
  then have "unat (ucast (ilog2 (clp2 bytes)) :: u8) = n"
    using \<open>n < 64\<close> by (simp add: unsigned_ucast_eq take_bit_nat_eq_self)
  then have "unat (alloc_order ref bytes) = max (mn ref) n"
    by (auto simp: alloc_order_def Let_def word_less_nat_alt)
  then show "mn ref \<le> unat (alloc_order ref bytes)" "unat (alloc_order ref bytes) \<le> mx ref"
    "unat bytes \<le> 2 ^ unat (alloc_order ref bytes)"
    "unat (alloc_order ref bytes) = mn ref \<or> 2 ^ unat (alloc_order ref bytes) < 2 * unat bytes"
    using n(2-4) ref_okD(2) [OF assms(1)] power_increasing [of n "mn ref" "2::nat"]
    by (auto simp: max_def intro: order_trans)
qed

text \<open>A free block of an order that can serve the request exists.\<close>

definition can_serve :: "buddy_ref_t \<Rightarrow> hdr \<Rightarrow> nat \<Rightarrow> bool" where
  "can_serve ref h k \<longleftrightarrow> (\<exists>t. k \<le> t \<and> t \<le> mx ref \<and> \<not> no_free (mx ref) (tree ref h) t)"

lemma buddy_alloc_eq:
  assumes "buddy_inv ref h" "0 < unat bytes" "unat bytes \<le> 2 ^ mx ref"
  shows "buddy_alloc ref h bytes =
    kbind (buddy_alloc_loop ALLOC_FUEL ref (alloc_order ref bytes) (alloc_order ref bytes) h)
      (\<lambda>(h, found). case found of None \<Rightarrow> Inl (Bug_on ''buddy_alloc'') | Some ptr \<Rightarrow> Inr (h, ptr))"
proof -
  have "bytes \<noteq> 0" using assms(2) by auto
  moreover have "\<not> bytes > rg_length (content_mem_reg ref)"
    using assms ref_okD(7) [of ref] by (simp add: word_less_nat_alt buddy_inv_def)
  ultimately show ?thesis by (simp add: buddy_alloc_def Let_def)
qed

lemma buddy_alloc_main:
  assumes inv: "buddy_inv ref h" and b: "0 < unat bytes" "unat bytes \<le> 2 ^ mx ref"
    and k: "k = unat (alloc_order ref bytes)" and cs: "can_serve ref h k"
  shows "\<exists>h' d j. buddy_alloc ref h bytes = Inr (h', block_base ref k (j * 2 ^ d))
    \<and> k + d \<le> mx ref \<and> j < 2 ^ (mx ref - (k + d)) \<and> tree ref h (k + d) j = Free
    \<and> refines ref h h' (carve (tree ref h) k d j)"
proof -
  have ok: "ref_ok ref" "slots_ok ref h" using inv by (auto simp: buddy_inv_def)
  note ao = alloc_order_spec [OF ok(1) b, folded k]
  have ex: "\<exists>d. k + d \<le> mx ref \<and> \<not> no_free (mx ref) (tree ref h) (k + d)"
    using cs by (auto simp: can_serve_def) (metis le_Suc_ex)
  define d where "d = (LEAST d. k + d \<le> mx ref \<and> \<not> no_free (mx ref) (tree ref h) (k + d))"
  have d: "k + d \<le> mx ref" "\<not> no_free (mx ref) (tree ref h) (k + d)"
    using LeastI_ex [OF ex] by (auto simp: d_def)
  have before: "no_free (mx ref) (tree ref h) (k + e)" if "e < d" for e
    using not_less_Least [OF that [unfolded d_def]] that d(1) by auto
  obtain j where j: "first_free (mx ref) (tree ref h) (k + d) j" using first_free_ex [OF d(2)] ..
  have "d + (d - 0) < ALLOC_FUEL" using d(1) ref_okD(3) [OF ok(1)] by (simp add: ALLOC_FUEL_def)
  from alloc_loop_ascend [OF ok(1) ao(1) ok(2) d(1) j before le0 this] obtain h' where
    "buddy_alloc_loop ALLOC_FUEL ref (of_nat k) (of_nat k) h = Inr (h', Some (block_base ref k (j * 2 ^ d)))"
    "refines ref h h' (carve (tree ref h) k d j)" by auto
  moreover have "of_nat k = alloc_order ref bytes" by (simp add: k)
  ultimately show ?thesis
    using buddy_alloc_eq [OF inv b] d(1) j
    by (intro exI [of _ h'] exI [of _ d] exI [of _ j]) (simp add: first_free_def)
qed

lemma buddy_alloc_no_memory:
  assumes inv: "buddy_inv ref h" and b: "0 < unat bytes" "unat bytes \<le> 2 ^ mx ref"
    and ncs: "\<not> can_serve ref h (unat (alloc_order ref bytes))"
  shows "buddy_alloc ref h bytes = Inl (Bug_on ''buddy_alloc'')"
proof -
  have ok: "ref_ok ref" "slots_ok ref h" using inv by (auto simp: buddy_inv_def)
  note ao = alloc_order_spec [OF ok(1) b]
  have "mx ref - unat (alloc_order ref bytes) < ALLOC_FUEL"
    using ref_okD(3) [OF ok(1)] by (simp add: ALLOC_FUEL_def)
  from alloc_loop_none [OF ok _ ao(1) order.refl ao(2) this] ncs show ?thesis
    using buddy_alloc_eq [OF inv b] by (auto simp: can_serve_def)
qed

subsection \<open>The search for the slot of an address\<close>

lemma unat_of_nat_pow: "n < 64 \<Longrightarrow> unat (of_nat (2 ^ n) :: u64) = 2 ^ n"
  using unat_two_power [of n, where 'a = 64] by simp

lemma block_fits: "ref_ok ref \<Longrightarrow> rng ref k i \<Longrightarrow> unat (cbase ref) + (i + 1) * 2 ^ k \<le> 2 ^ 64"
  using in_range_bound [of "mn ref" "mx ref" k i] ref_okD(6) [of ref] by linarith

lemma unat_block_base:
  assumes "ref_ok ref" "rng ref k i"
  shows "unat (block_base ref k i) = unat (cbase ref) + i * 2 ^ k"
proof -
  have "i * 2 ^ k < (i + 1) * 2 ^ k" by simp
  then have "unat (cbase ref) + i * 2 ^ k < 2 ^ 64" using block_fits [OF assms] by linarith
  then show ?thesis unfolding block_base_def by (simp add: word_nat del: of_nat_mult of_nat_power)
qed

text \<open>The comparison the descent makes: is the address in the left half of the block?\<close>

lemma left_half_test:
  assumes "ref_ok ref" "rng ref (Suc k) i" "x \<in> block (Suc k) i" "unat ptr = unat (cbase ref) + x"
  shows "ptr \<ge> block_base ref (Suc k) i
      \<and> ptr \<le> block_base ref (Suc k) i + upow 2 (ucast (of_nat (Suc k) :: u8)) div 2 - 1
    \<longleftrightarrow> x div 2 ^ k = 2 * i"
proof -
  have k: "Suc k < 64" by (rule rngD(4) [OF assms(1,2)])
  then have c: "ucast (of_nat (Suc k) :: u8) = (of_nat (Suc k) :: u64)" by (intro ucast_u8_of_nat) simp
  define b q where "b = unat (cbase ref) + i * 2 ^ Suc k" and "q = (2::nat) ^ k"
  have ub: "unat (block_base ref (Suc k) i) = b" unfolding b_def by (rule unat_block_base [OF assms(1,2)])
  have "upow 2 (ucast (of_nat (Suc k) :: u8)) div (2::u64) = of_nat q"
    unfolding c upow2 [OF k] q_def using k
    by (intro word_unat_eq_iff [THEN iffD2])
      (simp only: unat_div_distrib unat_of_nat_pow [OF k], simp add: unat_of_nat_pow del: of_nat_power)
  moreover have q: "1 \<le> q" "b + 2 * q \<le> 2 ^ 64"
    using block_fits [OF assms(1,2)] by (simp_all add: b_def q_def algebra_simps)
  moreover have "unat (block_base ref (Suc k) i + of_nat q - 1) = b + q - 1"
  proof -
    have "unat (block_base ref (Suc k) i + of_nat q) = b + q"
      using q ub by (subst unat_add_small) (auto simp: word_nat)
    then show ?thesis using q by (subst unat_sub_small) auto
  qed
  moreover have "i * (2 * q) \<le> x" "x < i * (2 * q) + 2 * q"
    using assms(3) by (auto simp: block_def q_def algebra_simps)
  moreover have "x div q = 2 * i \<longleftrightarrow> x < 2 * i * q + q" if "2 * i * q \<le> x"
    using that q(1) by (auto simp: div_nat_eqI less_mult_imp_div_less mult.commute dividend_less_div_times
      intro!: div_nat_eqI)
      (metis dividend_less_div_times mult.commute add.commute q(1) less_le_trans zero_less_one)
  ultimately show ?thesis
    unfolding word_le_nat_alt using assms(4) ub by (auto simp: b_def q_def algebra_simps)
qed

lemma find_slot_loop_leaf:
  assumes "ref_ok ref" "slots_ok ref h" "rng ref k i" "tree ref h k i = Free \<or> tree ref h k i = Alloc"
  shows "find_slot_loop (Suc fuel) ref h ptr (slot_addr ref k i)
    = Inr (if tree ref h k i = Alloc then Some (slot_addr ref k i) else None)"
proof -
  have "min_pow_order ref \<le> of_nat k"
    using u8_of_nat_cmp(3) [of "mn ref" k] rngD(1,4) [OF assms(1,3)] by simp
  then show ?thesis using slot_at [OF assms(2,3)] assms(4) by auto
qed

lemma find_slot_loop_split:
  assumes "ref_ok ref" "slots_ok ref h" "rng ref (Suc k) i" "mn ref \<le> k" "tree ref h (Suc k) i = Split"
    and "x \<in> block (Suc k) i" "unat ptr = unat (cbase ref) + x"
  shows "find_slot_loop (Suc fuel) ref h ptr (slot_addr ref (Suc k) i)
    = find_slot_loop fuel ref h ptr (slot_addr ref k (x div 2 ^ k))"
proof -
  have hs: "h (slot_addr ref (Suc k) i) = slot_of ref (Suc k) i Split"
    using slot_at [OF assms(2,3)] assms(5) by simp
  have o: "slot_order (h (slot_addr ref (Suc k) i)) = of_nat (Suc k)"
    and b: "slot_base (h (slot_addr ref (Suc k) i)) = block_base ref (Suc k) i"
    and t: "slot_type (h (slot_addr ref (Suc k) i)) = SPLIT" unfolding hs by simp_all
  have "min_pow_order ref \<le> of_nat (Suc k)"
    using u8_of_nat_cmp(3) [of "mn ref" "Suc k"] rngD(1,4) [OF assms(1,3)] by simp
  moreover have "x div 2 ^ k = 2 * i \<or> x div 2 ^ k = Suc (2 * i)"
    using assms(6) unfolding block_halves by (auto simp: block_div)
  ultimately show ?thesis
    unfolding find_slot_loop.simps o b t left_half_test [OF assms(1,3,6,7)]
    using goto_children_eq [where h = h, OF assms(1,3,4) o] by auto
qed

lemma find_slot_loop_spec:
  assumes inv: "buddy_inv ref h" and r: "rng ref k i" and leaf: "tree ref h k i = Free \<or> tree ref h k i = Alloc"
    and x: "x \<in> block k i" and p: "unat ptr = unat (cbase ref) + x"
  shows "k + d \<le> mx ref \<Longrightarrow> d < fuel \<Longrightarrow> find_slot_loop fuel ref h ptr (slot_addr ref (k + d) (x div 2 ^ (k + d)))
    = Inr (if tree ref h k i = Alloc then Some (slot_addr ref k i) else None)"
proof (induction d arbitrary: fuel)
  case 0
  then obtain f where "fuel = Suc f" by (auto dest: less_imp_Suc_add)
  with find_slot_loop_leaf [OF _ _ r leaf, of f ptr] inv x show ?case by (simp add: buddy_inv_def block_div)
next
  case (Suc d)
  then obtain f where f: "fuel = Suc f" "d < f" by (cases fuel) auto
  have ok: "ref_ok ref" "slots_ok ref h" "kinv (mn ref) (mx ref) (tree ref h)" using inv by (auto simp: buddy_inv_def)
  have xk: "x div 2 ^ k = i" using x by (simp add: block_div)
  have "x div 2 ^ k div 2 ^ Suc d = x div 2 ^ (k + Suc d)" using div_pow_diff [of k "k + Suc d" x] by simp
  then have anc: "i div 2 ^ Suc d = x div 2 ^ Suc (k + d)" unfolding xk by simp
  have sp: "tree ref h (Suc (k + d)) (x div 2 ^ Suc (k + d)) = Split"
    using kinv_ancestor [OF ok(3) rngD(1) [OF ok(1) r], of i d] leaf rngD(3) [OF ok(1) r] Suc.prems(1)
    unfolding anc by auto
  then have "rng ref (Suc (k + d)) (x div 2 ^ Suc (k + d))" by (auto simp: tree_def split: if_splits)
  from find_slot_loop_split [OF ok(1,2) this _ sp _ p, of f] Suc.IH [OF _ f(2)] Suc.prems(1) rngD(1) [OF ok(1) r]
  show ?case unfolding f(1) add_Suc_right by (simp add: block_div)
qed

lemma find_slot_by_addr_spec:
  assumes inv: "buddy_inv ref h" and r: "rng ref k i" and leaf: "tree ref h k i = Free \<or> tree ref h k i = Alloc"
    and x: "x \<in> block k i" and p: "unat ptr = unat (cbase ref) + x"
  shows "find_slot_by_addr ref h ptr
    = (if tree ref h k i = Alloc then Inr (slot_addr ref k i) else Inl (Bug_on ''find_slot_by_addr''))"
proof -
  have ok: "ref_ok ref" using inv by (simp add: buddy_inv_def)
  have km: "k + (mx ref - k) = mx ref" using rngD(2) [OF ok r] by simp
  have "x div 2 ^ mx ref = 0" using x block_in_region [OF r] by auto
  moreover have "mx ref - k < ALLOC_FUEL" using ref_okD(3) [OF ok] by (simp add: ALLOC_FUEL_def)
  moreover have "goto_porder_idx ref (max_pow_order ref) = slot_addr ref (mx ref) 0"
    using goto_porder_idx_eq [OF ok, of "mx ref"] ref_okD(2) [OF ok] by simp
  ultimately show ?thesis
    using find_slot_loop_spec [OF assms, of "mx ref - k" ALLOC_FUEL] unfolding km
    by (simp add: find_slot_by_addr_def)
qed

subsection \<open>The merge loop\<close>

lemma buddy_free_loop_spec:
  assumes "ref_ok ref"
  shows "slots_ok ref h \<Longrightarrow> kinv (mn ref) (mx ref) (tree ref h) \<Longrightarrow> rng ref k i \<Longrightarrow> tree ref h k i = Free
    \<Longrightarrow> mx ref - k < fuel
    \<Longrightarrow> \<exists>h'. buddy_free_loop fuel ref (slot_addr ref k i) h = Inr h'
            \<and> refines ref h h' (merge_up (mx ref) (tree ref h) k i)"
proof (induction fuel arbitrary: h k i)
  case (Suc fuel)
  let ?T = "tree ref h"
  have hs: "h (slot_addr ref k i) = slot_of ref k i Free" using slot_at [OF Suc.prems(1,3)] Suc.prems(4) by simp
  then have o: "slot_order (h (slot_addr ref k i)) = of_nat k" by simp
  have lt: "(of_nat k :: u8) < max_pow_order ref \<longleftrightarrow> k < mx ref"
    using u8_of_nat_cmp(1) [of k "mx ref"] rngD(4) [OF assms Suc.prems(3)] by simp
  have sb: "goto_sibling ref h (slot_addr ref k i) = slot_addr ref k (sib i)"
    using goto_sibling_eq [where h = h, OF assms Suc.prems(3) o] .
  show ?case
  proof (cases "k < mx ref \<and> ?T k (sib i) = Free")
    case False
    have "slot_type (h (slot_addr ref k (sib i))) \<noteq> UNUSED" if "k < mx ref"
      using slot_at [OF Suc.prems(1) rng_up(2) [OF Suc.prems(3) that]] that False Suc.prems(2-4)
        kinv_sib [of "mn ref" "mx ref" ?T k i] by (auto simp: slot_of_type in_range_def split: bkind.splits)
    then have "buddy_free_loop (Suc fuel) ref (slot_addr ref k i) h = Inr h"
      by (auto simp: o lt sb Let_def)
    with refines_refl [OF Suc.prems(1)] show ?thesis
      unfolding merge_up.simps [of _ ?T] if_not_P [OF False] by blast
  next
    case True
    note up = rng_up [OF Suc.prems(3) conjunct1 [OF True]] and m = Suc.prems(2-4)
    have par: "?T (Suc k) (i div 2) = Split" using kinvD(2) [OF m(1), of k i] m True by (auto simp: in_range_def)
    let ?h = "h(slot_addr ref (Suc k) (i div 2) := slot_of ref (Suc k) (i div 2) Free,
                slot_addr ref k i := slot_of ref k i Absent, slot_addr ref k (sib i) := slot_of ref k (sib i) Absent)"
    have step: "refines ref h ?h (merge_node ?T k i)"
      unfolding merge_node_def by (intro refines_step refines_refl assms Suc.prems up)
    then have h': "slots_ok ref ?h" "tree ref ?h = merge_node ?T k i" by (auto simp: refines_def)
    have kv: "kinv (mn ref) (mx ref) (merge_node ?T k i)"
      using m True by (intro kinv_merge) (auto simp: in_range_def)
    have fr: "merge_node ?T k i (Suc k) (i div 2) = Free" by (simp add: merge_node_def)
    have "goto_parent ref h (slot_addr ref k i) = slot_addr ref (Suc k) (i div 2)"
      using goto_parent_eq [where h = h, OF assms Suc.prems(3) o] True by simp
    moreover have "slot_type (h (slot_addr ref k (sib i))) = UNUSED"
      using slot_at [OF Suc.prems(1) up(2)] True by simp
    moreover have "(h (slot_addr ref (Suc k) (i div 2)))\<lparr>slot_type := UNUSED\<rparr> = slot_of ref (Suc k) (i div 2) Free"
      using slot_at [OF Suc.prems(1) up(1)] True par by simp
    ultimately have "buddy_free_loop (Suc fuel) ref (slot_addr ref k i) h
        = buddy_free_loop fuel ref (slot_addr ref (Suc k) (i div 2)) ?h"
      using True lt o sb by (simp add: Let_def)
    moreover have "\<exists>h'. buddy_free_loop fuel ref (slot_addr ref (Suc k) (i div 2)) ?h = Inr h'
        \<and> refines ref ?h h' (merge_up (mx ref) (merge_node ?T k i) (Suc k) (i div 2))"
      using True Suc.prems(5) by (intro Suc.IH [OF h'(1), unfolded h'(2), OF kv up(1) fr]) linarith
    ultimately show ?thesis
      using refines_trans [OF step] unfolding merge_up.simps [of _ ?T] if_P [OF True] by auto
  qed
qed simp

subsection \<open>Release\<close>

lemma buddy_free_main:
  assumes inv: "buddy_inv ref h" and r: "rng ref k i" and u: "tree ref h k i = Alloc"
    and x: "x \<in> block k i" and p: "unat ptr = unat (cbase ref) + x" "ptr \<noteq> NULL"
  shows "\<exists>h'. buddy_free ref h ptr = Inr h'
    \<and> refines ref h h' (merge_up (mx ref) (upd (tree ref h) k i Free) k i)"
proof -
  have ok: "ref_ok ref" "slots_ok ref h" "kinv (mn ref) (mx ref) (tree ref h)" using inv by (auto simp: buddy_inv_def)
  let ?h = "h(slot_addr ref k i := slot_of ref k i Free)"
  have up: "refines ref h ?h (upd (tree ref h) k i Free)" by (rule refines_upd [OF ok(1,2) r])
  then have h': "slots_ok ref ?h" "tree ref ?h = upd (tree ref h) k i Free" by (auto simp: refines_def)
  have "kinv (mn ref) (mx ref) (upd (tree ref h) k i Free)" using u by (intro kinv_mark ok r) auto
  moreover have "mx ref - k < ALLOC_FUEL" using ref_okD(3) [OF ok(1)] by (simp add: ALLOC_FUEL_def)
  ultimately obtain h2 where h2: "buddy_free_loop ALLOC_FUEL ref (slot_addr ref k i) ?h = Inr h2"
      "refines ref ?h h2 (merge_up (mx ref) (upd (tree ref h) k i Free) k i)"
    using buddy_free_loop_spec [OF ok(1) h'(1) _ r, of ALLOC_FUEL] unfolding h'(2) by auto
  have "(h (slot_addr ref k i))\<lparr>slot_type := UNUSED\<rparr> = slot_of ref k i Free" using slot_at [OF ok(2) r] u by simp
  then have "buddy_free ref h ptr = Inr h2"
    using find_slot_by_addr_spec [OF inv r _ x p(1)] u p(2) h2(1) by (simp add: buddy_free_def)
  then show ?thesis using refines_trans [OF up h2(2)] by blast
qed

lemmas buddy_inv_unfold = buddy_inv_def coalesced_def used_blocks_def

lemma refines_invI:
  assumes "refines ref h h' T" "ref_ok ref" "kinv (mn ref) (mx ref) T"
  shows "buddy_inv ref h'" "coal (mn ref) (mx ref) T \<Longrightarrow> coalesced ref h'"
    "used_blocks ref h' = alloc_set (mn ref) (mx ref) T"
  using assms by (auto simp: refines_def buddy_inv_unfold)

lemma used_blocks_iff: "(k, i) \<in> used_blocks ref h \<longleftrightarrow> rng ref k i \<and> tree ref h k i = Alloc"
  by (simp add: used_blocks_def alloc_set_def)

lemma used_blocks_disjoint:
  assumes "buddy_inv ref h" "(k, i) \<in> used_blocks ref h" "(k', i') \<in> used_blocks ref h" "(k, i) \<noteq> (k', i')"
  shows "block k i \<inter> block k' i' = {}"
  using assms leaves_disjoint [of "mn ref" "mx ref" "tree ref h" k i k' i']
  by (auto simp: used_blocks_iff buddy_inv_def)

lemma buddy_alloc_ok:
  assumes inv: "buddy_inv ref h" and b: "0 < unat bytes" "unat bytes \<le> 2 ^ mx ref"
    and k: "k = unat (alloc_order ref bytes)" and cs: "can_serve ref h k"
  obtains h' i where "buddy_alloc ref h bytes = Inr (h', block_base ref k i)" "rng ref k i"
    "buddy_inv ref h'" "(k, i) \<notin> used_blocks ref h" "used_blocks ref h' = insert (k, i) (used_blocks ref h)"
    "coalesced ref h \<Longrightarrow> coalesced ref h'" "slot_frame ref h h'"
    "coalesced ref h \<Longrightarrow> block_base ref k i \<noteq> NULL \<Longrightarrow> buddy_free ref h' (block_base ref k i) = Inr h"
proof -
  from buddy_alloc_main [OF assms] obtain h' d j where al: "buddy_alloc ref h bytes = Inr (h', block_base ref k (j * 2 ^ d))"
    and dj: "k + d \<le> mx ref" "j < 2 ^ (mx ref - (k + d))" "tree ref h (k + d) j = Free"
    and re: "refines ref h h' (carve (tree ref h) k d j)" by blast
  have ok: "ref_ok ref" "slots_ok ref h" "kinv (mn ref) (mx ref) (tree ref h)" using inv by (auto simp: buddy_inv_def)
  note cv = ok(3) alloc_order_spec(1) [OF ok(1) b, folded k] dj
  let ?i = "j * 2 ^ d"
  have r: "rng ref k ?i" and u: "tree ref h' k ?i = Alloc"
    using carve_in_range [OF cv] carve_Alloc [OF cv] re by (simp_all add: refines_def)
  note inv' = refines_invI [OF re ok(1) carve_kinv [OF cv]]
  have rd: "rng ref (k + d) j" using dj cv(2) by (simp add: in_range_def)
  have "tree ref h k ?i \<noteq> Alloc"
  proof
    assume a: "tree ref h k ?i = Alloc"
    then have "(k, ?i) \<noteq> (k + d, j)" using dj(3) by auto
    with leaves_disjoint [OF ok(3) r rd] a dj(3) have "block k ?i \<inter> block (k + d) j = {}" by simp
    moreover have "block k ?i \<subseteq> block (k + d) j" by (intro block_subset) auto
    ultimately show False using block_nonempty [of ?i k] by blast
  qed
  then have "(k, ?i) \<notin> used_blocks ref h" by (simp add: used_blocks_iff)
  moreover have "buddy_free ref h' (block_base ref k ?i) = Inr h" if c: "coalesced ref h" and nn: "block_base ref k ?i \<noteq> NULL"
  proof -
    have p: "unat (block_base ref k ?i) = unat (cbase ref) + ?i * 2 ^ k" by (rule unat_block_base [OF ok(1) r])
    obtain h2 where h2: "buddy_free ref h' (block_base ref k ?i) = Inr h2"
        "refines ref h' h2 (merge_up (mx ref) (upd (tree ref h') k ?i Free) k ?i)"
      using buddy_free_main [OF inv'(1) r u block_nonempty p nn] by blast
    have t: "tree ref h' = carve (tree ref h) k d j" using re by (simp add: refines_def)
    have "merge_up (mx ref) (upd (tree ref h') k ?i Free) k ?i = tree ref h"
      unfolding t merge_up_carve [OF cv] using c rd dj(3) by (intro coal_merge_up_id) (auto simp: coalesced_def)
    then have "refines ref h h2 (tree ref h)" using refines_trans [OF re h2(2)] by simp
    from refines_unique [OF this refines_refl [OF ok(2)]] h2(1) show ?thesis by simp
  qed
  ultimately show ?thesis
    using al r inv' carve_alloc_set [OF cv] carve_coal [OF cv] coal_imp_but [of "mn ref" "mx ref" "tree ref h"] re
    by (intro that [of h' ?i]) (auto simp: coalesced_def used_blocks_def refines_def)
qed

lemma buddy_free_ok:
  assumes inv: "buddy_inv ref h" and u: "(k, i) \<in> used_blocks ref h"
    and x: "x \<in> block k i" and p: "unat ptr = unat (cbase ref) + x" "ptr \<noteq> NULL"
  obtains h' where "buddy_free ref h ptr = Inr h'" "buddy_inv ref h'" "slot_frame ref h h'"
    "used_blocks ref h' = used_blocks ref h - {(k, i)}" "coalesced ref h \<Longrightarrow> coalesced ref h'"
proof -
  let ?T = "upd (tree ref h) k i Free"
  have r: "rng ref k i" "tree ref h k i = Alloc" using u by (auto simp: used_blocks_iff)
  from buddy_free_main [OF inv r x p] obtain h' where fr: "buddy_free ref h ptr = Inr h'"
    and re: "refines ref h h' (merge_up (mx ref) ?T k i)" by blast
  have ok: "ref_ok ref" "kinv (mn ref) (mx ref) (tree ref h)" using inv by (auto simp: buddy_inv_def)
  have m: "kinv (mn ref) (mx ref) ?T" "rng ref k i" "?T k i = Free"
    using r by (auto intro: kinv_mark ok)
  note inv' = refines_invI [OF re ok(1) merge_up_kinv [OF m]]
  have "coalesced ref h'" if "coalesced ref h"
    using that inv'(2) merge_up_coal [OF m] coal_but_free [of "mn ref" "mx ref" "tree ref h" k i]
    by (simp add: coalesced_def del: upd_apply)
  moreover have "used_blocks ref h' = used_blocks ref h - {(k, i)}"
    using inv'(3) merge_up_alloc_set [OF m] alloc_set_mark(2) [OF r(1), of Free "tree ref h"]
    by (simp add: used_blocks_def del: upd_apply)
  ultimately show ?thesis using fr inv'(1) re by (intro that [of h']) (auto simp: refines_def)
qed

subsection \<open>Initialisation\<close>

lemma flp2_two_power: "unat v = 2 ^ n \<Longrightarrow> flp2 v = v"
proof -
  assume v: "unat v = 2 ^ n"
  have "(2::nat) ^ n < 2 ^ 64" using unsigned_less [of v, where 'a = nat] v by simp
  then have n: "n < 64" by (simp only: power_strict_increasing_iff)
  have "flp2 v = 2 ^ n" using n by (intro flp2_power) (simp_all add: v)
  then show ?thesis using v n by (simp add: word_unat_eq_iff unat_two_power)
qed

lemma ilog2_two_power: "unat v = 2 ^ n \<Longrightarrow> unat (ilog2 v) = n"
  by (rule ilog2_eqI) simp_all

lemma ilog2_smallest_block: "unat (ilog2 BUDDY_ALLOC_SMALLEST_BLOCK) = 12"
  by (rule ilog2_eqI) (simp_all add: BUDDY_ALLOC_SMALLEST_BLOCK_def)

lemma unat_ucast_order: "unat (w :: s32) < 256 \<Longrightarrow> unat (ucast w :: u8) = unat w"
  by (simp add: unsigned_ucast_eq take_bit_nat_eq_self)

lemma kinv_single: "m \<le> M \<Longrightarrow> kinv m M (upd (\<lambda>_ _. Absent) M 0 Free)"
  by (rule kinvI) auto

lemma memzero_slots_ok:
  assumes "ref_ok ref" "16 * 2 ^ (mx ref - mn ref + 1) \<le> unat sz"
  shows "slots_ok ref (memzero_slots h (hbase ref) sz)"
    and "tree ref (memzero_slots h (hbase ref) sz) = (\<lambda>_ _. Absent)"
proof -
  have z: "memzero_slots h (hbase ref) sz (slot_addr ref k i) = zero_slot" if r: "rng ref k i" for k i
  proof -
    have "unat (slot_addr ref k i - hbase ref) = 16 * slot_num ref k i"
      using unat_slot_addr [OF assms(1) r] by (simp add: unat_sub_small)
    then show ?thesis
      using slot_num_less [OF r] assms(2) by (simp add: memzero_slots_def word_less_nat_alt)
  qed
  then show t: "tree ref (memzero_slots h (hbase ref) sz) = (\<lambda>_ _. Absent)"
    by (intro bstate_eqI) (simp add: tree_def slot_kind_def zero_slot_def is_entry_empty_def)
  show "slots_ok ref (memzero_slots h (hbase ref) sz)"
    unfolding slots_ok_def t using z by simp
qed

lemma buddy_init_ok:
  assumes len: "unat (rg_length cr) = 2 ^ M" "12 \<le> M"
    and c: "unat (rg_base cr) + 2 ^ M \<le> 2 ^ 64"
    and hb: "0 < unat (rg_base hr)" "unat (rg_base hr) + 16 * 2 ^ (M - 12 + 1) \<le> 2 ^ 64"
    and hl: "16 * 2 ^ (M - 12 + 1) \<le> unat (rg_length hr)"
  obtains ref h' where "buddy_init h hr cr = Inr (ref, h')" "header_mem_reg ref = hr" "content_mem_reg ref = cr"
    "mx ref = M" "mn ref = 12" "buddy_inv ref h'" "coalesced ref h'" "used_blocks ref h' = {}" "tree ref h' M 0 = Free"
proof -
  have "(2::nat) ^ M < 2 ^ 64" using unsigned_less [of "rg_length cr", where 'a = nat] len by simp
  then have M: "M < 64" by (simp only: power_strict_increasing_iff)
  define ref where "ref = \<lparr>header_mem_reg = hr, content_mem_reg = cr, max_pow_order = ucast (ilog2 (rg_length cr)),
                   min_pow_order = ucast (ilog2 BUDDY_ALLOC_SMALLEST_BLOCK)\<rparr>"
  have ord: "mx ref = M" "mn ref = 12"
    using ilog2_two_power [OF len(1)] ilog2_smallest_block M by (simp_all add: ref_def unat_ucast_order)
  have sel: "header_mem_reg ref = hr" "content_mem_reg ref = cr" by (simp_all add: ref_def)
  have ok: "ref_ok ref" using assms M by (simp add: ref_ok_def ord sel)
  let ?h = "memzero_slots h (rg_base hr) (rg_length hr)"
  have z: "slots_ok ref ?h" "tree ref ?h = (\<lambda>_ _. Absent)"
    using memzero_slots_ok [OF ok, of "rg_length hr" h] hl by (simp_all add: ord sel)
  have r: "rng ref M 0" using len(2) by (simp add: in_range_def ord)
  let ?h' = "?h(slot_addr ref M 0 := slot_of ref M 0 Free)"
  have re: "refines ref ?h ?h' (upd (\<lambda>_ _. Absent) M 0 Free)"
    using refines_upd [OF ok z(1) r] unfolding z(2) .
  have mo: "max_pow_order ref = of_nat M" using ord(1) by (metis max_of_nat)
  have "goto_porder_idx ref (max_pow_order ref) = slot_addr ref M 0"
    unfolding mo using goto_porder_idx_eq [OF ok, of M] len(2) by (simp add: ord)
  moreover have "slot_of ref M 0 Free
      = \<lparr>slot_base = rg_base cr, slot_order = max_pow_order ref, slot_type = UNUSED\<rparr>"
    by (simp add: block_base_def sel mo)
  ultimately have "buddy_init h hr cr = Inr (ref, ?h')"
    using flp2_two_power [OF len(1)] by (simp add: buddy_init_def Let_def) (simp add: ref_def)
  moreover have "kinv (mn ref) (mx ref) (upd (\<lambda>_ _. Absent) M 0 Free)"
    unfolding ord by (rule kinv_single [OF len(2)])
  note inv = refines_invI [OF re ok this]
  moreover have "coal (mn ref) (mx ref) (upd (\<lambda>_ _. Absent) M 0 Free)" by (auto simp: coal_def)
  moreover have "alloc_set (mn ref) (mx ref) (upd (\<lambda>_ _. Absent) M 0 Free) = {}" by (auto simp: alloc_set_def)
  moreover have "tree ref ?h' M 0 = Free" using re by (simp add: refines_def)
  ultimately show ?thesis using ord sel by (intro that [of ref ?h']) simp_all
qed

subsection \<open>The buddy allocator as a block allocator\<close>

definition addr_block :: "buddy_ref_t \<Rightarrow> nat \<times> nat \<Rightarrow> nat set" where
  "addr_block ref b = (+) (unat (cbase ref)) ` block (fst b) (snd b)"

definition live_blocks :: "buddy_ref_t \<Rightarrow> hdr \<Rightarrow> nat set set" where
  "live_blocks ref h = addr_block ref ` used_blocks ref h"

definition content_addrs :: "buddy_ref_t \<Rightarrow> nat set" where
  "content_addrs ref = {unat (cbase ref) ..< unat (cbase ref) + 2 ^ mx ref}"

lemma addr_block_inter: "addr_block ref b \<inter> addr_block ref b' = {} \<longleftrightarrow> block (fst b) (snd b) \<inter> block (fst b') (snd b') = {}"
  by (auto simp: addr_block_def)

lemma addr_block_inj: "buddy_inv ref h \<Longrightarrow> inj_on (addr_block ref) (used_blocks ref h)"
proof (rule inj_onI)
  fix b b' assume h: "buddy_inv ref h" "b \<in> used_blocks ref h" "b' \<in> used_blocks ref h" "addr_block ref b = addr_block ref b'"
  have "addr_block ref b \<inter> addr_block ref b' \<noteq> {}"
    using h(4) block_nonempty [of "snd b" "fst b"] by (auto simp: addr_block_def)
  then show "b = b'"
    using used_blocks_disjoint [OF h(1), of "fst b" "snd b" "fst b'" "snd b'"] h(2,3) by (auto simp: addr_block_inter)
qed

lemma live_blocks_disjoint:
  assumes "buddy_inv ref h" "B \<in> live_blocks ref h" "B' \<in> live_blocks ref h" "B \<noteq> B'"
  shows "B \<inter> B' = {}"
proof -
  from assms(2,3) obtain b b' where b: "b \<in> used_blocks ref h" "B = addr_block ref b" "b' \<in> used_blocks ref h" "B' = addr_block ref b'"
    by (auto simp: live_blocks_def)
  then show ?thesis
    using used_blocks_disjoint [OF assms(1), of "fst b" "snd b" "fst b'" "snd b'"] assms(4)
    by (auto simp: addr_block_inter)
qed

lemma buddy_alloc_Inr:
  assumes inv: "buddy_inv ref h" and al: "buddy_alloc ref h bytes = Inr (h', p)"
  obtains k i where "k = unat (alloc_order ref bytes)" "p = block_base ref k i" "rng ref k i" "buddy_inv ref h'"
    "(k, i) \<notin> used_blocks ref h" "used_blocks ref h' = insert (k, i) (used_blocks ref h)"
    "unat bytes \<le> 2 ^ k" "slot_frame ref h h'" "coalesced ref h \<Longrightarrow> coalesced ref h'"
proof -
  have ok: "ref_ok ref" using inv by (simp add: buddy_inv_def)
  have b: "0 < unat bytes" "unat bytes \<le> 2 ^ mx ref"
    using al ref_okD(7) [OF ok] by (auto simp: buddy_alloc_def word_less_nat_alt unat_gt_0)
  let ?k = "unat (alloc_order ref bytes)"
  have cs: "can_serve ref h ?k" using buddy_alloc_no_memory [OF inv b] al by auto
  from buddy_alloc_ok [OF inv b refl cs] obtain h2 i where
    "buddy_alloc ref h bytes = Inr (h2, block_base ref ?k i)" "rng ref ?k i" "buddy_inv ref h2"
    "(?k, i) \<notin> used_blocks ref h" "used_blocks ref h2 = insert (?k, i) (used_blocks ref h)"
    "coalesced ref h \<Longrightarrow> coalesced ref h2" "slot_frame ref h h2" by blast
  with al alloc_order_spec(3) [OF ok b] show ?thesis by (intro that [of ?k i]) auto
qed

lemma buddy_free_Inr:
  assumes inv: "buddy_inv ref h" and p: "unat p \<in> content_addrs ref" and fr: "buddy_free ref h p = Inr h'"
  obtains k i where "(k, i) \<in> used_blocks ref h" "unat p \<in> addr_block ref (k, i)" "buddy_inv ref h'"
    "used_blocks ref h' = used_blocks ref h - {(k, i)}" "slot_frame ref h h'" "coalesced ref h \<Longrightarrow> coalesced ref h'"
proof -
  define x where "x = unat p - unat (cbase ref)"
  have x: "unat p = unat (cbase ref) + x" "x < 2 ^ mx ref" using p by (auto simp: content_addrs_def x_def)
  have ok: "ref_ok ref" "kinv (mn ref) (mx ref) (tree ref h)" using inv by (auto simp: buddy_inv_def)
  obtain k i where l: "rng ref k i" "tree ref h k i \<in> {Free, Alloc}" "x \<in> block k i"
    using leaf_exists [OF ok(2) ref_okD(2) [OF ok(1)] x(2)] by blast
  have nn: "p \<noteq> NULL" using fr by (auto simp: buddy_free_def)
  have "tree ref h k i = Alloc"
    using find_slot_by_addr_spec [OF inv l(1) _ l(3) x(1)] l(2) fr nn
    by (auto simp: buddy_free_def split: if_splits)
  then have u: "(k, i) \<in> used_blocks ref h" using l(1) by (simp add: used_blocks_iff)
  from buddy_free_ok [OF inv u l(3) x(1) nn] fr show ?thesis
    using that [of k i] u l(3) x(1) by (auto simp: addr_block_def)
qed

interpretation buddy_ba: block_allocator "buddy_inv ref" "live_blocks ref" "content_addrs ref"
  "buddy_alloc ref" "buddy_free ref" for ref
proof
  fix h B assume inv: "buddy_inv ref h" and "B \<in> live_blocks ref h"
  then obtain k i where "rng ref k i" "B = addr_block ref (k, i)" by (auto simp: live_blocks_def used_blocks_iff)
  with block_in_region [of "mn ref" "mx ref" k i] show "B \<subseteq> content_addrs ref" by (auto simp: addr_block_def content_addrs_def)
next
  show "B \<inter> B' = {}" if "buddy_inv ref h" "B \<in> live_blocks ref h" "B' \<in> live_blocks ref h" "B \<noteq> B'" for h B B'
    using live_blocks_disjoint [OF that] .
next
  fix h n h' p assume inv: "buddy_inv ref h" and al: "buddy_alloc ref h n = Inr (h', p)"
  then obtain k i where k: "p = block_base ref k i" "rng ref k i" "buddy_inv ref h'" "(k, i) \<notin> used_blocks ref h"
    "used_blocks ref h' = insert (k, i) (used_blocks ref h)" "unat n \<le> 2 ^ k" by (rule buddy_alloc_Inr)
  have up: "unat p = unat (cbase ref) + i * 2 ^ k"
    unfolding k(1) using k(2) inv by (intro unat_block_base) (simp_all add: buddy_inv_def)
  have "inj_on (addr_block ref) (used_blocks ref h')" by (rule addr_block_inj [OF k(3)])
  then have "addr_block ref (k, i) \<notin> live_blocks ref h"
    using k(4,5) by (auto simp: live_blocks_def inj_on_def)
  moreover have "live_blocks ref h' = insert (addr_block ref (k, i)) (live_blocks ref h)"
    by (simp add: live_blocks_def k(5))
  moreover have "card (addr_block ref (k, i)) = 2 ^ k" "finite (addr_block ref (k, i))"
    by (simp_all add: addr_block_def card_image block_def)
  moreover have "unat p \<in> addr_block ref (k, i)" "\<forall>x \<in> addr_block ref (k, i). unat p \<le> x"
    by (auto simp: addr_block_def up block_def)
  ultimately show "buddy_inv ref h' \<and> (\<exists>B. B \<notin> live_blocks ref h \<and> live_blocks ref h' = insert B (live_blocks ref h)
      \<and> unat p \<in> B \<and> (\<forall>x\<in>B. unat p \<le> x) \<and> finite B \<and> unat n \<le> card B)"
    using k(3,6) by (intro conjI exI [of _ "addr_block ref (k, i)"]) simp_all
next
  fix h p h' assume inv: "buddy_inv ref h" and p: "unat p \<in> content_addrs ref" and fr: "buddy_free ref h p = Inr h'"
  then obtain k i where k: "(k, i) \<in> used_blocks ref h" "unat p \<in> addr_block ref (k, i)" "buddy_inv ref h'"
    "used_blocks ref h' = used_blocks ref h - {(k, i)}" by (rule buddy_free_Inr)
  have "live_blocks ref h' = live_blocks ref h - {addr_block ref (k, i)}"
    unfolding live_blocks_def k(4) using addr_block_inj [OF inv] k(1) by (auto simp: inj_on_def)
  with k show "buddy_inv ref h' \<and> (\<exists>B. B \<in> live_blocks ref h \<and> unat p \<in> B \<and> live_blocks ref h' = live_blocks ref h - {B})"
    by (intro conjI exI [of _ "addr_block ref (k, i)"]) (auto simp: live_blocks_def)
qed

end
