(* ===== verification/Buddy_Pre.thy ===== *)
theory Buddy_Pre
  imports Buddy_Refine
begin

text \<open>
  Reserving a given range with \<open>buddy_pre_alloc\<close> of src/kernel/mm/buddy.c.  On the abstract side,
  \<open>clear_range\<close> says that a range meets no allocated block and contains no split one, \<open>opened\<close> that only
  blocks around the range were split, and \<open>reserved\<close> that the range, and nothing else, became
  allocated.  The walk and the recursion of the code are shown to end with the range reserved.
\<close>

subsection \<open>Ranges of the abstract buddy system\<close>

definition clear_range :: "nat \<Rightarrow> nat \<Rightarrow> bstate \<Rightarrow> nat set \<Rightarrow> bool" where
  "clear_range m M T R \<longleftrightarrow>
     (\<forall>k i. in_range m M k i \<longrightarrow> (T k i = Alloc \<longrightarrow> block k i \<inter> R = {}) \<and> (T k i = Split \<longrightarrow> \<not> block k i \<subseteq> R))"

definition opened :: "nat \<Rightarrow> nat \<Rightarrow> bstate \<Rightarrow> nat set \<Rightarrow> bstate \<Rightarrow> bool" where
  "opened m M T R T' \<longleftrightarrow> kinv m M T'
     \<and> (\<forall>k i. in_range m M k i \<longrightarrow> (T' k i = Alloc \<longleftrightarrow> T k i = Alloc)
          \<and> (T' k i = Split \<longrightarrow> T k i = Split \<or> R \<subset> block k i))"

definition reserved :: "nat \<Rightarrow> nat \<Rightarrow> bstate \<Rightarrow> nat set \<Rightarrow> bstate \<Rightarrow> bool" where
  "reserved m M T R T' \<longleftrightarrow> kinv m M T'
     \<and> (\<forall>k i. in_range m M k i \<longrightarrow> (T k i = Alloc \<longrightarrow> T' k i = Alloc)
          \<and> (T' k i = Alloc \<longrightarrow> T k i = Alloc \<or> block k i \<subseteq> R)
          \<and> (T' k i = Split \<longrightarrow> T k i = Split \<or> block k i \<inter> R \<noteq> {}))
     \<and> (\<forall>x\<in>R. \<exists>k i. in_range m M k i \<and> T' k i = Alloc \<and> x \<in> block k i)"

lemma clear_range_mono: "clear_range m M T R \<Longrightarrow> R' \<subseteq> R \<Longrightarrow> clear_range m M T R'"
  unfolding clear_range_def by blast

lemma clear_range_opened:
  "clear_range m M T R \<Longrightarrow> opened m M T R T' \<Longrightarrow> R' \<subseteq> R \<Longrightarrow> clear_range m M T' R'"
  unfolding clear_range_def opened_def by blast

lemma clear_range_reserved:
  "clear_range m M T R \<Longrightarrow> reserved m M T R' T' \<Longrightarrow> R \<inter> R' = {} \<Longrightarrow> clear_range m M T' R"
  unfolding clear_range_def reserved_def by blast

lemma opened_refl: "kinv m M T \<Longrightarrow> opened m M T R T"
  by (simp add: opened_def)

lemma opened_trans: "opened m M T R T' \<Longrightarrow> opened m M T' R T'' \<Longrightarrow> opened m M T R T''"
  unfolding opened_def by blast

lemma opened_split:
  assumes "kinv m M T" "m \<le> k" "k < M" "j < 2 ^ (M - Suc k)" "T (Suc k) j = Free" "R \<subset> block (Suc k) j"
  shows "opened m M T R (split_node T (Suc k) j)"
proof -
  have "T k (2 * j) = Absent" "T k (Suc (2 * j)) = Absent"
    using kinv_children [OF assms(1-4)] assms(5) by auto
  with assms(5,6) kinv_split [OF assms(1-5)] show ?thesis
    unfolding opened_def by (auto simp: split_node_def)
qed

lemma reserved_opened:
  assumes "opened m M T R T'" "reserved m M T' R T''" "R \<noteq> {}"
  shows "reserved m M T R T''"
  using assms unfolding reserved_def opened_def by blast

lemma reserved_mark:
  assumes "opened m M T R T'" "in_range m M k j" "T' k j = Free" "block k j = R"
  shows "reserved m M T R (upd T' k j Alloc)"
proof (rule reserved_opened [OF assms(1)])
  have "kinv m M (upd T' k j Alloc)" using assms by (intro kinv_mark) (auto simp: opened_def)
  then show "reserved m M T' R (upd T' k j Alloc)"
    using assms(2,3) unfolding reserved_def assms(4) [symmetric] by auto
  show "R \<noteq> {}" using block_nonempty [of j k] assms(4) by blast
qed

lemma reserved_trans:
  assumes "reserved m M T R1 T'" "reserved m M T' R2 T''"
  shows "reserved m M T (R1 \<union> R2) T''"
proof -
  have "\<exists>k i. in_range m M k i \<and> T'' k i = Alloc \<and> x \<in> block k i" if "x \<in> R1 \<union> R2" for x
    using that assms unfolding reserved_def by blast
  moreover have "(T k i = Alloc \<longrightarrow> T'' k i = Alloc)
      \<and> (T'' k i = Alloc \<longrightarrow> T k i = Alloc \<or> block k i \<subseteq> R1 \<union> R2)
      \<and> (T'' k i = Split \<longrightarrow> T k i = Split \<or> block k i \<inter> (R1 \<union> R2) \<noteq> {})" if "in_range m M k i" for k i
    using that assms unfolding reserved_def by blast
  ultimately show ?thesis using assms(2) unfolding reserved_def by simp
qed

lemma reserved_space:
  assumes "reserved m M T R T'"
  shows "(\<exists>k i. in_range m M k i \<and> T' k i = Alloc \<and> x \<in> block k i)
    \<longleftrightarrow> (\<exists>k i. in_range m M k i \<and> T k i = Alloc \<and> x \<in> block k i) \<or> x \<in> R"
  using assms unfolding reserved_def by blast

text \<open>Reserving a range leaves no free buddy pair behind.\<close>

lemma reserved_coal:
  assumes inv: "kinv m M T" and co: "coal m M T" and re: "reserved m M T R T'"
  shows "coal m M T'"
  unfolding coal_def
proof (intro allI impI notI, elim conjE)
  fix k i assume k: "m \<le> k" "k < M" "i < 2 ^ (M - k)" and f: "T' k i = Free" "T' k (sib i) = Free"
  have inv': "kinv m M T'" using re by (simp add: reserved_def)
  have r: "in_range m M k i" "in_range m M k (sib i)" "in_range m M (Suc k) (i div 2)"
    using k sib_range [OF k(2,3)] div2_range [OF k(2,3)] by (auto simp: in_range_def)
  have no_alloc: False if "in_range m M k' i'" "T' k' i' = Alloc" "x \<in> block k' i'" "x \<in> block k i \<or> x \<in> block k (sib i)"
    for k' i' x
    using leaves_disjoint [OF inv' that(1) r(1)] leaves_disjoint [OF inv' that(1) r(2)] that f by fastforce
  have par: "T' (Suc k) (i div 2) = Split" using kinvD(2) [OF inv' k] f by simp
  show False
  proof (cases "T (Suc k) (i div 2) = Split")
    case True
    then have ne: "T k i \<noteq> Absent" "T k (sib i) \<noteq> Absent" using kinvD(2) [OF inv k] kinv_sib [OF inv k] by auto
    have "\<not> (T k i = Free \<and> T k (sib i) = Free)" using co k unfolding coal_def by blast
    then obtain l where l: "l = i \<or> l = sib i" "T k l \<in> {Split, Alloc}"
      using ne by (cases "T k i"; cases "T k (sib i)") auto
    then have "in_range m M k l" using r by auto
    from alloc_below [OF inv co this l(2)] obtain k' i' where a: "in_range m M k' i'" "T k' i' = Alloc" "block k' i' \<subseteq> block k l"
      by blast
    then have "T' k' i' = Alloc" using re by (simp add: reserved_def)
    from no_alloc [OF a(1) this block_nonempty] a(3) l(1) block_nonempty [of i' k'] show False by blast
  next
    case False
    then obtain x where x: "x \<in> block (Suc k) (i div 2)" "x \<in> R" using re r(3) par unfolding reserved_def by blast
    then obtain k' i' where "in_range m M k' i'" "T' k' i' = Alloc" "x \<in> block k' i'" using re unfolding reserved_def by blast
    moreover have "x \<in> block k i \<or> x \<in> block k (sib i)"
      using x(1) unfolding block_halves by (auto simp: sib_def elim: oddE)
    ultimately show False by (rule no_alloc)
  qed
qed

subsection \<open>One round of the walk\<close>

text \<open>The range \<open>off, ..., off + n - 1\<close> of the content region as the code names it.\<close>

definition range_at :: "buddy_ref_t \<Rightarrow> u64 \<Rightarrow> u64 \<Rightarrow> nat \<Rightarrow> nat \<Rightarrow> bool" where
  "range_at ref base_addr len off n \<longleftrightarrow>
     unat base_addr = unat (cbase ref) + off \<and> unat len = n \<and> off + n \<le> 2 ^ mx ref
     \<and> unat (cbase ref) + 2 ^ mx ref < 2 ^ 64"

lemma unat_range_end:
  assumes "range_at ref base_addr len off n"
  shows "unat (base_addr + len) = unat (cbase ref) + off + n"
  using assms by (subst unat_add_small) (auto simp: range_at_def)

lemma block_end:
  "rng ref k i \<Longrightarrow> unat (cbase ref) + 2 ^ mx ref < 2 ^ 64 \<Longrightarrow> unat (cbase ref) + (i + 1) * 2 ^ k < 2 ^ 64"
  using in_range_bound [of "mn ref" "mx ref" k i] by linarith

lemma unat_block_plus:
  assumes "ref_ok ref" "rng ref k i" "unat (cbase ref) + 2 ^ mx ref < 2 ^ 64" "n \<le> k"
  shows "unat (block_base ref k i + of_nat (2 ^ n)) = unat (cbase ref) + i * 2 ^ k + 2 ^ n"
proof -
  have "(2::nat) ^ n \<le> 2 ^ k" using assms(4) by (intro power_increasing) auto
  moreover have "(i + 1) * 2 ^ k = i * 2 ^ k + 2 ^ k" by simp
  ultimately have "unat (cbase ref) + i * 2 ^ k + 2 ^ n < 2 ^ 64" using block_end [OF assms(2,3)] by linarith
  moreover have "unat (of_nat (2 ^ n) :: u64) = 2 ^ n"
    using rngD(4) [OF assms(1,2)] assms(4) by (intro unat_of_nat_pow) simp
  ultimately show ?thesis
    using unat_block_base [OF assms(1,2)] by (subst unat_add_small) simp_all
qed

lemma upow_order:
  assumes "Suc t < 64"
  shows "upow 2 (ucast (of_nat (Suc t) :: u8)) = of_nat (2 ^ Suc t)"
    and "upow 2 (ucast (of_nat (Suc t) :: u8) - 1) = of_nat (2 ^ t)"
proof -
  have c: "ucast (of_nat (Suc t) :: u8) = (of_nat (Suc t) :: u64)" using assms by (intro ucast_u8_of_nat) simp
  show "upow 2 (ucast (of_nat (Suc t) :: u8)) = of_nat (2 ^ Suc t)" unfolding c by (rule upow2 [OF assms])
  have lt: "t < 63" using assms by simp
  show "upow 2 (ucast (of_nat (Suc t) :: u8) - 1) = of_nat (2 ^ t)"
    unfolding ucast_order_pred [OF lt] using lt by (intro upow2) simp
qed

definition walk_choice :: "buddy_ref_t \<Rightarrow> nat \<Rightarrow> nat \<Rightarrow> nat \<Rightarrow> nat \<Rightarrow> hdr \<Rightarrow> walk" where
  "walk_choice ref t j off n h =
     (if off + n \<le> j * 2 ^ Suc t + 2 ^ t then Walk_on h (slot_addr ref t (2 * j))
      else if j * 2 ^ Suc t + 2 ^ t \<le> off then Walk_on h (slot_addr ref t (Suc (2 * j)))
      else Walk_overlap h (slot_addr ref (Suc t) j))"

lemma range_psubset_block:
  assumes "j * 2 ^ k \<le> off" "off + n \<le> (j + 1) * 2 ^ k" "n < 2 ^ k"
  shows "{off ..< off + n} \<subset> block k j"
proof
  show "{off ..< off + n} \<subseteq> block k j" using assms by (auto simp: block_def)
  have "card (block k j) = 2 ^ k" by (simp add: block_def)
  then show "{off ..< off + n} \<noteq> block k j" using assms(3) by (metis add_diff_cancel_left' card_atLeastLessThan less_irrefl)
qed

lemma pre_alloc_round_inner:
  assumes ok: "ref_ok ref" "slots_ok ref h" "kinv (mn ref) (mx ref) (tree ref h)"
    and rg: "range_at ref base_addr len off n" and r: "rng ref (Suc t) j" and t: "mn ref \<le> t" "k \<le> t"
    and sub: "j * 2 ^ Suc t \<le> off" "off + n \<le> (j + 1) * 2 ^ Suc t" "n < 2 ^ Suc t"
    and T: "tree ref h (Suc t) j = Free \<or> tree ref h (Suc t) j = Split"
  shows "\<exists>h'. pre_alloc_round ref base_addr len (of_nat k) (slot_addr ref (Suc t) j) h = walk_choice ref t j off n h'
    \<and> refines ref h h' (tree ref h') \<and> tree ref h' (Suc t) j = Split
    \<and> opened (mn ref) (mx ref) (tree ref h) {off ..< off + n} (tree ref h')"
proof -
  let ?p = "slot_addr ref (Suc t) j"
  have st: "Suc t < 64" by (rule rngD(4) [OF ok(1) r])
  have strict: "unat (cbase ref) + 2 ^ mx ref < 2 ^ 64" using rg by (simp add: range_at_def)
  have s: "slot_order (h ?p) = of_nat (Suc t)" "slot_base (h ?p) = block_base ref (Suc t) j"
    using slot_at [OF ok(2) r] T by auto
  have gt: "(of_nat k :: u8) < of_nat (Suc t)" using t st by (subst u8_of_nat_cmp) auto
  note ub = unat_block_plus [OF ok(1) r strict]
  have base: "unat base_addr = unat (cbase ref) + off" using rg by (simp add: range_at_def)
  have c12: "block_base ref (Suc t) j \<le> base_addr \<and> base_addr + len \<le> block_base ref (Suc t) j + of_nat (2 ^ Suc t)"
    unfolding word_le_nat_alt ub [OF order.refl] unat_range_end [OF rg] unat_block_base [OF ok(1) r] base
    using sub by simp
  have c3: "base_addr + len \<le> block_base ref (Suc t) j + of_nat (2 ^ t) \<longleftrightarrow> off + n \<le> j * 2 ^ Suc t + 2 ^ t"
    unfolding word_le_nat_alt ub [OF le_SucI, OF order.refl] unat_range_end [OF rg] by simp
  have c4: "block_base ref (Suc t) j + of_nat (2 ^ t) \<le> base_addr \<longleftrightarrow> j * 2 ^ Suc t + 2 ^ t \<le> off"
    unfolding word_le_nat_alt ub [OF le_SucI, OF order.refl] base by simp
  note up = upow_order [OF st]
  have choice: "(if base_addr + len \<le> slot_base (h' ?p) + of_nat (2 ^ t) then Walk_on h' (goto_left_child ref h' ?p)
       else if slot_base (h' ?p) + of_nat (2 ^ t) \<le> base_addr then Walk_on h' (goto_right_child ref h' ?p)
       else Walk_overlap h' ?p) = walk_choice ref t j off n h'" if h': "slots_ok ref h'" "tree ref h' (Suc t) j = Split" for h'
  proof -
    have s': "slot_order (h' ?p) = of_nat (Suc t)" "slot_base (h' ?p) = block_base ref (Suc t) j"
      using slot_at [OF h'(1) r] h'(2) by auto
    show ?thesis
      unfolding s'(2) c3 c4 goto_children_eq [where h = h', OF ok(1) r t(1) s'(1)] walk_choice_def ..
  qed
  show ?thesis
  proof (cases "tree ref h (Suc t) j = Split")
    case True
    then have "slot_type (h ?p) = SPLIT" using slot_at [OF ok(2) r] by simp
    then have "pre_alloc_round ref base_addr len (of_nat k) ?p h = walk_choice ref t j off n h"
      using choice [OF ok(2) True] c12 gt unfolding pre_alloc_round_def Let_def s up by simp
    then show ?thesis using True refines_refl [OF ok(2)] opened_refl [OF ok(3)] by blast
  next
    case False
    with T have F: "tree ref h (Suc t) j = Free" by simp
    let ?h = "split_slot ref h ?p"
    have re: "refines ref h ?h (split_node (tree ref h) (Suc t) j)"
      by (rule split_slot_refines [OF ok(1,2) r t(1) F])
    then have h': "slots_ok ref ?h" "tree ref ?h = split_node (tree ref h) (Suc t) j" by (auto simp: refines_def)
    have sp: "tree ref ?h (Suc t) j = Split" unfolding h'(2) by (simp add: split_node_def)
    have b': "slot_base (?h ?p) = block_base ref (Suc t) j" using slot_at [OF h'(1) r] sp by simp
    have "slot_type (h ?p) = UNUSED" using slot_at [OF ok(2) r] F by simp
    then have "pre_alloc_round ref base_addr len (of_nat k) ?p h = walk_choice ref t j off n ?h"
      using choice [OF h'(1) sp] c12 gt b' unfolding pre_alloc_round_def Let_def s up by simp
    moreover have "opened (mn ref) (mx ref) (tree ref h) {off ..< off + n} (tree ref ?h)"
      unfolding h'(2) using r t range_psubset_block [OF sub] F by (intro opened_split ok) (auto simp: in_range_def)
    ultimately show ?thesis using re sp h'(2) by (intro exI [of _ ?h]) simp
  qed
qed

lemma pre_alloc_round_fit:
  assumes ok: "ref_ok ref" "slots_ok ref h" and rg: "range_at ref base_addr len (j * 2 ^ k) (2 ^ k)"
    and r: "rng ref k j" and F: "tree ref h k j = Free"
  shows "pre_alloc_round ref base_addr len (of_nat k) (slot_addr ref k j) h
    = Walk_return (h(slot_addr ref k j := slot_of ref k j Alloc))"
proof -
  have strict: "unat (cbase ref) + 2 ^ mx ref < 2 ^ 64" using rg by (simp add: range_at_def)
  have hs: "h (slot_addr ref k j) = slot_of ref k j Free" using slot_at [OF ok(2) r] F by simp
  have u: "upow 2 (ucast (of_nat k :: u8)) = of_nat (2 ^ k)"
    using upow2 [of k] ucast_u8_of_nat [of k] rngD(4) [OF ok(1) r] by simp
  have base: "base_addr = block_base ref k j"
    using rg unat_block_base [OF ok(1) r] by (simp add: range_at_def word_unat_eq_iff)
  have "base_addr + len \<le> block_base ref k j + of_nat (2 ^ k)"
    unfolding word_le_nat_alt unat_range_end [OF rg] unat_block_plus [OF ok(1) r strict order.refl] by simp
  then show ?thesis
    unfolding pre_alloc_round_def Let_def hs by (simp add: u [simplified] base)
qed

subsection \<open>The walk\<close>

definition walk_done :: "buddy_ref_t \<Rightarrow> hdr \<Rightarrow> nat set \<Rightarrow> hdr \<Rightarrow> bool" where
  "walk_done ref h R h' \<longleftrightarrow> refines ref h h' (tree ref h') \<and> reserved (mn ref) (mx ref) (tree ref h) R (tree ref h')"

definition walk_split :: "buddy_ref_t \<Rightarrow> hdr \<Rightarrow> nat \<Rightarrow> nat \<Rightarrow> hdr \<Rightarrow> nat \<Rightarrow> nat \<Rightarrow> bool" where
  "walk_split ref h off n h' t j \<longleftrightarrow>
     refines ref h h' (tree ref h') \<and> opened (mn ref) (mx ref) (tree ref h) {off ..< off + n} (tree ref h')
     \<and> rng ref (Suc t) j \<and> mn ref \<le> t \<and> tree ref h' (Suc t) j = Split
     \<and> off < j * 2 ^ Suc t + 2 ^ t \<and> j * 2 ^ Suc t + 2 ^ t < off + n"

lemma pre_alloc_walk_spec:
  assumes ok: "ref_ok ref" and rg: "range_at ref base_addr len off (2 ^ k)" and k: "mn ref \<le> k"
    and cl: "clear_range (mn ref) (mx ref) (tree ref h0) {off ..< off + 2 ^ k}"
  shows "refines ref h0 h (tree ref h)
    \<Longrightarrow> opened (mn ref) (mx ref) (tree ref h0) {off ..< off + 2 ^ k} (tree ref h)
    \<Longrightarrow> rng ref (k + d) j \<Longrightarrow> tree ref h (k + d) j \<noteq> Absent
    \<Longrightarrow> j * 2 ^ (k + d) \<le> off \<Longrightarrow> off + 2 ^ k \<le> (j + 1) * 2 ^ (k + d)
    \<Longrightarrow> (\<exists>h'. pre_alloc_walk ref base_addr len (of_nat k) (slot_addr ref (k + d) j) h = Some (Walk_return h')
            \<and> walk_done ref h0 {off ..< off + 2 ^ k} h')
      \<or> (\<exists>h' t j'. pre_alloc_walk ref base_addr len (of_nat k) (slot_addr ref (k + d) j) h
              = Some (Walk_overlap h' (slot_addr ref (Suc t) j'))
            \<and> walk_split ref h0 off (2 ^ k) h' t j')"
proof (induction d arbitrary: h j)
  case 0
  let ?R = "{off ..< off + 2 ^ k}"
  have off: "off = j * 2 ^ k" using 0(5,6) by simp
  have R: "block k j = ?R" by (simp add: block_def off add.commute)
  have rk: "rng ref k j" and s: "slots_ok ref h" using 0 by (auto simp: refines_def)
  have "tree ref h k j = Free"
  proof (cases "tree ref h k j")
    case Split
    with 0(2) cl rk R show ?thesis unfolding opened_def clear_range_def by blast
  next
    case Alloc
    with 0(2) cl rk R block_nonempty [of j k] show ?thesis unfolding opened_def clear_range_def by blast
  qed (use 0(4) in simp_all)
  note F = this
  let ?h = "h(slot_addr ref k j := slot_of ref k j Alloc)"
  have re: "refines ref h0 ?h (upd (tree ref h) k j Alloc)" by (rule refines_step [OF ok 0(1) rk])
  then have "tree ref ?h = upd (tree ref h) k j Alloc" by (simp add: refines_def)
  with re reserved_mark [OF 0(2) rk F R] have "walk_done ref h0 ?R ?h" unfolding walk_done_def by simp
  moreover have "pre_alloc_walk ref base_addr len (of_nat k) (slot_addr ref k j) h = Some (Walk_return ?h)"
    using pre_alloc_round_fit [OF ok s rg [unfolded off] rk F] by (subst pre_alloc_walk.simps) (simp only: walk.case)
  ultimately show ?case by auto
next
  case (Suc d)
  let ?t = "k + d" and ?R = "{off ..< off + 2 ^ k}"
  have s: "slots_ok ref h" "kinv (mn ref) (mx ref) (tree ref h)"
    using Suc.prems(1,2) by (auto simp: refines_def opened_def)
  have r: "rng ref (Suc ?t) j" and sub: "j * 2 ^ Suc ?t \<le> off" "off + 2 ^ k \<le> (j + 1) * 2 ^ Suc ?t"
    using Suc.prems by simp_all
  have lt: "(2::nat) ^ k < 2 ^ Suc ?t" by (rule power_strict_increasing) auto
  have "tree ref h (Suc ?t) j \<noteq> Alloc"
  proof
    assume "tree ref h (Suc ?t) j = Alloc"
    then have "block (Suc ?t) j \<inter> ?R = {}" using Suc.prems(2) cl r unfolding opened_def clear_range_def by blast
    moreover have "off \<in> ?R" by simp
    ultimately show False using range_psubset_block [OF sub lt] by blast
  qed
  then have T: "tree ref h (Suc ?t) j = Free \<or> tree ref h (Suc ?t) j = Split"
    using Suc.prems(4) by (cases "tree ref h (Suc ?t) j") auto
  have t: "mn ref \<le> ?t" "k \<le> ?t" using k by auto
  from pre_alloc_round_inner [OF ok s rg r t sub lt T] obtain h' where
    rd: "pre_alloc_round ref base_addr len (of_nat k) (slot_addr ref (Suc ?t) j) h = walk_choice ref ?t j off (2 ^ k) h'"
    and re: "refines ref h h' (tree ref h')" and sp: "tree ref h' (Suc ?t) j = Split"
    and op: "opened (mn ref) (mx ref) (tree ref h) ?R (tree ref h')" by blast
  note re' = refines_trans [OF Suc.prems(1) re] and op' = opened_trans [OF Suc.prems(2) op]
  have ch: "rng ref ?t (2 * j)" "rng ref ?t (Suc (2 * j))" "tree ref h' ?t (2 * j) \<noteq> Absent" "tree ref h' ?t (Suc (2 * j)) \<noteq> Absent"
    using rng_down [OF r t(1)] kinv_children [of "mn ref" "mx ref" "tree ref h'" ?t j] op sp r t(1)
    by (auto simp: opened_def in_range_def)
  have mid: "j * 2 ^ Suc ?t = 2 * j * 2 ^ ?t" "(j + 1) * 2 ^ Suc ?t = (2 * j + 2) * 2 ^ ?t" by simp_all
  have step: "pre_alloc_walk ref base_addr len (of_nat k) (slot_addr ref (k + Suc d) j) h
      = (case walk_choice ref ?t j off (2 ^ k) h' of
        Walk_on h idx \<Rightarrow> pre_alloc_walk ref base_addr len (of_nat k) idx h | w \<Rightarrow> Some w)"
    unfolding add_Suc_right by (subst pre_alloc_walk.simps, unfold rd) (simp split: walk.split)
  consider (l) "off + 2 ^ k \<le> 2 * j * 2 ^ ?t + 2 ^ ?t" | (rr) "2 * j * 2 ^ ?t + 2 ^ ?t \<le> off" "\<not> off + 2 ^ k \<le> 2 * j * 2 ^ ?t + 2 ^ ?t"
    | (ov) "off < 2 * j * 2 ^ ?t + 2 ^ ?t" "2 * j * 2 ^ ?t + 2 ^ ?t < off + 2 ^ k" by linarith
  then show ?case
  proof cases
    case l
    then have "walk_choice ref ?t j off (2 ^ k) h' = Walk_on h' (slot_addr ref ?t (2 * j))"
      by (simp only: walk_choice_def mid if_True)
    with Suc.IH [OF re' op' ch(1,3)] l sub(1) show ?thesis unfolding step mid(1) by (simp add: algebra_simps)
  next
    case rr
    then have "walk_choice ref ?t j off (2 ^ k) h' = Walk_on h' (slot_addr ref ?t (Suc (2 * j)))"
      by (simp only: walk_choice_def mid if_True if_False)
    with Suc.IH [OF re' op' ch(2,4)] rr sub(2) show ?thesis unfolding step mid by (simp add: algebra_simps)
  next
    case ov
    then have "walk_choice ref ?t j off (2 ^ k) h' = Walk_overlap h' (slot_addr ref (Suc ?t) j)"
      by (simp add: walk_choice_def not_le algebra_simps)
    moreover have "walk_split ref h0 off (2 ^ k) h' ?t j"
      unfolding walk_split_def mid(1) using re' op' r t(1) sp ov by blast
    ultimately show ?thesis unfolding step by auto
  qed
qed

subsection \<open>The recursion\<close>

definition pages_up :: "nat \<Rightarrow> nat" where
  "pages_up n = (n + 2 ^ 12 - 1) div 2 ^ 12 * 2 ^ 12"

lemma pages_up_bounds: "n \<le> pages_up n" "pages_up n < n + 2 ^ 12" "2 ^ 12 dvd pages_up n"
  using div_round_up [of "2 ^ 12" n] by (simp_all add: pages_up_def)

lemma pages_up_dvd:
  assumes "2 ^ 12 dvd n"
  shows "pages_up n = n"
proof -
  from assms obtain q where "n = 2 ^ 12 * q" by (rule dvdE)
  then show ?thesis by (simp add: pages_up_def)
qed

lemma walk_done_trans:
  assumes "walk_done ref h R1 h1" "walk_done ref h1 R2 h2"
  shows "walk_done ref h (R1 \<union> R2) h2"
  using assms reserved_trans refines_trans unfolding walk_done_def by blast

text \<open>A call of \<open>buddy_pre_alloc\<close> whose range is not a power of two long, and one whose range is.\<close>

lemma buddy_pre_alloc_unfold:
  assumes ok: "ref_ok ref" and base: "unat base_addr = unat (cbase ref) + off" and len0: "0 < unat len0"
    and n: "n = pages_up (unat len0)" "n \<le> 2 ^ mx ref" and g: "2 ^ g \<le> n" "n < 2 ^ (g + 1)"
  shows "unat (round_up_po2 len0 BUDDY_ALLOC_SMALLEST_BLOCK) = n"
    and "n \<noteq> 2 ^ g \<Longrightarrow> buddy_pre_alloc ref base_addr len0 h =
       Option.bind (buddy_pre_alloc ref base_addr (of_nat (2 ^ g)) h)
         (\<lambda>r. case r of Inl e \<Rightarrow> Some (Inl e)
              | Inr h \<Rightarrow> buddy_pre_alloc ref (base_addr + of_nat (2 ^ g)) (of_nat (n - 2 ^ g)) h)"
    and "n = 2 ^ g \<Longrightarrow> mn ref \<le> g \<Longrightarrow> buddy_pre_alloc ref base_addr len0 h =
       Option.bind (pre_alloc_walk ref base_addr (of_nat n) (of_nat g) (slot_addr ref (mx ref) 0) h)
         (\<lambda>w. case w of
            Walk_bug \<Rightarrow> Some (Inl (Bug_on ''buddy_pre_alloc''))
          | Walk_return h \<Rightarrow> Some (Inr h)
          | Walk_on h idx \<Rightarrow> None
          | Walk_overlap h idx \<Rightarrow>
              (let mid = slot_base (h idx) + upow 2 (ucast (slot_order (h idx)) - 1)
               in Option.bind (buddy_pre_alloc ref base_addr (mid - base_addr) h)
                    (\<lambda>r. case r of Inl e \<Rightarrow> Some (Inl e)
                         | Inr h \<Rightarrow> buddy_pre_alloc ref mid (base_addr + of_nat n - mid) h)))"
proof -
  let ?len = "round_up_po2 len0 BUDDY_ALLOC_SMALLEST_BLOCK"
  have M: "mx ref < 64" by (rule ref_okD(3) [OF ok])
  then have M63: "(2::nat) ^ mx ref \<le> 2 ^ 63" by (intro power_increasing) auto
  have le: "unat len0 \<le> n" unfolding n(1) by (rule pages_up_bounds)
  have blk: "BUDDY_ALLOC_SMALLEST_BLOCK = 2 ^ 12" by (simp add: BUDDY_ALLOC_SMALLEST_BLOCK_def)
  have ln: "unat ?len = n"
    unfolding n(1) pages_up_def blk using le n(2) M63 by (intro unat_round_up_po2) (auto intro: order_trans)
  then show "unat ?len = n" .
  have len: "?len = of_nat n" unfolding ln [symmetric] by simp
  have "(2::nat) ^ g \<le> 2 ^ mx ref" using g(1) n(2) by linarith
  then have gM: "g \<le> mx ref" by simp
  have g63: "g \<le> 63" using gM M by simp
  have guard: "\<not> (len0 = 0 \<or> len0 > rg_length (content_mem_reg ref) \<or> base_addr < cbase ref)"
    using len0 le n(2) base ref_okD(7) [OF ok] by (auto simp: word_less_nat_alt)
  have u2: "unat (of_nat (2 ^ g) :: u64) = 2 ^ g" using g63 by (intro unat_of_nat_pow) simp
  have fl: "flp2 ?len = of_nat (2 ^ g)"
    using flp2_power [of g ?len] g ln g63 by simp
  show "buddy_pre_alloc ref base_addr len0 h =
       Option.bind (buddy_pre_alloc ref base_addr (of_nat (2 ^ g)) h)
         (\<lambda>r. case r of Inl e \<Rightarrow> Some (Inl e)
              | Inr h \<Rightarrow> buddy_pre_alloc ref (base_addr + of_nat (2 ^ g)) (of_nat (n - 2 ^ g)) h)" if ne: "n \<noteq> 2 ^ g"
  proof -
    have lt: "2 ^ g < n" using ne g(1) by simp
    then have "(2::nat) ^ g < 2 ^ 63" using n(2) M63 by linarith
    then have "g < 63" by (simp only: power_strict_increasing_iff)
    then have "unat (clp2 ?len) = 2 ^ (g + 1)"
      using clp2_power [of g ?len] lt g(2) ln unat_two_power [of "g + 1", where 'a = 64] by simp
    then have "?len \<noteq> clp2 ?len" using ln g(2) by auto
    moreover have "?len - flp2 ?len = of_nat (n - 2 ^ g)" unfolding fl unfolding len using g(1) by (simp add: of_nat_diff)
    ultimately show ?thesis
      using guard fl by (subst buddy_pre_alloc.simps) (simp add: Let_def)
  qed
  show "buddy_pre_alloc ref base_addr len0 h =
       Option.bind (pre_alloc_walk ref base_addr (of_nat n) (of_nat g) (slot_addr ref (mx ref) 0) h)
         (\<lambda>w. case w of
            Walk_bug \<Rightarrow> Some (Inl (Bug_on ''buddy_pre_alloc''))
          | Walk_return h \<Rightarrow> Some (Inr h)
          | Walk_on h idx \<Rightarrow> None
          | Walk_overlap h idx \<Rightarrow>
              (let mid = slot_base (h idx) + upow 2 (ucast (slot_order (h idx)) - 1)
               in Option.bind (buddy_pre_alloc ref base_addr (mid - base_addr) h)
                    (\<lambda>r. case r of Inl e \<Rightarrow> Some (Inl e)
                         | Inr h \<Rightarrow> buddy_pre_alloc ref mid (base_addr + of_nat n - mid) h)))"
    if eq: "n = 2 ^ g" and mg: "mn ref \<le> g"
  proof -
    have g1: "1 \<le> g" using mg ref_okD(1) [OF ok] by simp
    then have "clp2 ?len = 2 ^ (g - 1 + 1)"
      using g63 eq ln by (intro clp2_power) (auto intro: power_strict_increasing)
    then have "?len = clp2 ?len" using g1 len eq by simp
    moreover have "pre_alloc_order ref ?len = of_nat g"
    proof -
      have "unat (ilog2 ?len) = g" using ln eq by (intro ilog2_two_power) simp
      then have "unat (ucast (ilog2 ?len) :: u8) = g" using g63 by (simp add: unat_ucast_order)
      then show ?thesis
        using mg g63 by (auto simp: pre_alloc_order_def Let_def word_less_nat_alt word_unat_eq_iff word_nat)
    qed
    moreover have "goto_porder_idx ref (max_pow_order ref) = slot_addr ref (mx ref) 0"
      using goto_porder_idx_eq [OF ok, of "mx ref"] ref_okD(2) [OF ok] by simp
    ultimately show ?thesis
      using guard unfolding buddy_pre_alloc.simps [of ref base_addr len0] Let_def len by simp
  qed
qed

definition pre_ready :: "buddy_ref_t \<Rightarrow> hdr \<Rightarrow> u64 \<Rightarrow> nat \<Rightarrow> nat \<Rightarrow> bool" where
  "pre_ready ref h base_addr off n \<longleftrightarrow>
     slots_ok ref h \<and> kinv (mn ref) (mx ref) (tree ref h) \<and> unat base_addr = unat (cbase ref) + off
     \<and> 2 ^ 12 dvd off \<and> off + n \<le> 2 ^ mx ref \<and> clear_range (mn ref) (mx ref) (tree ref h) {off ..< off + n}"

lemma pre_ready_next:
  assumes "pre_ready ref h base_addr off n" "walk_done ref h {off ..< mid} h'" "off \<le> mid" "mid \<le> off + n"
    and "2 ^ 12 dvd mid" "unat base' = unat (cbase ref) + mid"
  shows "pre_ready ref h' base' mid (off + n - mid)"
proof -
  have "clear_range (mn ref) (mx ref) (tree ref h) {mid ..< off + n}"
    using assms(1,3) by (auto simp: pre_ready_def intro: clear_range_mono)
  then have "clear_range (mn ref) (mx ref) (tree ref h') {mid ..< off + n}"
    by (rule clear_range_reserved) (use assms(2) in \<open>auto simp: walk_done_def\<close>)
  then show ?thesis using assms by (auto simp: pre_ready_def walk_done_def refines_def reserved_def)
qed

text \<open>The two recursive calls, on the parts of a range below and above \<open>mid\<close>.\<close>

lemma pre_alloc_two_calls:
  assumes rdy: "pre_ready ref h base_addr off n" and mid: "off < mid" "mid < off + n" "2 ^ 12 dvd mid" "2 ^ 12 dvd n"
    and w: "unat l1 = mid - off" "unat l2 = off + n - mid" "unat base' = unat (cbase ref) + mid"
    and IH: "\<And>h base_addr off n' len0. n' < n \<Longrightarrow> pre_ready ref h base_addr off n' \<Longrightarrow> 0 < unat len0
      \<Longrightarrow> n' = pages_up (unat len0)
      \<Longrightarrow> \<exists>h'. buddy_pre_alloc ref base_addr len0 h = Some (Inr h') \<and> walk_done ref h {off ..< off + n'} h'"
  shows "\<exists>h'. Option.bind (buddy_pre_alloc ref base_addr l1 h)
         (\<lambda>r. case r of Inl e \<Rightarrow> Some (Inl e) | Inr h \<Rightarrow> buddy_pre_alloc ref base' l2 h) = Some (Inr h')
       \<and> walk_done ref h {off ..< off + n} h'"
proof -
  have od: "2 ^ 12 dvd off" using rdy by (simp add: pre_ready_def)
  have p1: "mid - off = pages_up (unat l1)" unfolding w(1) by (rule pages_up_dvd [OF dvd_diff_nat [OF mid(3) od], symmetric])
  have p2: "off + n - mid = pages_up (unat l2)"
    unfolding w(2) by (rule pages_up_dvd [OF dvd_diff_nat [OF dvd_add [OF od mid(4)] mid(3)], symmetric])
  have lt: "mid - off < n" "off + n - mid < n" "0 < unat l1" "0 < unat l2" using mid(1,2) w by linarith+
  have e: "off + (mid - off) = mid" "mid + (off + n - mid) = off + n" using mid(1,2) by linarith+
  have "pre_ready ref h base_addr off (mid - off)"
    using rdy mid(1,2) by (auto simp: pre_ready_def intro: clear_range_mono)
  from IH [OF lt(1) this lt(3) p1] obtain h1 where h1: "buddy_pre_alloc ref base_addr l1 h = Some (Inr h1)"
      "walk_done ref h {off ..< mid} h1" unfolding e by blast
  have "pre_ready ref h1 base' mid (off + n - mid)"
    using pre_ready_next [OF rdy h1(2) _ _ mid(3) w(3)] mid(1,2) by simp
  from IH [OF lt(2) this lt(4) p2] obtain h2 where h2: "buddy_pre_alloc ref base' l2 h1 = Some (Inr h2)"
      "walk_done ref h1 {mid ..< off + n} h2" unfolding e by blast
  have "{off ..< mid} \<union> {mid ..< off + n} = {off ..< off + n}" using mid(1,2) by auto
  with walk_done_trans [OF h1(2) h2(2)] h1(1) h2(1) show ?thesis by simp
qed

text \<open>
  A range of a power-of-two length: the walk either fits it or finds the middle it crosses, and then
  \<open>pre_alloc_rest\<close>, the code after the label \<open>overlapping_block\<close>, reserves the two parts.
\<close>

definition pre_alloc_rest :: "buddy_ref_t \<Rightarrow> u64 \<Rightarrow> u64 \<Rightarrow> addr \<Rightarrow> hdr \<Rightarrow> hdr kres option" where
  "pre_alloc_rest ref base_addr len idx h =
     (let mid = slot_base (h idx) + upow 2 (ucast (slot_order (h idx)) - 1)
      in Option.bind (buddy_pre_alloc ref base_addr (mid - base_addr) h)
           (\<lambda>r. case r of Inl e \<Rightarrow> Some (Inl e)
                | Inr h \<Rightarrow> buddy_pre_alloc ref mid (base_addr + len - mid) h))"

lemma pre_alloc_overlap:
  assumes ok: "ref_ok ref" "mn ref = 12" and rg: "range_at ref base_addr len off n"
    and rdy: "pre_ready ref h base_addr off n" and n: "2 ^ 12 dvd n"
    and ws: "walk_split ref h off n h' t j"
    and IH: "\<And>h base_addr off n' len0. n' < n \<Longrightarrow> pre_ready ref h base_addr off n' \<Longrightarrow> 0 < unat len0
      \<Longrightarrow> n' = pages_up (unat len0)
      \<Longrightarrow> \<exists>h'. buddy_pre_alloc ref base_addr len0 h = Some (Inr h') \<and> walk_done ref h {off ..< off + n'} h'"
  shows "\<exists>h2. pre_alloc_rest ref base_addr len (slot_addr ref (Suc t) j) h' = Some (Inr h2)
    \<and> walk_done ref h {off ..< off + n} h2"
proof -
  define mid where "mid = j * 2 ^ Suc t + 2 ^ t"
  have re: "refines ref h h' (tree ref h')"
    and op: "opened (mn ref) (mx ref) (tree ref h) {off ..< off + n} (tree ref h')"
    and r: "rng ref (Suc t) j" "mn ref \<le> t" "tree ref h' (Suc t) j = Split"
    and mid: "off < mid" "mid < off + n"
    using ws unfolding walk_split_def mid_def by blast+
  have strict: "unat (cbase ref) + 2 ^ mx ref < 2 ^ 64" and base: "unat base_addr = unat (cbase ref) + off"
    using rg by (simp_all add: range_at_def)
  have s': "slots_ok ref h'" using re by (simp add: refines_def)
  have st: "Suc t < 64" by (rule rngD(4) [OF ok(1) r(1)])
  have sl: "slot_base (h' (slot_addr ref (Suc t) j)) = block_base ref (Suc t) j"
    "slot_order (h' (slot_addr ref (Suc t) j)) = of_nat (Suc t)"
    using slot_at [OF s' r(1)] r(3) by simp_all
  let ?mid = "block_base ref (Suc t) j + of_nat (2 ^ t)"
  have um: "unat ?mid = unat (cbase ref) + mid"
    using unat_block_plus [OF ok(1) r(1) strict, of t] by (simp add: mid_def)
  have w: "unat (?mid - base_addr) = mid - off" "unat (base_addr + len - ?mid) = off + n - mid"
    using um unat_range_end [OF rg] base mid by (simp_all add: unat_sub_small)
  have "clear_range (mn ref) (mx ref) (tree ref h') {off ..< off + n}"
    using rdy by (intro clear_range_opened [OF _ op order.refl]) (simp add: pre_ready_def)
  then have rdy': "pre_ready ref h' base_addr off n"
    using rdy s' op by (simp add: pre_ready_def opened_def)
  have "2 ^ 12 dvd (2::nat) ^ t" using r(2) ok(2) by (intro le_imp_power_dvd) simp
  then have d: "2 ^ 12 dvd mid" unfolding mid_def by (intro dvd_add) (auto intro: dvd_mult)
  from pre_alloc_two_calls [OF rdy' mid d n w um IH] obtain h2 where
    h2: "pre_alloc_rest ref base_addr len (slot_addr ref (Suc t) j) h' = Some (Inr h2)"
      "walk_done ref h' {off ..< off + n} h2"
    unfolding pre_alloc_rest_def Let_def sl upow_order [OF st] by blast
  have "{off ..< off + n} \<noteq> {}" using mid by auto
  then have "walk_done ref h {off ..< off + n} h2"
    using h2(2) refines_trans [OF re] reserved_opened [OF op] unfolding walk_done_def by blast
  with h2(1) show ?thesis by blast
qed

lemma pre_alloc_power:
  assumes ok: "ref_ok ref" "mn ref = 12" and rg: "range_at ref base_addr len off n"
    and rdy: "pre_ready ref h base_addr off n" and n: "n = 2 ^ g" "12 \<le> g"
  shows "(\<exists>h'. pre_alloc_walk ref base_addr len (of_nat g) (slot_addr ref (mx ref) 0) h = Some (Walk_return h')
            \<and> walk_done ref h {off ..< off + n} h')
      \<or> (\<exists>h' t j'. pre_alloc_walk ref base_addr len (of_nat g) (slot_addr ref (mx ref) 0) h
              = Some (Walk_overlap h' (slot_addr ref (Suc t) j')) \<and> walk_split ref h off n h' t j')"
proof -
  have f: "slots_ok ref h" "kinv (mn ref) (mx ref) (tree ref h)" "off + n \<le> 2 ^ mx ref"
    "clear_range (mn ref) (mx ref) (tree ref h) {off ..< off + 2 ^ g}"
    using rdy n by (auto simp: pre_ready_def)
  have "(2::nat) ^ g \<le> 2 ^ mx ref" using f(3) n(1) by linarith
  then have gM: "g + (mx ref - g) = mx ref" by simp
  have "rng ref (mx ref) 0" using ref_okD(2) [OF ok(1)] by (simp add: in_range_def)
  then show ?thesis
    using pre_alloc_walk_spec [OF ok(1) rg [unfolded n(1)] _ f(4) refines_refl [OF f(1)] opened_refl [OF f(2)],
        of "mx ref - g" 0, unfolded gM] n(2) ok(2) kinvD(1) [OF f(2)] f(3) unfolding n(1) by simp
qed

lemma buddy_pre_alloc_main:
  assumes ok: "ref_ok ref" "mn ref = 12" and strict: "unat (cbase ref) + 2 ^ mx ref < 2 ^ 64"
  shows "pre_ready ref h base_addr off n \<Longrightarrow> 0 < unat len0 \<Longrightarrow> n = pages_up (unat len0)
    \<Longrightarrow> \<exists>h'. buddy_pre_alloc ref base_addr len0 h = Some (Inr h') \<and> walk_done ref h {off ..< off + n} h'"
proof (induction n arbitrary: h base_addr off len0 rule: less_induct)
  case (less n)
  have base: "unat base_addr = unat (cbase ref) + off" and offn: "off + n \<le> 2 ^ mx ref"
    using less.prems(1) by (auto simp: pre_ready_def)
  have n0: "0 < n" and nd: "2 ^ 12 dvd n" using less.prems(2,3) pages_up_bounds [of "unat len0"] by auto
  then have n12: "2 ^ 12 \<le> n" by (intro dvd_imp_le)
  have nM: "n \<le> 2 ^ mx ref" using offn by simp
  obtain g where g: "2 ^ g \<le> n" "n < 2 ^ (g + 1)" using floor_log2_ex [OF n0] by auto
  have "(2::nat) ^ 12 < 2 ^ (g + 1)" using n12 g(2) by linarith
  then have "12 < g + 1" by (simp only: power_strict_increasing_iff)
  then have g12: "12 \<le> g" by simp
  have M: "n < 2 ^ 64" using nM strict by linarith
  have small: "unat (of_nat x :: u64) = x" if "x \<le> n" for x
    using that M by (intro unat_of_nat_small) simp
  note un = buddy_pre_alloc_unfold [OF ok(1) base less.prems(2,3) nM g]
  show ?case
  proof (cases "n = 2 ^ g")
    case False
    then have lt: "2 ^ g < n" using g(1) by simp
    have b: "unat (base_addr + of_nat (2 ^ g)) = unat (cbase ref) + (off + 2 ^ g)"
    proof -
      have "unat base_addr + unat (of_nat (2 ^ g) :: u64) < 2 ^ LENGTH(64)"
        unfolding small [OF g(1)] base using offn lt strict by simp
      from unat_add_small [OF this] show ?thesis unfolding small [OF g(1)] base by simp
    qed
    have d: "2 ^ 12 dvd off + 2 ^ g"
      using less.prems(1) le_imp_power_dvd [OF g12, of "2::nat"] by (simp add: pre_ready_def)
    show ?thesis
      unfolding un(2) [OF False]
      by (rule pre_alloc_two_calls [OF less.prems(1) _ _ d nd _ _ b less.IH])
        (use lt small [OF g(1)] small [of "n - 2 ^ g"] in simp_all)
  next
    case True
    have rg: "range_at ref base_addr (of_nat n) off n"
      unfolding range_at_def using base offn strict small [OF order.refl] by blast
    have mg: "mn ref \<le> g" using g12 ok(2) by simp
    show ?thesis
      using pre_alloc_power [OF ok rg less.prems(1) True g12]
        pre_alloc_overlap [OF ok rg less.prems(1) nd _ less.IH]
      unfolding un(3) [OF True mg] pre_alloc_rest_def [symmetric]
      by (elim disjE exE conjE) auto
  qed
qed

end
