(* ===== verification/Buddy_Props.thy ===== *)
theory Buddy_Props
  imports Buddy_Pre
begin

text \<open>
  What src/kernel/mm/buddy.c guarantees, stated over its own operations: initialisation, allocation,
  release, the round trip of the two, reservation of a range, and what happens to an address outside
  the region.  The proofs combine the refinement lemmas of \<open>Buddy_Refine\<close> and \<open>Buddy_Pre\<close>.  The
  witnesses run the operations on a region of 16 KiB at 1 MiB whose header lies at \<open>0x1000\<close>.
\<close>

definition hr0 :: mem_map_region_t where
  "hr0 = \<lparr>rg_base = 0x1000, rg_length = 0x1000, rg_type = E820_MEM_TYPE_RESERVED\<rparr>"

definition cr0 :: mem_map_region_t where
  "cr0 = \<lparr>rg_base = 0x100000, rg_length = 0x4000, rg_type = E820_MEM_TYPE_USABLE\<rparr>"

lemma init0:
  obtains ref h where "buddy_init (\<lambda>_. zero_slot) hr0 cr0 = Inr (ref, h)" "content_mem_reg ref = cr0"
    "mx ref = 14" "mn ref = 12" "buddy_inv ref h" "coalesced ref h" "used_blocks ref h = {}" "tree ref h 14 0 = Free"
proof -
  show ?thesis
    by (rule buddy_init_ok [of cr0 14 hr0 "\<lambda>_. zero_slot"]) (use that in \<open>auto simp: hr0_def cr0_def\<close>)
qed

lemma can_serve_root: "tree ref h (mx ref) 0 = Free \<Longrightarrow> k \<le> mx ref \<Longrightarrow> can_serve ref h k"
  unfolding can_serve_def no_free_def by (intro exI [of _ "mx ref"]) auto

subsection \<open>Initialisation\<close>

lemma scast_of_nat: "n < 2 ^ 31 \<Longrightarrow> scast (of_nat n :: s32) = (of_nat n :: u64)"
  by (simp add: signed_of_nat signed_take_bit_int_eq_self)

lemma header_space:
  assumes "unat v = 2 ^ M" "12 \<le> M" "M < 64"
  shows "buddy_calc_header_space v = Inr (of_nat (16 * 2 ^ (M - 12 + 1)))"
proof -
  have "ilog2 v = of_nat M" "ilog2 BUDDY_ALLOC_SMALLEST_BLOCK = of_nat 12"
    using ilog2_two_power [OF assms(1)] ilog2_smallest_block assms(3)
    by (simp_all add: word_unat_eq_iff word_nat)
  then have k: "ilog2 v - ilog2 BUDDY_ALLOC_SMALLEST_BLOCK + 1 = of_nat (M - 12 + 1)"
    using assms(2) by (simp add: of_nat_diff)
  have "upow 2 (scast (of_nat (M - 12 + 1) :: s32)) = of_nat (2 ^ (M - 12 + 1))"
  proof -
    have lt: "M - 12 + 1 < 64" "M - 12 + 1 < 2 ^ 31" using assms(2,3) by simp_all
    show ?thesis unfolding scast_of_nat [OF lt(2)] by (rule upow2 [OF lt(1)])
  qed
  then show ?thesis
    using flp2_two_power [OF assms(1)]
    unfolding buddy_calc_header_space_def Let_def k by (simp add: sizeof_buddy_slot_def mult.commute)
qed

text \<open>
  C6: \<open>buddy_init\<close> on a power-of-two region of at least one page, with a header of the size that
  \<open>buddy_calc_header_space\<close> computes, returns a descriptor and a header that satisfy the invariant, in
  which nothing is allocated and the region is one free block.
\<close>

theorem buddy_init_correct:
  assumes "unat (rg_length cr) = 2 ^ M" "12 \<le> M" "unat (rg_base cr) + 2 ^ M \<le> 2 ^ 64"
    and "buddy_calc_header_space (rg_length cr) = Inr (rg_length hr)"
    and "0 < unat (rg_base hr)" "unat (rg_base hr) + unat (rg_length hr) \<le> 2 ^ 64"
  shows "\<exists>ref h'. buddy_init h hr cr = Inr (ref, h') \<and> content_mem_reg ref = cr \<and> header_mem_reg ref = hr
    \<and> buddy_inv ref h' \<and> coalesced ref h' \<and> used_blocks ref h' = {} \<and> tree ref h' M 0 = Free"
proof -
  have "(2::nat) ^ M < 2 ^ 64" using unsigned_less [of "rg_length cr", where 'a = nat] assms(1) by simp
  then have M: "M < 64" by (simp only: power_strict_increasing_iff)
  then have "(2::nat) ^ (M - 12 + 1) \<le> 2 ^ 52" using assms(2) by (intro power_increasing) auto
  then have "unat (of_nat (16 * 2 ^ (M - 12 + 1)) :: u64) = 16 * 2 ^ (M - 12 + 1)"
    by (intro unat_of_nat_small) simp
  then have hl: "unat (rg_length hr) = 16 * 2 ^ (M - 12 + 1)"
    using header_space [OF assms(1,2) M] assms(4) by (metis sum.inject(2))
  show ?thesis
    by (rule buddy_init_ok [OF assms(1-3,5), of h]) (use assms(6) hl in auto)
qed

theorem buddy_init_correct_witness:
  "\<exists>ref h'. buddy_init (\<lambda>_. zero_slot) \<lparr>rg_base = 0x1000, rg_length = 128, rg_type = 2\<rparr> cr0 = Inr (ref, h')
    \<and> content_mem_reg ref = cr0 \<and> buddy_inv ref h' \<and> used_blocks ref h' = {}"
proof -
  have "buddy_calc_header_space (rg_length cr0) = Inr 128"
    using header_space [of "rg_length cr0" 14] by (simp add: cr0_def)
  then show ?thesis
    using buddy_init_correct [of cr0 14 "\<lparr>rg_base = 0x1000, rg_length = 128, rg_type = 2\<rparr>" "\<lambda>_. zero_slot"]
    by (auto simp: cr0_def)
qed

subsection \<open>Allocation\<close>

text \<open>
  C1: a request of a size the region has is served exactly when a free block of the request's order
  or a larger one exists.  The block returned is aligned to its size, lies in the region, holds the
  request, wastes less than half of itself unless it is of the smallest order, and overlaps no block
  in use; it is the only change to the set of used blocks, the invariant is kept, no pair of free
  buddies appears, and nothing outside the slots is written.  Otherwise \<open>BUG_ON\<close> stops the kernel.
\<close>

theorem buddy_alloc_correct:
  assumes "buddy_inv ref h" "coalesced ref h" "0 < unat bytes" "unat bytes \<le> 2 ^ mx ref"
    and "k = unat (alloc_order ref bytes)"
  shows "if can_serve ref h k then
      \<exists>h' p i. buddy_alloc ref h bytes = Inr (h', p) \<and> unat p = unat (cbase ref) + i * 2 ^ k
        \<and> (i + 1) * 2 ^ k \<le> 2 ^ mx ref \<and> unat bytes \<le> 2 ^ k \<and> (k = mn ref \<or> 2 ^ k < 2 * unat bytes)
        \<and> buddy_inv ref h' \<and> coalesced ref h' \<and> slot_frame ref h h'
        \<and> used_blocks ref h' = insert (k, i) (used_blocks ref h)
        \<and> (\<forall>k' i'. (k', i') \<in> used_blocks ref h \<longrightarrow> block k' i' \<inter> block k i = {})
    else buddy_alloc ref h bytes = Inl (Bug_on ''buddy_alloc'')"
proof (cases "can_serve ref h k")
  case False
  with buddy_alloc_no_memory [OF assms(1,3,4)] assms(5) show ?thesis by simp
next
  case True
  have ok: "ref_ok ref" using assms(1) by (simp add: buddy_inv_def)
  note ao = alloc_order_spec [OF ok assms(3,4), folded assms(5)]
  from buddy_alloc_ok [OF assms(1,3-5) True] obtain h' i where
    al: "buddy_alloc ref h bytes = Inr (h', block_base ref k i)" and r: "rng ref k i" and inv: "buddy_inv ref h'"
    and new: "(k, i) \<notin> used_blocks ref h" "used_blocks ref h' = insert (k, i) (used_blocks ref h)"
    and rest: "coalesced ref h'" "slot_frame ref h h'" using assms(2) by metis
  have "block k' i' \<inter> block k i = {}" if "(k', i') \<in> used_blocks ref h" for k' i'
    using used_blocks_disjoint [OF inv, of k' i' k i] that new by auto
  then show ?thesis
    using True al inv new(2) rest ao(3,4) unat_block_base [OF ok r] in_range_bound [OF r]
    by (auto intro!: exI [of _ h'] exI [of _ "block_base ref k i"] exI [of _ i])
qed

theorem buddy_alloc_correct_witness:
  "\<exists>ref h h' p i. buddy_init (\<lambda>_. zero_slot) hr0 cr0 = Inr (ref, h) \<and> buddy_alloc ref h 5000 = Inr (h', p)
    \<and> unat p = 0x100000 + i * 2 ^ 13 \<and> used_blocks ref h' = {(13, i)}"
proof -
  obtain ref h where i: "buddy_init (\<lambda>_. zero_slot) hr0 cr0 = Inr (ref, h)" "content_mem_reg ref = cr0"
    "mx ref = 14" "mn ref = 12" "buddy_inv ref h" "coalesced ref h" "used_blocks ref h = {}" "tree ref h 14 0 = Free"
    by (rule init0)
  have ok: "ref_ok ref" using i(5) by (simp add: buddy_inv_def)
  have "clp2 5000 = 2 ^ (12 + 1)" by (rule clp2_power) simp_all
  then have "unat (ilog2 (clp2 5000)) = 13" by (intro ilog2_eqI) simp_all
  then have k: "unat (alloc_order ref 5000) = 13"
    by (simp add: alloc_order_def Let_def word_less_nat_alt i(4) unat_ucast_order)
  have "can_serve ref h 13" using can_serve_root [of ref h 13] i(3,8) by simp
  then show ?thesis
    using buddy_alloc_correct [OF i(5,6), of 5000 13] i k by (auto simp: cr0_def)
qed

subsection \<open>Release\<close>

text \<open>
  C2: \<open>buddy_free\<close> of any non-null address inside a used block returns, takes exactly that block out of
  the set of used blocks, keeps the invariant and leaves no pair of free buddies unmerged.
\<close>

theorem buddy_free_correct:
  assumes "buddy_inv ref h" "coalesced ref h" "(k, i) \<in> used_blocks ref h" "x \<in> block k i"
    and "unat ptr = unat (cbase ref) + x" "ptr \<noteq> NULL"
  shows "\<exists>h'. buddy_free ref h ptr = Inr h' \<and> buddy_inv ref h' \<and> coalesced ref h' \<and> slot_frame ref h h'
    \<and> used_blocks ref h' = used_blocks ref h - {(k, i)}"
  using buddy_free_ok [OF assms(1,3-6)] assms(2) by metis

text \<open>A state of the small region in which the request for 5000 bytes was served.\<close>

lemma alloc0:
  obtains ref h h' i where "buddy_init (\<lambda>_. zero_slot) hr0 cr0 = Inr (ref, h)" "content_mem_reg ref = cr0"
    "mx ref = 14" "buddy_inv ref h" "coalesced ref h" "can_serve ref h (unat (alloc_order ref 5000))"
    "buddy_alloc ref h 5000 = Inr (h', block_base ref 13 i)" "rng ref 13 i"
    "buddy_inv ref h'" "coalesced ref h'" "used_blocks ref h' = {(13, i)}"
    "unat (block_base ref 13 i) = 0x100000 + i * 2 ^ 13"
proof -
  obtain ref h where i: "buddy_init (\<lambda>_. zero_slot) hr0 cr0 = Inr (ref, h)" "content_mem_reg ref = cr0"
    "mx ref = 14" "mn ref = 12" "buddy_inv ref h" "coalesced ref h" "used_blocks ref h = {}" "tree ref h 14 0 = Free"
    by (rule init0)
  have "clp2 5000 = 2 ^ (12 + 1)" by (rule clp2_power) simp_all
  then have "unat (ilog2 (clp2 5000)) = 13" by (intro ilog2_eqI) simp_all
  then have k: "unat (alloc_order ref 5000) = 13"
    by (simp add: alloc_order_def Let_def word_less_nat_alt i(4) unat_ucast_order)
  have cs: "can_serve ref h 13" using can_serve_root [of ref h 13] i(3,8) by simp
  obtain h' j where a: "buddy_alloc ref h 5000 = Inr (h', block_base ref 13 j)" "rng ref 13 j" "buddy_inv ref h'"
    "used_blocks ref h' = {(13, j)}" "coalesced ref h'"
    by (rule buddy_alloc_ok [OF i(5) _ _ k [symmetric] cs]) (use i(3,6,7) in auto)
  have "unat (block_base ref 13 j) = 0x100000 + j * 2 ^ 13"
    using unat_block_base [OF _ a(2)] a(3) i(2) by (simp add: buddy_inv_def cr0_def)
  then show ?thesis using that [OF i(1-3,5,6) _ a(1-3,5,4)] cs k by simp
qed

theorem buddy_free_correct_witness:
  "\<exists>ref h h' p h''. buddy_init (\<lambda>_. zero_slot) hr0 cr0 = Inr (ref, h) \<and> buddy_alloc ref h 5000 = Inr (h', p)
    \<and> buddy_free ref h' p = Inr h'' \<and> used_blocks ref h'' = {}"
proof -
  obtain ref h h' i where a: "buddy_init (\<lambda>_. zero_slot) hr0 cr0 = Inr (ref, h)" "content_mem_reg ref = cr0"
    "buddy_alloc ref h 5000 = Inr (h', block_base ref 13 i)" "buddy_inv ref h'" "coalesced ref h'"
    "used_blocks ref h' = {(13, i)}" "unat (block_base ref 13 i) = 0x100000 + i * 2 ^ 13"
    by (rule alloc0) blast
  have "block_base ref 13 i \<noteq> NULL" using a(7) by auto
  with buddy_free_correct [OF a(4,5), of 13 i "i * 2 ^ 13" "block_base ref 13 i"] a block_nonempty [of i 13]
  show ?thesis by (auto simp: cr0_def)
qed

text \<open>
  C3: freeing a block that was just allocated gives back the header as it was before the allocation,
  slot by slot: every split that the allocation made is undone.
\<close>

theorem buddy_alloc_free_roundtrip:
  assumes "buddy_inv ref h" "coalesced ref h" "buddy_alloc ref h bytes = Inr (h', p)" "p \<noteq> NULL"
  shows "buddy_free ref h' p = Inr h"
proof -
  have ok: "ref_ok ref" using assms(1) by (simp add: buddy_inv_def)
  have b: "0 < unat bytes" "unat bytes \<le> 2 ^ mx ref"
    using assms(3) ref_okD(7) [OF ok] by (auto simp: buddy_alloc_def word_less_nat_alt unat_gt_0)
  have cs: "can_serve ref h (unat (alloc_order ref bytes))"
    using buddy_alloc_no_memory [OF assms(1) b] assms(3) by auto
  from buddy_alloc_ok [OF assms(1) b refl cs] assms(2-4) show ?thesis by (metis Pair_inject sum.inject(2))
qed

theorem buddy_alloc_free_roundtrip_witness:
  "\<exists>ref h h' p. buddy_init (\<lambda>_. zero_slot) hr0 cr0 = Inr (ref, h) \<and> buddy_alloc ref h 5000 = Inr (h', p)
    \<and> buddy_free ref h' p = Inr h"
proof -
  obtain ref h h' i where a: "buddy_init (\<lambda>_. zero_slot) hr0 cr0 = Inr (ref, h)" "buddy_inv ref h" "coalesced ref h"
    "buddy_alloc ref h 5000 = Inr (h', block_base ref 13 i)" "unat (block_base ref 13 i) = 0x100000 + i * 2 ^ 13"
    by (rule alloc0) blast
  have "block_base ref 13 i \<noteq> NULL" using a(5) by auto
  with buddy_alloc_free_roundtrip [OF a(2-4)] a show ?thesis by auto
qed

text \<open>
  C7: once every block is released the region is one free block again, so that a request for the
  whole region is served.
\<close>

theorem buddy_all_freed:
  assumes "buddy_inv ref h" "coalesced ref h" "used_blocks ref h = {}"
  shows "tree ref h (mx ref) 0 = Free
    \<and> (\<exists>h'. buddy_alloc ref h (rg_length (content_mem_reg ref)) = Inr (h', cbase ref))"
proof -
  have ok: "ref_ok ref" using assms(1) by (simp add: buddy_inv_def)
  have f: "tree ref h (mx ref) 0 = Free"
    using assms ref_okD(2) [OF ok] by (intro all_free_root) (auto simp: buddy_inv_unfold)
  let ?n = "rg_length (content_mem_reg ref)"
  have n: "unat ?n = 2 ^ mx ref" by (rule ref_okD(7) [OF ok])
  then have b: "0 < unat ?n" "unat ?n \<le> 2 ^ mx ref" by simp_all
  have "(2::nat) ^ mx ref \<le> 2 ^ unat (alloc_order ref ?n)" using alloc_order_spec(3) [OF ok b] n by simp
  then have k: "unat (alloc_order ref ?n) = mx ref" using alloc_order_spec(2) [OF ok b] by simp
  have "can_serve ref h (mx ref)" using can_serve_root f by simp
  from buddy_alloc_ok [OF assms(1) b k [symmetric] this] obtain h' i where
    "buddy_alloc ref h ?n = Inr (h', block_base ref (mx ref) i)" "rng ref (mx ref) i" by blast
  with f show ?thesis by (auto simp: in_range_def block_base_def)
qed

theorem buddy_all_freed_witness:
  "\<exists>ref h h'. buddy_init (\<lambda>_. zero_slot) hr0 cr0 = Inr (ref, h) \<and> buddy_alloc ref h 0x4000 = Inr (h', 0x100000)"
proof -
  obtain ref h where "buddy_init (\<lambda>_. zero_slot) hr0 cr0 = Inr (ref, h)" "content_mem_reg ref = cr0"
    "buddy_inv ref h" "coalesced ref h" "used_blocks ref h = {}" by (rule init0)
  with buddy_all_freed [of ref h] show ?thesis by (auto simp: cr0_def)
qed

text \<open>
  C4: over any sequence of allocations and of releases of addresses inside the managed region, a block that is
  still held, that is, none of whose addresses is released, is not handed out again: a later allocation returns
  a block of the region, of at least the requested size, that is disjoint from it.  Releases of addresses outside
  of the region are not part of the sequences; they can hit the last block of the region, as the section on these
  addresses shows.
\<close>

theorem buddy_no_double_alloc:
  assumes "buddy_inv ref h" "B \<in> live_blocks ref h"
    and "alloc_run (buddy_alloc ref) (buddy_free ref) (content_addrs ref) B h h'"
    and "buddy_alloc ref h' bytes = Inr (h2, p)"
  shows "\<exists>B'. B' \<in> live_blocks ref h2 \<and> unat p \<in> B' \<and> unat bytes \<le> card B' \<and> B' \<subseteq> content_addrs ref \<and> B \<inter> B' = {}"
  using buddy_ba.no_double_alloc [OF assms(3,1,2) subset_refl assms(4)] .

theorem buddy_no_double_alloc_witness:
  "\<exists>ref h h' p B. buddy_init (\<lambda>_. zero_slot) hr0 cr0 = Inr (ref, h) \<and> buddy_alloc ref h 5000 = Inr (h', p)
    \<and> live_blocks ref h' = {B} \<and> unat p \<in> B
    \<and> (\<forall>h2 q. buddy_alloc ref h' 4096 = Inr (h2, q) \<longrightarrow> unat q \<notin> B)"
proof -
  obtain ref h h' i where a: "buddy_init (\<lambda>_. zero_slot) hr0 cr0 = Inr (ref, h)" "content_mem_reg ref = cr0"
    "buddy_alloc ref h 5000 = Inr (h', block_base ref 13 i)" "buddy_inv ref h'"
    "used_blocks ref h' = {(13, i)}" "unat (block_base ref 13 i) = 0x100000 + i * 2 ^ 13"
    by (rule alloc0) blast
  let ?B = "addr_block ref (13, i)"
  have B: "live_blocks ref h' = {?B}" by (simp add: live_blocks_def a(5))
  have "unat q \<notin> ?B" if "buddy_alloc ref h' 4096 = Inr (h2, q)" for h2 q
    using buddy_no_double_alloc [OF a(4) _ run_refl that, of ?B] B by blast
  moreover have "unat (block_base ref 13 i) \<in> ?B"
    using a(2,6) block_nonempty [of i 13] by (auto simp: addr_block_def cr0_def)
  ultimately show ?thesis using a(1,3) B by blast
qed

subsection \<open>Reserving a range\<close>

definition used_space :: "buddy_ref_t \<Rightarrow> hdr \<Rightarrow> nat set" where
  "used_space ref h = (\<Union>(k, i) \<in> used_blocks ref h. block k i)"

lemma used_space_iff: "x \<in> used_space ref h \<longleftrightarrow> (\<exists>k i. rng ref k i \<and> tree ref h k i = Alloc \<and> x \<in> block k i)"
  unfolding used_space_def by (simp add: used_blocks_iff Bex_def case_prod_unfold)

lemma clear_range_used_space:
  assumes "buddy_inv ref h" "coalesced ref h" "R \<inter> used_space ref h = {}"
  shows "clear_range (mn ref) (mx ref) (tree ref h) R"
proof -
  have k: "kinv (mn ref) (mx ref) (tree ref h)" "coal (mn ref) (mx ref) (tree ref h)"
    using assms(1,2) by (auto simp: buddy_inv_unfold)
  have al: "block k i \<inter> R = {}" if "rng ref k i" "tree ref h k i = Alloc" for k i
    using that assms(3) used_space_iff [of _ ref h] by blast
  moreover have "\<not> block k i \<subseteq> R" if r: "rng ref k i" "tree ref h k i = Split" for k i
    using alloc_below [OF k r(1)] r(2) al block_nonempty by fastforce
  ultimately show ?thesis unfolding clear_range_def by blast
qed

text \<open>
  C5: \<open>buddy_pre_alloc\<close> of a page-aligned range inside the region that meets no used block returns, and
  then the used space has grown by exactly the range, rounded up to whole pages; the invariant and
  the absence of free buddy pairs are kept.  The walk down the tree and the recursion at a crossed
  middle both end.
\<close>

theorem buddy_pre_alloc_reserves:
  assumes "buddy_inv ref h" "coalesced ref h" "mn ref = 12" "unat (cbase ref) + 2 ^ mx ref < 2 ^ 64"
    and "unat base_addr = unat (cbase ref) + off" "2 ^ 12 dvd off" "0 < unat len"
    and "off + pages_up (unat len) \<le> 2 ^ mx ref" "{off ..< off + pages_up (unat len)} \<inter> used_space ref h = {}"
  shows "\<exists>h'. buddy_pre_alloc ref base_addr len h = Some (Inr h') \<and> buddy_inv ref h' \<and> coalesced ref h'
    \<and> used_space ref h' = used_space ref h \<union> {off ..< off + pages_up (unat len)} \<and> slot_frame ref h h'"
proof -
  let ?R = "{off ..< off + pages_up (unat len)}"
  have ok: "ref_ok ref" using assms(1) by (simp add: buddy_inv_def)
  have "pre_ready ref h base_addr off (pages_up (unat len))"
    using assms(1,5,6,8) clear_range_used_space [OF assms(1,2,9)] unfolding pre_ready_def buddy_inv_def by blast
  from buddy_pre_alloc_main [OF ok assms(3,4) this assms(7) refl] obtain h' where
    h': "buddy_pre_alloc ref base_addr len h = Some (Inr h')" "refines ref h h' (tree ref h')"
      "reserved (mn ref) (mx ref) (tree ref h) ?R (tree ref h')" unfolding walk_done_def by blast
  have "coal (mn ref) (mx ref) (tree ref h')"
    by (rule reserved_coal [OF _ _ h'(3)]) (use assms(1,2) in \<open>simp_all add: buddy_inv_unfold\<close>)
  moreover have "used_space ref h' = used_space ref h \<union> ?R"
    unfolding set_eq_iff used_space_iff Un_iff reserved_space [OF h'(3)] by blast
  moreover have "kinv (mn ref) (mx ref) (tree ref h')" using h'(3) by (simp add: reserved_def)
  ultimately show ?thesis
    using h'(1,2) ok unfolding buddy_inv_unfold refines_def by blast
qed

theorem buddy_pre_alloc_reserves_witness:
  "\<exists>ref h h'. buddy_init (\<lambda>_. zero_slot) hr0 cr0 = Inr (ref, h)
    \<and> buddy_pre_alloc ref 0x101000 0x1800 h = Some (Inr h') \<and> used_space ref h' = {0x1000 ..< 0x3000}"
proof -
  obtain ref h where i: "buddy_init (\<lambda>_. zero_slot) hr0 cr0 = Inr (ref, h)" "content_mem_reg ref = cr0"
    "mx ref = 14" "mn ref = 12" "buddy_inv ref h" "coalesced ref h" "used_blocks ref h = {}" by (rule init0)
  have u: "used_space ref h = {}" by (simp add: used_space_def i(7))
  have p: "pages_up (unat (0x1800 :: u64)) = 0x2000" by (simp add: pages_up_def)
  show ?thesis
    using buddy_pre_alloc_reserves [OF i(5,6,4), of "0x101000" "0x1000" "0x1800"] i u p by (auto simp: cr0_def)
qed

subsection \<open>Addresses outside the region\<close>

lemma outside_test:
  assumes "ref_ok ref" "rng ref (Suc k) i" "unat ptr \<notin> content_addrs ref"
  shows "\<not> (ptr \<ge> block_base ref (Suc k) i
    \<and> ptr \<le> block_base ref (Suc k) i + upow 2 (ucast (of_nat (Suc k) :: u8)) div 2 - 1)"
proof -
  have k: "Suc k < 64" by (rule rngD(4) [OF assms(1,2)])
  have ub: "unat (block_base ref (Suc k) i) = unat (cbase ref) + i * 2 ^ Suc k" by (rule unat_block_base [OF assms(1,2)])
  have half: "unat (upow 2 (ucast (of_nat (Suc k) :: u8)) div 2) = 2 ^ k"
    unfolding upow_order(1) [OF k] unat_div_distrib unat_of_nat_pow [OF k] by simp
  have bd: "(i + 1) * 2 ^ Suc k \<le> 2 ^ mx ref" by (rule in_range_bound [OF assms(2)])
  have "i * 2 ^ Suc k + 2 ^ k < (i + 1) * 2 ^ Suc k" by simp
  then have lt: "unat (cbase ref) + i * 2 ^ Suc k + 2 ^ k < unat (cbase ref) + 2 ^ mx ref" using bd by linarith
  then have "unat (block_base ref (Suc k) i + upow 2 (ucast (of_nat (Suc k) :: u8)) div 2)
      = unat (cbase ref) + i * 2 ^ Suc k + 2 ^ k"
    using ub half ref_okD(6) [OF assms(1)] by (subst unat_add_small) auto
  then have "unat (block_base ref (Suc k) i + upow 2 (ucast (of_nat (Suc k) :: u8)) div 2 - 1)
      < unat (cbase ref) + 2 ^ mx ref"
    using lt zero_less_power [of "2::nat" k] by (subst unat_sub_small) (auto simp: Suc_le_eq)
  then show ?thesis using assms(3) ub unfolding word_le_nat_alt content_addrs_def by auto
qed

text \<open>The descent for an address outside the region always takes the right child.\<close>

lemma find_slot_loop_outside:
  assumes inv: "buddy_inv ref h" and out: "unat ptr \<notin> content_addrs ref"
    and p: "unat lastp = unat (cbase ref) + (2 ^ mx ref - 1)"
  shows "rng ref t (2 ^ (mx ref - t) - 1) \<Longrightarrow> tree ref h t (2 ^ (mx ref - t) - 1) \<noteq> Absent
    \<Longrightarrow> find_slot_loop fuel ref h ptr (slot_addr ref t (2 ^ (mx ref - t) - 1))
      = find_slot_loop fuel ref h lastp (slot_addr ref t (2 ^ (mx ref - t) - 1))"
proof (induction fuel arbitrary: t)
  case (Suc fuel)
  let ?i = "2 ^ (mx ref - t) - 1 :: nat"
  have ok: "ref_ok ref" "slots_ok ref h" "kinv (mn ref) (mx ref) (tree ref h)" using inv by (auto simp: buddy_inv_def)
  show ?case
  proof (cases "tree ref h t ?i = Split")
    case False
    then have "tree ref h t ?i = Free \<or> tree ref h t ?i = Alloc" using Suc.prems(2) by (cases "tree ref h t ?i") auto
    with find_slot_loop_leaf [OF ok(1,2) Suc.prems(1)] show ?thesis by simp
  next
    case True
    have "t \<noteq> mn ref" using True kinvD(3) [OF ok(3), of ?i] Suc.prems(1) by (auto simp: in_range_def)
    then obtain k where t: "t = Suc k" "mn ref \<le> k" using rngD(1) [OF ok(1) Suc.prems(1)] by (cases t) auto
    have kM: "k < mx ref" using rngD(2) [OF ok(1) Suc.prems(1)] t by simp
    have r: "rng ref (Suc k) ?i" using Suc.prems(1) t by simp
    have dbl: "Suc (2 * (n - 1)) = 2 * n - 1" if "0 < n" for n :: nat using that by simp
    have last: "Suc (2 * ?i) = 2 ^ (mx ref - k) - 1"
      unfolding pow_half [OF kM] t by (rule dbl) simp
    have hs: "h (slot_addr ref (Suc k) ?i) = slot_of ref (Suc k) ?i Split" using slot_at [OF ok(2) r] True t by simp
    have o: "slot_order (h (slot_addr ref (Suc k) ?i)) = of_nat (Suc k)"
      and b: "slot_base (h (slot_addr ref (Suc k) ?i)) = block_base ref (Suc k) ?i"
      and ty: "slot_type (h (slot_addr ref (Suc k) ?i)) = SPLIT" unfolding hs by simp_all
    have ge: "min_pow_order ref \<le> of_nat (Suc k)"
      using u8_of_nat_cmp(3) [of "mn ref" "Suc k"] rngD(1,4) [OF ok(1) r] by simp
    have ch: "rng ref k (2 ^ (mx ref - k) - 1)" "tree ref h k (2 ^ (mx ref - k) - 1) \<noteq> Absent"
      using rng_down(2) [OF r t(2)] kinv_children(2) [OF ok(3) t(2) kM] r True t(1) unfolding last [symmetric]
      by (auto simp: in_range_def)
    have "find_slot_loop (Suc fuel) ref h ptr (slot_addr ref (Suc k) ?i)
        = find_slot_loop fuel ref h ptr (slot_addr ref k (2 ^ (mx ref - k) - 1))"
      using outside_test [OF ok(1) r out] ge goto_children_eq(2) [where h = h, OF ok(1) r t(2) o] last
      unfolding find_slot_loop.simps o b ty by auto
    moreover have "2 ^ mx ref - 1 \<in> block (Suc k) ?i" "(2 ^ mx ref - 1) div 2 ^ k = (2 ^ (mx ref - k) - 1 :: nat)"
      using last_offset_div [of k "mx ref"] last_offset_div [of "Suc k" "mx ref"] kM t(1) by (simp_all add: block_div)
    then have "find_slot_loop (Suc fuel) ref h lastp (slot_addr ref (Suc k) ?i)
        = find_slot_loop fuel ref h lastp (slot_addr ref k (2 ^ (mx ref - k) - 1))"
      using find_slot_loop_split [OF ok(1,2) r t(2) _ _ p] True t by simp
    ultimately show ?thesis using Suc.IH [OF ch] t by simp
  qed
qed simp

text \<open>
  C8: \<open>buddy_free\<close> does not check that the address belongs to the region: for a non-null address
  outside of it the call has the effect of freeing the last byte of the region, so that a used block
  at the end of the region is released although nobody asked for it.
\<close>

theorem buddy_free_outside_region:
  assumes "buddy_inv ref h" "unat ptr \<notin> content_addrs ref" "ptr \<noteq> NULL"
    and "unat lastp = unat (cbase ref) + (2 ^ mx ref - 1)"
  shows "buddy_free ref h ptr = buddy_free ref h lastp"
proof -
  have ok: "ref_ok ref" "kinv (mn ref) (mx ref) (tree ref h)" using assms(1) by (auto simp: buddy_inv_def)
  have root: "goto_porder_idx ref (max_pow_order ref) = slot_addr ref (mx ref) (2 ^ (mx ref - mx ref) - 1)"
    using goto_porder_idx_eq [OF ok(1), of "mx ref"] ref_okD(2) [OF ok(1)] by simp
  have "rng ref (mx ref) (2 ^ (mx ref - mx ref) - 1)" using ref_okD(2) [OF ok(1)] by (simp add: in_range_def)
  from find_slot_loop_outside [OF assms(1,2,4) this] kinvD(1) [OF ok(2)]
  have "find_slot_by_addr ref h ptr = find_slot_by_addr ref h lastp" unfolding find_slot_by_addr_def root by simp
  moreover have "1 < (2::nat) ^ mx ref" using ref_okD(1,2) [OF ok(1)] by (intro one_less_power) auto
  then have "lastp \<noteq> NULL" using assms(4) by auto
  ultimately show ?thesis using assms(3) by (simp add: buddy_free_def)
qed

theorem buddy_free_outside_region_witness:
  "\<exists>ref h h' h''. buddy_init (\<lambda>_. zero_slot) hr0 cr0 = Inr (ref, h) \<and> buddy_alloc ref h 0x4000 = Inr (h', 0x100000)
    \<and> buddy_free ref h' 0x50 = Inr h'' \<and> used_blocks ref h' \<noteq> {} \<and> used_blocks ref h'' = {}"
proof -
  obtain ref h where i: "buddy_init (\<lambda>_. zero_slot) hr0 cr0 = Inr (ref, h)" "content_mem_reg ref = cr0"
    "mx ref = 14" "mn ref = 12" "buddy_inv ref h" "used_blocks ref h = {}" "tree ref h 14 0 = Free" by (rule init0)
  have ok: "ref_ok ref" using i(5) by (simp add: buddy_inv_def)
  have "unat (alloc_order ref 0x4000) = 14"
    using alloc_order_spec(2,3) [OF ok, of "0x4000"] i(3)
      power_le_imp_le_exp [of 2 14 "unat (alloc_order ref 0x4000)"] by simp
  note k = this [symmetric]
  have cs: "can_serve ref h 14" using can_serve_root [of ref h 14] i by simp
  obtain h' j where a: "buddy_alloc ref h 0x4000 = Inr (h', block_base ref 14 j)" "rng ref 14 j"
    "buddy_inv ref h'" "used_blocks ref h' = {(14, j)}"
    by (rule buddy_alloc_ok [OF i(5) _ _ k cs]) (use i(3,6) in auto)
  have j: "j = 0" using a(2) i(3) by (simp add: in_range_def)
  have "buddy_free ref h' 0x50 = buddy_free ref h' 0x103FFF"
    by (rule buddy_free_outside_region [OF a(3)]) (simp_all add: content_addrs_def i(2,3) cr0_def)
  moreover obtain h'' where "buddy_free ref h' 0x103FFF = Inr h''" "used_blocks ref h'' = {}"
    by (rule buddy_free_ok [OF a(3), of 14 j "0x3FFF" "0x103FFF"]) (auto simp: a(4) i(2) cr0_def j block_def)
  ultimately show ?thesis using i(1,2) a(1,4) j by (auto simp: block_base_def cr0_def)
qed

end
