(* ===== verification/Addr_Conv.thy ===== *)
theory Addr_Conv
  imports Kernel_Prelude
begin

text \<open>
  The higher-half address conversion of src/kernel/mm/addressconv.c: physical memory is mapped from
  \<open>VIRT_ADDR_KERNEL_START\<close> on, \<open>va\<close> and \<open>pa\<close> convert between the two views and stop the kernel on
  arguments that belong to the other view.
\<close>

unbundle bit_operations_syntax

definition PHYS_ADDR_MAX_BOUNDARY :: u64 where
  "PHYS_ADDR_MAX_BOUNDARY = drop_bit (64 - 48) UINT64_MAX"

definition VIRT_ADDR_KERNEL_START :: u64 where
  "VIRT_ADDR_KERNEL_START = 0xffff800000000000"

definition va :: "u64 \<Rightarrow> u64 kres" where
  "va phys_addr = BUG_ON ''va'' (phys_addr > PHYS_ADDR_MAX_BOUNDARY) (Inr (VIRT_ADDR_KERNEL_START + phys_addr))"

definition pa :: "u64 \<Rightarrow> u64 kres" where
  "pa virt_addr = BUG_ON ''pa'' (virt_addr < PHYS_ADDR_MAX_BOUNDARY) (Inr (virt_addr - VIRT_ADDR_KERNEL_START))"

lemma phys_max_eq: "PHYS_ADDR_MAX_BOUNDARY = 0xffffffffffff"
  by (simp add: PHYS_ADDR_MAX_BOUNDARY_def mask_eq_exp_minus_1)

lemma va_Inr: "va p = Inr v \<longleftrightarrow> unat p < 2 ^ 48 \<and> v = VIRT_ADDR_KERNEL_START + p"
  by (auto simp: va_def phys_max_eq word_less_nat_alt)

text \<open>The kernel's half of the address space ends at \<open>2 ^ 64\<close>: only 47 bits of it lie above the start.\<close>

lemma unat_va:
  assumes "unat p < 2 ^ 47"
  shows "unat (VIRT_ADDR_KERNEL_START + p) = 0xffff800000000000 + unat p"
  using assms by (subst unat_add_small) (auto simp: VIRT_ADDR_KERNEL_START_def)

lemma pa_va:
  assumes "unat p < 2 ^ 47"
  shows "kbind (va p) pa = Inr p"
proof -
  have "\<not> VIRT_ADDR_KERNEL_START + p < PHYS_ADDR_MAX_BOUNDARY"
    unfolding word_less_nat_alt unat_va [OF assms] by (simp add: phys_max_eq)
  then show ?thesis using assms by (auto simp: va_def pa_def phys_max_eq word_less_nat_alt)
qed

lemma va_inj: "va p = Inr v \<Longrightarrow> va q = Inr v \<Longrightarrow> p = q"
  by (auto simp: va_Inr)

end
