(* ===== verification/Heap_List.thy ===== *)
theory Heap_List
  imports Kernel_Prelude
begin

text \<open>
  Null-terminated singly linked lists in a heap, for the components that chain structures through a
  \<open>next\<close> pointer.  \<open>heap_list nx p xs\<close> says that from \<open>p\<close> on the links \<open>nx\<close> visit exactly the nodes \<open>xs\<close>
  before the null pointer.
\<close>

primrec heap_list :: "(addr \<Rightarrow> addr) \<Rightarrow> addr \<Rightarrow> addr list \<Rightarrow> bool" where
  "heap_list nx p [] \<longleftrightarrow> p = NULL"
| "heap_list nx p (x # xs) \<longleftrightarrow> p = x \<and> p \<noteq> NULL \<and> heap_list nx (nx x) xs"

named_theorems heap_simps

lemma heap_list_NULL [simp]: "heap_list nx NULL xs \<longleftrightarrow> xs = []"
  by (cases xs) auto

lemma heap_list_non_NULL: "p \<noteq> NULL \<Longrightarrow> heap_list nx p xs \<longleftrightarrow> (\<exists>ys. xs = p # ys \<and> heap_list nx (nx p) ys)"
  by (cases xs) auto

lemma heap_list_unique: "heap_list nx p xs \<Longrightarrow> heap_list nx p ys \<Longrightarrow> xs = ys"
  by (induction xs arbitrary: p ys) (auto simp: heap_list_non_NULL)

text \<open>Writing a link outside a list does not change the list.\<close>

lemma heap_list_upd [simp, heap_simps]: "a \<notin> set xs \<Longrightarrow> heap_list (nx(a := b)) p xs \<longleftrightarrow> heap_list nx p xs"
  by (induction xs arbitrary: p) auto

lemma heap_list_cong:
  "(\<And>x. x \<in> set xs \<Longrightarrow> nx x = nx' x) \<Longrightarrow> heap_list nx p xs \<longleftrightarrow> heap_list nx' p xs"
  by (induction xs arbitrary: p) auto

lemma heap_list_non_NULL_nodes: "heap_list nx p xs \<Longrightarrow> NULL \<notin> set xs"
  by (induction xs arbitrary: p) auto

text \<open>A node can occur only once: a repetition would make the list endless.\<close>

lemma heap_list_append:
  "heap_list nx p (xs @ ys) \<Longrightarrow> ys \<noteq> [] \<Longrightarrow> heap_list nx (hd ys) ys"
  by (induction xs arbitrary: p) (auto, cases ys, auto)

lemma heap_list_distinct: "heap_list nx p xs \<Longrightarrow> distinct xs"
proof (induction xs arbitrary: p)
  case (Cons x xs)
  have "x \<notin> set xs"
  proof
    assume "x \<in> set xs"
    then obtain us vs where "xs = us @ x # vs" by (auto simp: in_set_conv_decomp)
    with Cons.prems heap_list_append [of nx "nx x" us "x # vs"]
    have "heap_list nx x (x # vs)" "heap_list nx x (x # xs)" by auto
    from heap_list_unique [OF this] \<open>xs = us @ x # vs\<close> show False by simp
  qed
  with Cons show ?case by auto
qed simp

text \<open>Unlinking the successor of a node.\<close>

lemma heap_list_unlink:
  assumes "heap_list nx p (us @ a # b # vs)"
  shows "heap_list (nx(a := nx b)) p (us @ a # vs)"
proof -
  have d: "distinct (us @ a # b # vs)" using heap_list_distinct [OF assms] .
  show ?thesis using assms d by (induction us arbitrary: p) auto
qed

end
