(* ===== verification/Page_Frame.thy ===== *)
theory Page_Frame
  imports Addr_Conv Heap_List Mem_Types
begin

text \<open>
  The page-frame database of src/kernel/mm/pageframe.c: two linked lists, of the free and of the used
  page frames, whose nodes live at the virtual addresses of a reserved region.  The heap of nodes is a
  function from addresses to \<open>pageframe_t\<close>.  \<open>pfdb_ok\<close> describes the two lists; \<open>frame_allocator\<close> is what
  the paging code relies on, and the database is shown to provide it.
\<close>

subsection \<open>Model\<close>

record pageframe_t =
  phy_addr :: u64
  pf_next :: addr

record pageframe_database_t =
  pf_free :: addr
  pf_used :: addr

type_synonym pf_heap = "addr \<Rightarrow> pageframe_t"

definition PAGEFRAME_SIZE :: u64 where "PAGEFRAME_SIZE = 0x1000"

definition sizeof_pageframe :: u64 where "sizeof_pageframe = 16"

definition pageframe_calc_space_needed :: "u64 \<Rightarrow> u64" where
  "pageframe_calc_space_needed pagetable_bytes = (pagetable_bytes div PAGEFRAME_SIZE) * sizeof_pageframe"

text \<open>The loop of \<open>pageframe_init\<close>; its first argument counts the remaining iterations.\<close>

fun pageframe_init_loop ::
  "nat \<Rightarrow> u64 \<Rightarrow> u64 \<Rightarrow> pf_heap \<Rightarrow> pageframe_database_t \<Rightarrow> (pf_heap \<times> pageframe_database_t) kres" where
  "pageframe_init_loop 0 pagetable_addr pageframe_addr hp pfdb = Inr (hp, pfdb)"
| "pageframe_init_loop (Suc n) pagetable_addr pageframe_addr hp pfdb =
     kbind (va pageframe_addr)
       (\<lambda>pf. let nxt = (if pf_free pfdb = NULL then NULL else pf_free pfdb)
             in pageframe_init_loop n (pagetable_addr + PAGEFRAME_SIZE) (pageframe_addr + sizeof_pageframe)
                  (hp(pf := \<lparr>phy_addr = pagetable_addr, pf_next = nxt\<rparr>)) (pfdb\<lparr>pf_free := pf\<rparr>))"

definition pageframe_init ::
  "pf_heap \<Rightarrow> mem_map_region_t \<Rightarrow> mem_map_region_t \<Rightarrow> (pf_heap \<times> pageframe_database_t) kres" where
  "pageframe_init hp k_pages_struct_rg k_pfdb_struct_rg =
     pageframe_init_loop (unat (rg_length k_pfdb_struct_rg div sizeof_pageframe))
       (rg_base k_pages_struct_rg) (rg_base k_pfdb_struct_rg) hp \<lparr>pf_free = NULL, pf_used = NULL\<rparr>"

definition pageframe_alloc ::
  "pf_heap \<Rightarrow> pageframe_database_t \<Rightarrow> ((pf_heap \<times> pageframe_database_t) \<times> u64) kres" where
  "pageframe_alloc hp pfdb =
     BUG_ON ''pageframe_alloc'' (pf_free pfdb = NULL)
       (let page_frame = pf_free pfdb;
            ret = phy_addr (hp page_frame);
            pfdb = pfdb\<lparr>pf_free := pf_next (hp (pf_free pfdb))\<rparr>;
            hp = hp(page_frame := (hp page_frame)\<lparr>pf_next := pf_used pfdb\<rparr>);
            pfdb = pfdb\<lparr>pf_used := page_frame\<rparr>
        in Inr ((hp, pfdb), ret))"

text \<open>
  The loop of \<open>find_predecessor\<close>; \<open>Some NULL\<close> is the exit with \<open>tmp == NULL\<close>, and \<open>None\<close> says that the
  links run in a circle.
\<close>

partial_function (option) find_predecessor_loop :: "pf_heap \<Rightarrow> u64 \<Rightarrow> addr \<Rightarrow> addr option" where
  "find_predecessor_loop hp val tmp =
     (if tmp = NULL then Some NULL
      else if pf_next (hp tmp) \<noteq> NULL \<and> phy_addr (hp (pf_next (hp tmp))) = val then Some tmp
      else find_predecessor_loop hp val (pf_next (hp tmp)))"

definition find_predecessor :: "pf_heap \<Rightarrow> addr \<Rightarrow> u64 \<Rightarrow> addr kres option" where
  "find_predecessor hp head val =
     (if head = NULL then Some (Inl (Null_deref ''find_predecessor''))
      else if phy_addr (hp head) = val then Some (Inr NULL)
      else Option.bind (find_predecessor_loop hp val head)
             (\<lambda>tmp. Some (BUG_ON ''find_predecessor'' (tmp = NULL) (Inr tmp))))"

text \<open>\<open>delete_node(&pfdb->used, val)\<close>: the result is the removed node and the new head.\<close>

definition delete_node :: "pf_heap \<Rightarrow> addr \<Rightarrow> u64 \<Rightarrow> ((pf_heap \<times> addr) \<times> addr) kres option" where
  "delete_node hp head val =
     Option.bind (find_predecessor hp head val)
       (\<lambda>r. Some (kbind r (\<lambda>pred.
          if pred = NULL then
            (if phy_addr (hp head) = val then Inr ((hp, pf_next (hp head)), head)
             else Inl (Bug_on ''delete_node''))
          else
            (let item = pf_next (hp pred);
                 hp = hp(pred := (hp pred)\<lparr>pf_next := pf_next (hp item)\<rparr>)
             in if item = NULL then Inl (Null_deref ''delete_node'') else Inr ((hp, head), item)))))"

definition pageframe_free ::
  "pf_heap \<Rightarrow> pageframe_database_t \<Rightarrow> u64 \<Rightarrow> (pf_heap \<times> pageframe_database_t) kres option" where
  "pageframe_free hp pfdb val =
     (if pf_used pfdb = NULL then Some (Inl (Bug_on ''pageframe_free''))
      else Option.bind (delete_node hp (pf_used pfdb) val)
        (\<lambda>r. Some (kbind r (\<lambda>((hp, used), pf).
           BUG_ON ''pageframe_free'' (pf = NULL)
             (let hp = hp(pf := (hp pf)\<lparr>pf_next := pf_free pfdb\<rparr>)
              in Inr (hp, pfdb\<lparr>pf_used := used, pf_free := pf\<rparr>))))))"

subsection \<open>The two lists\<close>

definition pf_links :: "pf_heap \<Rightarrow> addr \<Rightarrow> addr" where "pf_links hp a = pf_next (hp a)"

definition frame_of :: "pf_heap \<Rightarrow> addr \<Rightarrow> u64" where "frame_of hp a = phy_addr (hp a)"

definition pfdb_ok :: "pf_heap \<Rightarrow> pageframe_database_t \<Rightarrow> addr list \<Rightarrow> addr list \<Rightarrow> bool" where
  "pfdb_ok hp pfdb F U \<longleftrightarrow>
     heap_list (pf_links hp) (pf_free pfdb) F \<and> heap_list (pf_links hp) (pf_used pfdb) U
     \<and> distinct (map (frame_of hp) (F @ U))"

lemma pf_links_upd [simp]: "pf_links (hp(x := y)) = (pf_links hp)(x := pf_next y)"
  by (auto simp: pf_links_def)

lemma frame_of_upd [simp]: "frame_of (hp(x := (hp x)\<lparr>pf_next := y\<rparr>)) = frame_of hp"
  by (auto simp: frame_of_def)

lemma pfdb_ok_distinct: "pfdb_ok hp pfdb F U \<Longrightarrow> distinct (F @ U)"
  unfolding pfdb_ok_def by (metis distinct_map)

lemma pfdb_ok_nonnull: "pfdb_ok hp pfdb F U \<Longrightarrow> NULL \<notin> set F \<union> set U"
  unfolding pfdb_ok_def by (auto dest: heap_list_non_NULL_nodes)

lemma pageframe_alloc_ok:
  assumes "pfdb_ok hp pfdb (a # F) U"
  shows "\<exists>hp' pfdb'. pageframe_alloc hp pfdb = Inr ((hp', pfdb'), frame_of hp a) \<and> pfdb_ok hp' pfdb' F (a # U)
    \<and> frame_of hp' = frame_of hp"
proof -
  have d: "a \<notin> set F" "a \<notin> set U" "pf_free pfdb = a" "a \<noteq> NULL"
    using pfdb_ok_distinct [OF assms] assms by (auto simp: pfdb_ok_def)
  let ?hp = "hp(a := (hp a)\<lparr>pf_next := pf_used pfdb\<rparr>)"
  have "pfdb_ok ?hp (pfdb\<lparr>pf_free := pf_next (hp a), pf_used := a\<rparr>) F (a # U)"
    using assms d by (auto simp: pfdb_ok_def pf_links_def)
  then show ?thesis using d by (auto simp: pageframe_alloc_def Let_def frame_of_def)
qed

lemma pageframe_alloc_none: "pfdb_ok hp pfdb [] U \<Longrightarrow> pageframe_alloc hp pfdb = Inl (Bug_on ''pageframe_alloc'')"
  by (simp add: pfdb_ok_def pageframe_alloc_def)

lemma find_predecessor_loop_found:
  "heap_list (pf_links hp) p (us @ a # b # vs) \<Longrightarrow> frame_of hp b = val \<Longrightarrow> val \<notin> frame_of hp ` set (tl (us @ [a]))
    \<Longrightarrow> find_predecessor_loop hp val p = Some a"
proof (induction us arbitrary: p)
  case Nil
  then show ?case by (subst find_predecessor_loop.simps) (auto simp: pf_links_def frame_of_def)
next
  case (Cons u us)
  have "heap_list (pf_links hp) (pf_next (hp p)) (us @ a # b # vs)" "p \<noteq> NULL" "p = u"
    using Cons.prems(1) by (auto simp flip: pf_links_def)
  moreover have "val \<notin> frame_of hp ` set (tl (us @ [a]))" using Cons.prems(3) by (cases us) auto
  moreover have "phy_addr (hp (pf_next (hp p))) \<noteq> val"
    using Cons.prems(3) calculation(1) by (cases us) (auto simp: frame_of_def)
  ultimately show ?case using Cons.IH Cons.prems(2) by (subst find_predecessor_loop.simps) simp
qed

lemma find_predecessor_loop_missing:
  "heap_list (pf_links hp) p U \<Longrightarrow> val \<notin> frame_of hp ` set (tl U) \<Longrightarrow> find_predecessor_loop hp val p = Some NULL"
proof (induction U arbitrary: p)
  case Nil
  then show ?case by (subst find_predecessor_loop.simps) simp
next
  case (Cons u U)
  then have h: "heap_list (pf_links hp) (pf_next (hp p)) U" "p \<noteq> NULL" "p = u" by (auto simp flip: pf_links_def)
  moreover have "val \<notin> frame_of hp ` set (tl U)" using Cons.prems(2) by (cases U) auto
  moreover have "\<not> (pf_next (hp p) \<noteq> NULL \<and> phy_addr (hp (pf_next (hp p))) = val)"
    using Cons.prems(2) h(1) by (cases U) (auto simp: frame_of_def)
  ultimately show ?case using Cons.IH by (subst find_predecessor_loop.simps) auto
qed

lemma delete_node_ok:
  assumes l: "heap_list (pf_links hp) p (us @ b # vs)" and d: "distinct (map (frame_of hp) (us @ b # vs))"
  shows "\<exists>hp' p'. delete_node hp p (frame_of hp b) = Some (Inr ((hp', p'), b))
    \<and> heap_list (pf_links hp') p' (us @ vs) \<and> frame_of hp' = frame_of hp
    \<and> (\<forall>x. x \<notin> set (us @ vs) \<longrightarrow> hp' x = hp x)"
proof (cases us rule: rev_cases)
  case Nil
  with l have "p = b" "b \<noteq> NULL" "heap_list (pf_links hp) (pf_next (hp b)) vs" by (auto simp: pf_links_def)
  then show ?thesis using Nil by (auto simp: delete_node_def find_predecessor_def frame_of_def)
next
  case (snoc ws a)
  have ne: "p \<noteq> NULL" "b \<noteq> NULL" "a \<noteq> NULL" using heap_list_non_NULL_nodes [OF l] l snoc by (cases ws; auto)+
  have hd: "phy_addr (hp p) \<noteq> frame_of hp b"
    using l d snoc by (cases ws) (auto simp: frame_of_def)
  have "frame_of hp b \<notin> frame_of hp ` set (tl (ws @ [a]))" using d snoc by (cases ws) auto
  then have "find_predecessor_loop hp (frame_of hp b) p = Some a"
    using find_predecessor_loop_found [of hp p ws a b vs] l snoc by simp
  then have fp: "find_predecessor hp p (frame_of hp b) = Some (Inr a)"
    using ne hd by (simp add: find_predecessor_def)
  have ab: "pf_next (hp a) = b"
    using heap_list_append [of "pf_links hp" p ws "a # b # vs"] l snoc by (simp add: pf_links_def)
  let ?hp = "hp(a := (hp a)\<lparr>pf_next := pf_next (hp b)\<rparr>)"
  have "heap_list (pf_links ?hp) p (us @ vs)"
    using heap_list_unlink [of "pf_links hp" p ws a b vs] l snoc by (simp add: pf_links_def)
  then show ?thesis
    using fp ne ab snoc by (auto simp: delete_node_def Let_def)
qed

lemma pageframe_free_ok:
  assumes "pfdb_ok hp pfdb F (us @ b # vs)"
  shows "\<exists>hp' pfdb'. pageframe_free hp pfdb (frame_of hp b) = Some (Inr (hp', pfdb')) \<and> pfdb_ok hp' pfdb' (b # F) (us @ vs)
    \<and> frame_of hp' = frame_of hp"
proof -
  have l: "heap_list (pf_links hp) (pf_used pfdb) (us @ b # vs)" "distinct (map (frame_of hp) (us @ b # vs))"
    and F: "heap_list (pf_links hp) (pf_free pfdb) F" and df: "distinct (map (frame_of hp) (F @ us @ b # vs))"
    using assms by (auto simp: pfdb_ok_def)
  have nn: "pf_used pfdb \<noteq> NULL" "b \<noteq> NULL" using heap_list_non_NULL_nodes [OF l(1)] l(1) by auto
  obtain hp' p' where del: "delete_node hp (pf_used pfdb) (frame_of hp b) = Some (Inr ((hp', p'), b))"
      "heap_list (pf_links hp') p' (us @ vs)" "frame_of hp' = frame_of hp" "\<forall>x. x \<notin> set (us @ vs) \<longrightarrow> hp' x = hp x"
    using delete_node_ok [OF l] by blast
  have dis: "set F \<inter> set (us @ vs) = {}" "b \<notin> set F" "b \<notin> set (us @ vs)"
    using pfdb_ok_distinct [OF assms] by auto
  have "pf_links hp' x = pf_links hp x" if "x \<in> set F" for x using that del(4) dis(1) by (auto simp: pf_links_def)
  then have "heap_list (pf_links hp') (pf_free pfdb) F"
    using F heap_list_cong [of F "pf_links hp'" "pf_links hp"] by blast
  then have "pfdb_ok (hp'(b := (hp' b)\<lparr>pf_next := pf_free pfdb\<rparr>)) (pfdb\<lparr>pf_used := p', pf_free := b\<rparr>) (b # F) (us @ vs)"
    using del(2,3) dis nn df by (auto simp: pfdb_ok_def)
  then show ?thesis using del(1,3) nn by (auto simp: pageframe_free_def Let_def)
qed

lemma pageframe_free_missing:
  assumes "pfdb_ok hp pfdb F U" "val \<notin> frame_of hp ` set U"
  shows "pageframe_free hp pfdb val = Some (Inl (Bug_on (if U = [] then ''pageframe_free'' else ''find_predecessor'')))"
proof (cases U)
  case Nil
  with assms show ?thesis by (simp add: pfdb_ok_def pageframe_free_def)
next
  case (Cons u us)
  then have l: "heap_list (pf_links hp) (pf_used pfdb) U" "pf_used pfdb = u" "u \<noteq> NULL"
    using assms(1) by (auto simp: pfdb_ok_def)
  have "find_predecessor_loop hp val (pf_used pfdb) = Some NULL"
    using find_predecessor_loop_missing [OF l(1), of val] assms(2) Cons by auto
  then show ?thesis
    using l assms(2) Cons by (auto simp: pageframe_free_def delete_node_def find_predecessor_def frame_of_def)
qed

subsection \<open>Initialisation\<close>

definition pf_node :: "u64 \<Rightarrow> nat \<Rightarrow> addr" where
  "pf_node fa i = VIRT_ADDR_KERNEL_START + (fa + of_nat i * sizeof_pageframe)"

lemma pf_node_Suc: "pf_node (fa + sizeof_pageframe) i = pf_node fa (Suc i)"
  by (simp add: pf_node_def algebra_simps)

lemma pf_node_bound:
  assumes "unat fa + 16 * n \<le> 2 ^ 47" "i < n"
  shows "unat (fa + of_nat i * sizeof_pageframe) = unat fa + 16 * i" "unat (pf_node fa i) = 0xffff800000000000 + (unat fa + 16 * i)"
proof -
  have "unat (of_nat i * sizeof_pageframe) = 16 * i"
    using assms unfolding sizeof_pageframe_def by (subst unat_mult_small) (simp_all add: unat_of_nat_small)
  then show u: "unat (fa + of_nat i * sizeof_pageframe) = unat fa + 16 * i"
    using assms by (subst unat_add_small) auto
  then show "unat (pf_node fa i) = 0xffff800000000000 + (unat fa + 16 * i)"
    using assms unat_va [of "fa + of_nat i * sizeof_pageframe"] by (simp add: pf_node_def)
qed

lemma pf_node_inj:
  assumes "unat fa + 16 * n \<le> 2 ^ 47" "i < n" "j < n" "pf_node fa i = pf_node fa j"
  shows "i = j"
proof -
  have "unat (pf_node fa i) = unat (pf_node fa j)" by (simp only: assms(4))
  then show ?thesis unfolding pf_node_bound(2) [OF assms(1,2)] pf_node_bound(2) [OF assms(1,3)] by linarith
qed

lemma pageframe_init_loop_spec:
  "unat fa + 16 * n \<le> 2 ^ 47 \<Longrightarrow> heap_list (pf_links hp) (pf_free db) F \<Longrightarrow> (\<And>i. i < n \<Longrightarrow> pf_node fa i \<notin> set F)
   \<Longrightarrow> \<exists>hp' db'. pageframe_init_loop n pt fa hp db = Inr (hp', db')
      \<and> heap_list (pf_links hp') (pf_free db') (rev (map (pf_node fa) [0..<n]) @ F) \<and> pf_used db' = pf_used db
      \<and> (\<forall>i<n. frame_of hp' (pf_node fa i) = pt + of_nat i * PAGEFRAME_SIZE)
      \<and> (\<forall>x. (\<forall>i<n. x \<noteq> pf_node fa i) \<longrightarrow> hp' x = hp x)"
proof (induction n arbitrary: pt fa hp db F)
  case (Suc n)
  let ?a = "pf_node fa 0"
  define hp1 where "hp1 = hp(?a := \<lparr>phy_addr = pt, pf_next = pf_free db\<rparr>)"
  have va: "va fa = Inr ?a" using Suc.prems(1) by (simp add: va_Inr pf_node_def)
  have b: "unat (fa + sizeof_pageframe) + 16 * n \<le> 2 ^ 47"
    using Suc.prems(1) unfolding sizeof_pageframe_def by (subst unat_add_small) auto
  have nz: "?a \<noteq> NULL" using pf_node_bound(2) [OF Suc.prems(1), of 0] by auto
  have l: "heap_list (pf_links hp1) (pf_free (db\<lparr>pf_free := ?a\<rparr>)) (?a # F)"
    using Suc.prems(2,3) nz unfolding hp1_def by auto
  have fresh: "pf_node (fa + sizeof_pageframe) i \<notin> set (?a # F)" if "i < n" for i
    using that Suc.prems(3) [of "Suc i"] pf_node_inj [OF Suc.prems(1), of "Suc i" 0] by (auto simp: pf_node_Suc)
  obtain hp' db' where r: "pageframe_init_loop n (pt + PAGEFRAME_SIZE) (fa + sizeof_pageframe) hp1 (db\<lparr>pf_free := ?a\<rparr>) = Inr (hp', db')"
      "heap_list (pf_links hp') (pf_free db') (rev (map (pf_node (fa + sizeof_pageframe)) [0..<n]) @ ?a # F)" "pf_used db' = pf_used db"
      "\<forall>i<n. frame_of hp' (pf_node (fa + sizeof_pageframe) i) = pt + PAGEFRAME_SIZE + of_nat i * PAGEFRAME_SIZE"
      "\<forall>x. (\<forall>i<n. x \<noteq> pf_node (fa + sizeof_pageframe) i) \<longrightarrow> hp' x = hp1 x"
    using Suc.IH [OF b l fresh, of "pt + PAGEFRAME_SIZE"] by auto
  have up: "[0..<Suc n] = 0 # map Suc [0..<n]" by (simp add: upt_conv_Cons map_Suc_upt del: upt_Suc)
  have "\<forall>i<n. ?a \<noteq> pf_node (fa + sizeof_pageframe) i" using fresh by (metis list.set_intros(1))
  then have "hp' ?a = hp1 ?a" using r(5) by blast
  then have "frame_of hp' (pf_node fa i) = pt + of_nat i * PAGEFRAME_SIZE" if "i < Suc n" for i
    using that r(4) [unfolded pf_node_Suc] by (cases i) (auto simp: hp1_def frame_of_def distrib_right)
  moreover have "hp' x = hp x" if "\<forall>i<Suc n. x \<noteq> pf_node fa i" for x
  proof -
    have "x \<noteq> ?a" "\<forall>i<n. x \<noteq> pf_node (fa + sizeof_pageframe) i" using that by (auto simp: pf_node_Suc)
    with r(5) show ?thesis by (simp add: hp1_def)
  qed
  moreover have "pageframe_init_loop (Suc n) pt fa hp db = Inr (hp', db')" using va r(1) by (simp add: hp1_def)
  moreover have "heap_list (pf_links hp') (pf_free db') (rev (map (pf_node fa) [0..<Suc n]) @ F)"
    using r(2) unfolding up by (simp add: o_def pf_node_Suc [symmetric])
  ultimately show ?case using r(3) by blast
qed simp

lemma pageframe_init_ok:
  assumes n: "n = unat (rg_length pfr) div 16" and fa: "unat (rg_base pfr) + 16 * n \<le> 2 ^ 47"
    and pt: "unat (rg_base ptr) + 4096 * n \<le> 2 ^ 64"
  shows "\<exists>hp' db'. pageframe_init hp ptr pfr = Inr (hp', db') \<and> pfdb_ok hp' db' (rev (map (pf_node (rg_base pfr)) [0..<n])) []
    \<and> (\<forall>i<n. frame_of hp' (pf_node (rg_base pfr) i) = rg_base ptr + of_nat i * PAGEFRAME_SIZE)"
proof -
  have "unat (rg_length pfr div sizeof_pageframe) = n" by (simp add: n unat_div_distrib sizeof_pageframe_def)
  moreover obtain hp' db' where r: "pageframe_init_loop n (rg_base ptr) (rg_base pfr) hp \<lparr>pf_free = NULL, pf_used = NULL\<rparr> = Inr (hp', db')"
      "heap_list (pf_links hp') (pf_free db') (rev (map (pf_node (rg_base pfr)) [0..<n]))" "pf_used db' = NULL"
      and f: "\<forall>i<n. frame_of hp' (pf_node (rg_base pfr) i) = rg_base ptr + of_nat i * PAGEFRAME_SIZE"
    using pageframe_init_loop_spec [OF fa, of hp "\<lparr>pf_free = NULL, pf_used = NULL\<rparr>" "[]" "rg_base ptr"] by auto
  moreover have "inj_on (\<lambda>i. rg_base ptr + of_nat i * PAGEFRAME_SIZE) {..<n}"
  proof (rule inj_onI)
    fix i j assume ij: "i \<in> {..<n}" "j \<in> {..<n}" "rg_base ptr + of_nat i * PAGEFRAME_SIZE = rg_base ptr + of_nat j * PAGEFRAME_SIZE"
    have u: "unat (of_nat i * PAGEFRAME_SIZE :: u64) = i * 4096" if "i < n" for i
      using that pt unfolding PAGEFRAME_SIZE_def by (subst unat_mult_small) (simp_all add: unat_of_nat_small)
    have "unat (of_nat i * PAGEFRAME_SIZE :: u64) = unat (of_nat j * PAGEFRAME_SIZE :: u64)"
      by (simp only: add_left_imp_eq [OF ij(3)])
    then show "i = j" unfolding u [OF ij(1) [unfolded lessThan_iff]] u [OF ij(2) [unfolded lessThan_iff]] by linarith
  qed
  then have "distinct (map (frame_of hp') (rev (map (pf_node (rg_base pfr)) [0..<n])))"
    using f by (auto simp: distinct_map o_def rev_map [symmetric] inj_on_def)
  ultimately show ?thesis by (simp add: pageframe_init_def pfdb_ok_def)
qed


subsection \<open>What the paging code relies on\<close>

text \<open>
  A frame allocator hands out the frames of a free list and takes back the ones in use.  \<open>ok s F U\<close> says
  that state \<open>s\<close> has the free frames \<open>F\<close>, in the order in which they are handed out, and the used frames \<open>U\<close>.
\<close>

locale frame_allocator =
  fixes ok :: "'s \<Rightarrow> u64 list \<Rightarrow> u64 list \<Rightarrow> bool"
    and alloc :: "'s \<Rightarrow> ('s \<times> u64) kres"
    and free :: "'s \<Rightarrow> u64 \<Rightarrow> 's kres option"
  assumes distinct_frames: "ok s F U \<Longrightarrow> distinct (F @ U)"
    and alloc_some: "ok s (f # F) U \<Longrightarrow> \<exists>s'. alloc s = Inr (s', f) \<and> ok s' F (f # U)"
    and alloc_none: "ok s [] U \<Longrightarrow> \<exists>e. alloc s = Inl e"
    and free_used: "ok s F U \<Longrightarrow> f \<in> set U \<Longrightarrow> \<exists>s'. free s f = Some (Inr s') \<and> ok s' (f # F) (remove1 f U)"
    and free_other: "ok s F U \<Longrightarrow> f \<notin> set U \<Longrightarrow> \<exists>e. free s f = Some (Inl e)"
begin

text \<open>Allocating \<open>n\<close> times in a row.\<close>

primrec alloc_n :: "nat \<Rightarrow> 's \<Rightarrow> ('s \<times> u64 list) kres" where
  "alloc_n 0 s = Inr (s, [])"
| "alloc_n (Suc n) s = kbind (alloc s) (\<lambda>(s, f). kbind (alloc_n n s) (\<lambda>(s, fs). Inr (s, f # fs)))"

lemma alloc_n_ok:
  "ok s F U \<Longrightarrow> n \<le> length F \<Longrightarrow> \<exists>s'. alloc_n n s = Inr (s', take n F) \<and> ok s' (drop n F) (rev (take n F) @ U)"
proof (induction n arbitrary: s F U)
  case (Suc n)
  then obtain f F' where F: "F = f # F'" by (cases F) auto
  obtain s1 where s1: "alloc s = Inr (s1, f)" "ok s1 F' (f # U)" using alloc_some Suc.prems(1) F by blast
  obtain s2 where "alloc_n n s1 = Inr (s2, take n F')" "ok s2 (drop n F') (rev (take n F') @ f # U)"
    using Suc.IH [OF s1(2)] Suc.prems(2) F by auto
  then show ?case using s1(1) F by simp
qed simp

lemma alloc_n_fresh:
  assumes "ok s F U" "n \<le> length F"
  shows "\<exists>s' fs. alloc_n n s = Inr (s', fs) \<and> length fs = n \<and> distinct fs \<and> set fs \<subseteq> set F \<and> set fs \<inter> set U = {}"
  using alloc_n_ok [OF assms] distinct_frames [OF assms(1)] assms(2) set_take_subset [of n F]
  by (fastforce simp: distinct_take)

lemma alloc_free_id:
  assumes "ok s (f # F) U"
  shows "\<exists>s1 s2. alloc s = Inr (s1, f) \<and> free s1 f = Some (Inr s2) \<and> ok s2 (f # F) U"
proof -
  obtain s1 where s1: "alloc s = Inr (s1, f)" "ok s1 F (f # U)" using alloc_some [OF assms] by blast
  then show ?thesis using free_used [OF s1(2), of f] by auto
qed

end

type_synonym pf_state = "pf_heap \<times> pageframe_database_t"

definition pf_ok :: "pf_state \<Rightarrow> u64 list \<Rightarrow> u64 list \<Rightarrow> bool" where
  "pf_ok s F U \<longleftrightarrow> (\<exists>Fn Us. pfdb_ok (fst s) (snd s) Fn Us \<and> F = map (frame_of (fst s)) Fn \<and> U = map (frame_of (fst s)) Us)"

lemma pf_ok_alloc:
  assumes "pf_ok s (f # F) U"
  shows "\<exists>s'. pageframe_alloc (fst s) (snd s) = Inr (s', f) \<and> pf_ok s' F (f # U)"
proof -
  obtain a Fn Us where ok: "pfdb_ok (fst s) (snd s) (a # Fn) Us" and m: "f = frame_of (fst s) a" "F = map (frame_of (fst s)) Fn" "U = map (frame_of (fst s)) Us"
    using assms by (auto simp: pf_ok_def Cons_eq_map_conv)
  from pageframe_alloc_ok [OF ok] m show ?thesis by (fastforce simp: pf_ok_def)
qed

lemma remove1_map_nth:
  assumes "distinct (map f (us @ b # vs))"
  shows "remove1 (f b) (map f (us @ b # vs)) = map f (us @ vs)"
proof -
  have "f b \<notin> set (map f us)" using assms by auto
  then show ?thesis by (simp add: remove1_append)
qed

lemma pf_ok_free:
  assumes "pf_ok s F U" "f \<in> set U"
  shows "\<exists>s'. pageframe_free (fst s) (snd s) f = Some (Inr s') \<and> pf_ok s' (f # F) (remove1 f U)"
proof -
  obtain Fn Us where ok: "pfdb_ok (fst s) (snd s) Fn Us" and m: "F = map (frame_of (fst s)) Fn" "U = map (frame_of (fst s)) Us"
    using assms by (auto simp: pf_ok_def)
  obtain us b vs where b: "Us = us @ b # vs" "f = frame_of (fst s) b"
    using assms(2) m(2) by (auto dest: split_list)
  have "distinct (map (frame_of (fst s)) Us)" using ok by (simp add: pfdb_ok_def)
  then have "remove1 f U = map (frame_of (fst s)) (us @ vs)"
    using remove1_map_nth [of "frame_of (fst s)" us b vs] by (simp only: b m(2))
  then show ?thesis using pageframe_free_ok [OF ok [unfolded b(1)]] b m by (fastforce simp: pf_ok_def)
qed

interpretation pfa: frame_allocator pf_ok "\<lambda>s. pageframe_alloc (fst s) (snd s)" "\<lambda>s. pageframe_free (fst s) (snd s)"
proof unfold_locales
  show "distinct (F @ U)" if "pf_ok s F U" for s F U using that by (auto simp: pf_ok_def pfdb_ok_def)
  show "\<exists>e. pageframe_alloc (fst s) (snd s) = Inl e" if "pf_ok s [] U" for s U
    using that pageframe_alloc_none by (fastforce simp: pf_ok_def)
  show "\<exists>e. pageframe_free (fst s) (snd s) f = Some (Inl e)" if "pf_ok s F U" "f \<notin> set U" for s F U f
    using that pageframe_free_missing by (fastforce simp: pf_ok_def)
qed (use pf_ok_alloc pf_ok_free in blast)+

lemma pageframe_init_frames:
  assumes "n = unat (rg_length pfr) div 16" "unat (rg_base pfr) + 16 * n \<le> 2 ^ 47"
    and "unat (rg_base ptr) + 4096 * n \<le> 2 ^ 64"
  shows "\<exists>s. pageframe_init hp ptr pfr = Inr s
    \<and> pf_ok s (rev (map (\<lambda>i. rg_base ptr + of_nat i * PAGEFRAME_SIZE) [0..<n])) []"
proof -
  obtain hp' db' where r: "pageframe_init hp ptr pfr = Inr (hp', db')"
      "pfdb_ok hp' db' (rev (map (pf_node (rg_base pfr)) [0..<n])) []"
      "\<forall>i<n. frame_of hp' (pf_node (rg_base pfr) i) = rg_base ptr + of_nat i * PAGEFRAME_SIZE"
    using pageframe_init_ok [OF assms] by blast
  have "map (frame_of hp') (rev (map (pf_node (rg_base pfr)) [0..<n])) = rev (map (\<lambda>i. rg_base ptr + of_nat i * PAGEFRAME_SIZE) [0..<n])"
    using r(3) by (simp add: rev_map [symmetric] del: upt.simps)
  then have "pf_ok (hp', db') (rev (map (\<lambda>i. rg_base ptr + of_nat i * PAGEFRAME_SIZE) [0..<n])) []"
    using r(2) by (auto simp: pf_ok_def intro!: exI [of _ "rev (map (pf_node (rg_base pfr)) [0..<n])"])
  then show ?thesis using r(1) by blast
qed

subsection \<open>Properties\<close>

text \<open>C16: \<open>pageframe_init\<close> turns a region for the database and a region for the tables into a database in
  which every frame of the latter is free exactly once and none is used.\<close>

theorem pageframe_init_correct:
  assumes "n = unat (rg_length pfr) div 16" "unat (rg_base pfr) + 16 * n \<le> 2 ^ 47"
    and "unat (rg_base ptr) + 4096 * n \<le> 2 ^ 64"
  shows "\<exists>s. pageframe_init hp ptr pfr = Inr s
    \<and> pf_ok s (rev (map (\<lambda>i. rg_base ptr + of_nat i * PAGEFRAME_SIZE) [0..<n])) []"
  using pageframe_init_frames [OF assms] .

theorem pageframe_init_correct_witness:
  "\<exists>s. pageframe_init (\<lambda>_. \<lparr>phy_addr = 0, pf_next = 0\<rparr>) \<lparr>rg_base = 0x200000, rg_length = 0x2000, rg_type = 0\<rparr>
     \<lparr>rg_base = 0x300000, rg_length = 32, rg_type = 0\<rparr> = Inr s \<and> pf_ok s [0x201000, 0x200000] []"
  using pageframe_init_correct [of 2 "\<lparr>rg_base = 0x300000, rg_length = 32, rg_type = 0\<rparr>"
      "\<lparr>rg_base = 0x200000, rg_length = 0x2000, rg_type = 0\<rparr>" "\<lambda>_. \<lparr>phy_addr = 0, pf_next = 0\<rparr>"]
  by (simp add: PAGEFRAME_SIZE_def upt_conv_Cons)

text \<open>C15: the contract of the database: an allocation hands out the first free frame and makes it used, or
  stops the kernel when there is none; a release takes back a used frame, and stops the kernel for any
  other address.\<close>

theorem pageframe_contract:
  assumes "pf_ok s F U"
  shows "(case F of [] \<Rightarrow> pageframe_alloc (fst s) (snd s) = Inl (Bug_on ''pageframe_alloc'')
     | f # F' \<Rightarrow> \<exists>s'. pageframe_alloc (fst s) (snd s) = Inr (s', f) \<and> pf_ok s' F' (f # U))
   \<and> (if f \<in> set U then \<exists>s'. pageframe_free (fst s) (snd s) f = Some (Inr s') \<and> pf_ok s' (f # F) (remove1 f U)
      else pageframe_free (fst s) (snd s) f = Some (Inl (Bug_on (if U = [] then ''pageframe_free'' else ''find_predecessor''))))"
proof (rule conjI)
  show "case F of [] \<Rightarrow> pageframe_alloc (fst s) (snd s) = Inl (Bug_on ''pageframe_alloc'')
     | f # F' \<Rightarrow> \<exists>s'. pageframe_alloc (fst s) (snd s) = Inr (s', f) \<and> pf_ok s' F' (f # U)"
    using assms pf_ok_alloc [of s] pageframe_alloc_none by (cases F) (auto simp: pf_ok_def)
  show "if f \<in> set U then \<exists>s'. pageframe_free (fst s) (snd s) f = Some (Inr s') \<and> pf_ok s' (f # F) (remove1 f U)
      else pageframe_free (fst s) (snd s) f = Some (Inl (Bug_on (if U = [] then ''pageframe_free'' else ''find_predecessor'')))"
    using pf_ok_free [OF assms, of f] assms pageframe_free_missing by (auto simp: pf_ok_def)
qed

definition pf_demo :: pf_state where
  "pf_demo = (\<lambda>a. if a = 16 then \<lparr>phy_addr = 0x1000, pf_next = 0\<rparr> else \<lparr>phy_addr = 0x2000, pf_next = 0\<rparr>,
     \<lparr>pf_free = 16, pf_used = 32\<rparr>)"

lemma pf_demo_ok: "pf_ok pf_demo [0x1000] [0x2000]"
  unfolding pf_ok_def
  by (rule exI [of _ "[16]"], rule exI [of _ "[32]"])
     (simp add: pf_demo_def pfdb_ok_def pf_links_def frame_of_def)

theorem pageframe_contract_witness:
  "\<exists>s'. pageframe_free (fst pf_demo) (snd pf_demo) 0x2000 = Some (Inr s') \<and> pf_ok s' [0x2000, 0x1000] []"
  using pageframe_contract [OF pf_demo_ok, of "0x2000"] by simp

text \<open>C17: releasing the frame just allocated gives back the database's lists of free and used frames, for every
  database that has a free frame.\<close>

theorem pageframe_alloc_free_roundtrip:
  assumes "pf_ok s (f # F) U"
  shows "\<exists>s1 s2. pageframe_alloc (fst s) (snd s) = Inr (s1, f) \<and> pageframe_free (fst s1) (snd s1) f = Some (Inr s2) \<and> pf_ok s2 (f # F) U"
  using pfa.alloc_free_id [OF assms] .

theorem pageframe_alloc_free_roundtrip_witness:
  "\<exists>s1 s2. pageframe_alloc (fst pf_demo) (snd pf_demo) = Inr (s1, 0x1000)
     \<and> pageframe_free (fst s1) (snd s1) 0x1000 = Some (Inr s2) \<and> pf_ok s2 [0x1000] [0x2000]"
  using pageframe_alloc_free_roundtrip [OF pf_demo_ok] .

end
