(* ===== verification/Page_Table.thy ===== *)
theory Page_Table
  imports Page_Frame Bit_Ops
begin

unbundle bit_operations_syntax

text \<open>
  The four-level page tables of src/kernel/mm/page.c.  The state has the 64-bit words the code reads and
  writes through virtual addresses, the nodes of the page-frame database, the descriptor \<open>pagetable_t\<close>, the
  register \<open>CR3\<close> and the addresses given to \<open>invlpg\<close>.  A packed page entry is a 64-bit word; the four entry
  structures of include/kernel/mm/page.h have the same layout and share one record.

  The 36-bit base field is shifted as a 64-bit value here.  GCC evaluates the shift at the width of the
  bit field; the two agree for tables below \<open>2 ^ 36\<close>, which the invariant of the proofs demands.

  The tables and the nodes of the page-frame database are two stores.  In the kernel they are two regions of the
  same memory; the model has their behaviour as long as the regions that \<open>paging_init\<close> is given do not overlap, and
  its two callers (src/kernel/mm/init.c, src/kernel/task/process.c) obtain each region by a \<open>kmalloc\<close> of its own.
\<close>

subsection \<open>Model\<close>

record pagetable_t =
  phys_root :: u64
  virt_root :: u64
  pgt_pfdb :: pageframe_database_t

record pg_state =
  pg_mem :: "addr \<Rightarrow> u64"
  pg_heap :: pf_heap
  pg_tab :: pagetable_t
  pg_cr3 :: u64
  pg_invlpg :: "u64 list"

record page_entry_t =
  pe_flags :: u16
  pe_base_addr :: u64
  pe_available_guardhole :: u16
  pe_no_execute_bit :: u8

definition page_entry_word :: "page_entry_t \<Rightarrow> u64" where
  "page_entry_word e =
     (ucast (pe_flags e) AND mask 12) OR push_bit 12 (pe_base_addr e AND mask 36)
     OR push_bit 48 (ucast (pe_available_guardhole e) AND mask 15) OR push_bit 63 (ucast (pe_no_execute_bit e) AND mask 1)"

definition entry_base_addr :: "u64 \<Rightarrow> u64" where
  "entry_base_addr w = drop_bit 12 w AND mask 36"

definition PAGE_SIZE :: u64 where "PAGE_SIZE = 0x1000"

definition PAGE_SHIFT :: nat where "PAGE_SHIFT = 12"

definition PAGE_PRESENT_BIT :: u16 where "PAGE_PRESENT_BIT = 1"

definition PAGE_READ_WRITE_BIT :: u16 where "PAGE_READ_WRITE_BIT = 2"

definition PAGE_GLOBAL_BIT :: u16 where "PAGE_GLOBAL_BIT = 256"

definition PREP_BASE_ADDR :: "u64 \<Rightarrow> u64" where
  "PREP_BASE_ADDR a = drop_bit PAGE_SHIFT a AND drop_bit (64 - (64 - 36)) UINT64_MAX"

definition PML4E :: "u64 \<Rightarrow> u64" where "PML4E a = extract_bit_chunk 39 47 a"

definition PDPTE :: "u64 \<Rightarrow> u64" where "PDPTE a = extract_bit_chunk 30 38 a"

definition PDE :: "u64 \<Rightarrow> u64" where "PDE a = extract_bit_chunk 21 29 a"

definition PTE :: "u64 \<Rightarrow> u64" where "PTE a = extract_bit_chunk 12 20 a"

definition paging_calc_space_needed :: "u64 \<Rightarrow> u64" where
  "paging_calc_space_needed bytes =
     (let mb_2 = (2 * 1024 * 1024 :: u32);
          pte_tables = (ucast (bytes div ucast mb_2) :: u32);
          pte_tables = (if bytes mod ucast mb_2 \<noteq> 0 then pte_tables + 1 else pte_tables);
          pd_tables = pte_tables div 512;
          pd_tables = (if pd_tables mod 512 \<noteq> 0 then pd_tables + 1 else pd_tables);
          pdp_tables = pd_tables div 512;
          pdp_tables = (if pdp_tables mod 512 \<noteq> 0 then pdp_tables + 1 else pdp_tables);
          pm4l_tables = 1;
          total_tables = pm4l_tables + pdp_tables + pd_tables + pte_tables
      in ucast (total_tables * 0x1000))"

text \<open>\<open>memzero\<close> on the words of the tables and on the nodes of the database.\<close>

definition memzero_words :: "addr \<Rightarrow> u64 \<Rightarrow> (addr \<Rightarrow> u64) \<Rightarrow> addr \<Rightarrow> u64" where
  "memzero_words p n m = (\<lambda>a. if a - p < n then 0 else m a)"

definition memzero_nodes :: "addr \<Rightarrow> u64 \<Rightarrow> pf_heap \<Rightarrow> pf_heap" where
  "memzero_nodes p n hp = (\<lambda>a. if a - p < n then \<lparr>phy_addr = 0, pf_next = NULL\<rparr> else hp a)"

definition paging_init :: "pg_state \<Rightarrow> mem_map_region_t \<Rightarrow> mem_map_region_t \<Rightarrow> pg_state kres" where
  "paging_init s k_pages_struct_rg k_pfdb_struct_rg =
     kbind (va (rg_base k_pages_struct_rg)) (\<lambda>pages_va.
     kbind (va (rg_base k_pfdb_struct_rg)) (\<lambda>pfdb_va.
     kbind (pageframe_init (memzero_nodes pfdb_va (rg_length k_pfdb_struct_rg) (pg_heap s))
              k_pages_struct_rg k_pfdb_struct_rg) (\<lambda>(hp, pfdb).
     kbind (pageframe_alloc hp pfdb) (\<lambda>((hp, pfdb), root).
     kbind (va root) (\<lambda>vroot.
       Inr (s\<lparr>pg_mem := memzero_words pages_va (rg_length k_pages_struct_rg) (pg_mem s), pg_heap := hp,
              pg_tab := \<lparr>phys_root = root, virt_root = vroot, pgt_pfdb = pfdb\<rparr>\<rparr>))))))"

definition is_page_entry_empty :: "pg_state \<Rightarrow> addr \<Rightarrow> bool" where
  "is_page_entry_empty s entry \<longleftrightarrow> pg_mem s entry = 0"

definition entry_ptr :: "addr \<Rightarrow> u16 \<Rightarrow> addr" where
  "entry_ptr pgtable idx = pgtable + ucast idx * 8"

definition new_entry :: "u64 \<Rightarrow> u16 \<Rightarrow> u64" where
  "new_entry dest flags = page_entry_word \<lparr>pe_flags = flags, pe_base_addr = PREP_BASE_ADDR dest,
     pe_available_guardhole = 0, pe_no_execute_bit = 0\<rparr>"

text \<open>The block that makes sure an entry of one of the upper three levels has a table below it.\<close>

definition alloc_table :: "pg_state \<Rightarrow> addr \<Rightarrow> u16 \<Rightarrow> u16 \<Rightarrow> pg_state kres" where
  "alloc_table s pgtable idx flags =
     (if is_page_entry_empty s (entry_ptr pgtable idx) then
        kbind (pageframe_alloc (pg_heap s) (pgt_pfdb (pg_tab s))) (\<lambda>((hp, pfdb), pgtable_addr).
          Inr (s\<lparr>pg_heap := hp, pg_tab := (pg_tab s)\<lparr>pgt_pfdb := pfdb\<rparr>,
                 pg_mem := (pg_mem s)(entry_ptr pgtable idx := new_entry pgtable_addr flags)\<rparr>))
      else Inr s)"

definition next_table :: "pg_state \<Rightarrow> addr \<Rightarrow> u16 \<Rightarrow> addr kres" where
  "next_table s pgtable idx = va (push_bit PAGE_SHIFT (entry_base_addr (pg_mem s (entry_ptr pgtable idx))))"

definition alloc_page :: "pg_state \<Rightarrow> addr \<Rightarrow> u16 \<Rightarrow> u64 \<Rightarrow> u16 \<Rightarrow> pg_state" where
  "alloc_page s pt_pgtable pt_idx p_dest_addr flags =
     (if is_page_entry_empty s (entry_ptr pt_pgtable pt_idx)
      then s\<lparr>pg_mem := (pg_mem s)(entry_ptr pt_pgtable pt_idx := new_entry p_dest_addr flags)\<rparr> else s)"

definition page_alloc :: "pg_state \<Rightarrow> u64 \<Rightarrow> u64 \<Rightarrow> u16 \<Rightarrow> pg_state kres" where
  "page_alloc s v_addr p_dest_addr flags =
     (let pm4l_idx = ucast (PML4E v_addr);
          pdp_idx = ucast (PDPTE v_addr);
          pd_idx = ucast (PDE v_addr);
          pt_idx = ucast (PTE v_addr);
          pml4_pgtable = virt_root (pg_tab s)
      in kbind (alloc_table s pml4_pgtable pm4l_idx flags) (\<lambda>s.
         kbind (next_table s pml4_pgtable pm4l_idx) (\<lambda>pdp_pgtable.
         kbind (alloc_table s pdp_pgtable pdp_idx flags) (\<lambda>s.
         kbind (next_table s pdp_pgtable pdp_idx) (\<lambda>pd_pgtable.
         kbind (alloc_table s pd_pgtable pd_idx flags) (\<lambda>s.
         kbind (next_table s pd_pgtable pd_idx) (\<lambda>pt_pgtable.
         Inr (alloc_page s pt_pgtable pt_idx p_dest_addr flags))))))))"

text \<open>The loop reads the same first byte of the table in all of its 512 rounds.\<close>

fun is_pagetable_empty_loop :: "nat \<Rightarrow> u8 \<Rightarrow> bool" where
  "is_pagetable_empty_loop 0 src = True"
| "is_pagetable_empty_loop (Suc n) src = (if src \<noteq> 0 then False else is_pagetable_empty_loop n src)"

definition is_pagetable_empty :: "pg_state \<Rightarrow> addr \<Rightarrow> bool" where
  "is_pagetable_empty s pgtable = is_pagetable_empty_loop 512 (ucast (pg_mem s pgtable))"

definition level_idx :: "nat \<Rightarrow> u64 \<Rightarrow> u16 kres" where
  "level_idx level v_addr =
     (if level = 4 then Inr (ucast (PML4E v_addr))
      else if level = 3 then Inr (ucast (PDPTE v_addr))
      else if level = 2 then Inr (ucast (PDE v_addr))
      else if level = 1 then Inr (ucast (PTE v_addr))
      else Inl (Bug_on ''page_free_resources''))"

text \<open>\<open>None\<close> is a search of the used list that does not end.\<close>

fun page_free_resources :: "pg_state \<Rightarrow> u64 \<Rightarrow> u64 \<Rightarrow> nat \<Rightarrow> (pg_state \<times> bool) kres option" where
  "page_free_resources s pgt_phy_addr v_addr 0 = Some (Inr (s, True))"
| "page_free_resources s pgt_phy_addr v_addr (Suc level) =
     obind (Some (va pgt_phy_addr)) (\<lambda>pgt_virt_addr.
     obind (Some (level_idx (Suc level) v_addr)) (\<lambda>idx.
     obind (Some (va (pgt_phy_addr + ucast idx * 8))) (\<lambda>page_entry.
     let lpgt_phy_base_addr = push_bit PAGE_SHIFT (extract_bit_chunk 12 51 (pg_mem s page_entry))
     in obind (page_free_resources s lpgt_phy_base_addr v_addr level) (\<lambda>(s, freed).
        if freed then
          (let s = s\<lparr>pg_mem := (pg_mem s)(page_entry := 0)\<rparr>
           in if is_pagetable_empty s pgt_virt_addr then
                obind (pageframe_free (pg_heap s) (pgt_pfdb (pg_tab s)) pgt_phy_addr) (\<lambda>(hp, pfdb).
                  Some (Inr (s\<lparr>pg_heap := hp, pg_tab := (pg_tab s)\<lparr>pgt_pfdb := pfdb\<rparr>\<rparr>, True)))
              else Some (Inr (s, False)))
        else Some (Inr (s, False))))))"

definition page_free :: "pg_state \<Rightarrow> u64 \<Rightarrow> pg_state kres option" where
  "page_free s v_addr =
     obind (page_free_resources s (phys_root (pg_tab s)) v_addr 4) (\<lambda>(s, _).
       Some (Inr (s\<lparr>pg_invlpg := pg_invlpg s @ [v_addr]\<rparr>)))"

text \<open>\<open>None\<close> is a loop that does not end, which happens when the end is in the last page of the address space.\<close>

partial_function (option) paging_contiguous_map ::
  "pg_state \<Rightarrow> u64 \<Rightarrow> u64 \<Rightarrow> u64 \<Rightarrow> u16 \<Rightarrow> pg_state kres option" where
  "paging_contiguous_map s p_start_addr p_end_addr v_base_start_addr flags =
     (if p_start_addr \<le> p_end_addr
      then (case page_alloc s v_base_start_addr p_start_addr flags of
              Inl e \<Rightarrow> Some (Inl e)
            | Inr s \<Rightarrow> paging_contiguous_map s (p_start_addr + PAGE_SIZE) p_end_addr (v_base_start_addr + PAGE_SIZE) flags)
      else Some (Inr s))"

definition paging_reload_cr3 :: "pg_state \<Rightarrow> pg_state" where
  "paging_reload_cr3 s = s\<lparr>pg_cr3 := phys_root (pg_tab s)\<rparr>"

subsection \<open>Entries\<close>

lemma bit_new_entry:
  "bit (new_entry d fl) n \<longleftrightarrow> (if n < 12 then bit fl n else n < 40 \<and> bit d n)"
  unfolding new_entry_def page_entry_word_def PREP_BASE_ADDR_def PAGE_SHIFT_def
  by (auto simp: bit_simps)

definition child :: "u64 \<Rightarrow> u64" where "child e = push_bit 12 (entry_base_addr e)"

text \<open>Page-table frames are page aligned and, as explained above, lie below \<open>2 ^ 36\<close>.\<close>

definition table_frame :: "u64 \<Rightarrow> bool" where
  "table_frame f \<longleftrightarrow> take_bit 12 f = 0 \<and> drop_bit 36 f = 0"

lemma bit_child: "bit (child e) n \<longleftrightarrow> 12 \<le> n \<and> n < 48 \<and> bit e n"
  unfolding child_def entry_base_addr_def by (auto simp: bit_simps)

lemma child_new_entry: "table_frame f \<Longrightarrow> child (new_entry f fl) = f"
proof (rule bit_word_eqI)
  fix n assume f: "table_frame f" and n: "n < LENGTH(64)"
  have "\<not> bit f n" if "n < 12" using f that bit_take_bit_iff [of 12 f n] by (simp add: table_frame_def)
  moreover have "\<not> bit f n" if "36 \<le> n" using f that bit_drop_bit_eq [of 36 f] by (auto simp: table_frame_def fun_eq_iff dest: spec [of _ "n - 36"])
  ultimately have "bit f n \<Longrightarrow> 12 \<le> n \<and> n < 36" by (meson not_less)
  then show "bit (child (new_entry f fl)) n = bit f n" by (auto simp: bit_child bit_new_entry)
qed

lemma present_new_entry: "bit (new_entry f fl) 0 = bit fl 0"
  by (simp add: bit_new_entry)

lemma new_entry_nonzero: "bit fl 0 \<Longrightarrow> new_entry f fl \<noteq> 0"
  using present_new_entry [of f fl] by (auto simp del: bit_0)

text \<open>The address of entry \<open>i\<close> of the table in frame \<open>t\<close>, as the code reaches it.\<close>

definition slot :: "u64 \<Rightarrow> u64 \<Rightarrow> addr" where "slot t i = VIRT_ADDR_KERNEL_START + (t + i * 8)"

lemma unat_take_bit_mod: "unat (take_bit n (w :: u64)) = unat w mod 2 ^ n"
  by (simp add: unsigned_take_bit_eq) (simp add: take_bit_eq_mod)

lemma table_frame_unat: "table_frame f \<Longrightarrow> unat f < 2 ^ 36 \<and> 4096 dvd unat f"
proof -
  assume f: "table_frame f"
  then have "unat (drop_bit 36 f) = 0" "unat (take_bit 12 f) = 0" by (simp_all add: table_frame_def)
  then have "unat f div 2 ^ 36 = 0" "unat f mod 2 ^ 12 = 0"
    by (simp_all only: drop_bit_unat_div unat_take_bit_mod)
  then show ?thesis by (auto simp: div_eq_0_iff)
qed

lemma unat_slot:
  assumes "table_frame t" "i < 512"
  shows "unat (slot t i) = 0xffff800000000000 + (unat t + unat i * 8)"
proof -
  have i: "unat i < 512" using assms(2) by (simp add: word_less_nat_alt)
  then have "unat (i * 8) = unat i * 8" by (subst unat_mult_small) auto
  then have "unat (t + i * 8) = unat t + unat i * 8" using i table_frame_unat [OF assms(1)] by (subst unat_add_small) auto
  then show ?thesis using unat_va [of "t + i * 8"] i table_frame_unat [OF assms(1)] by (simp add: slot_def)
qed

lemma slot_inj:
  assumes "table_frame t" "table_frame t'" "i < 512" "i' < 512" "slot t i = slot t' i'"
  shows "t = t' \<and> i = i'"
proof -
  obtain q q' where q: "unat t = 4096 * q" "unat t' = 4096 * q'"
    using table_frame_unat [OF assms(1)] table_frame_unat [OF assms(2)] by (auto simp: dvd_def)
  have "unat i < 512" "unat i' < 512" using assms(3,4) by (auto simp: word_less_nat_alt)
  moreover have "unat (slot t i) = unat (slot t' i')" by (simp only: assms(5))
  ultimately have *: "4096 * q + unat i * 8 = 4096 * q' + unat i' * 8" "unat i < 512" "unat i' < 512"
    unfolding unat_slot [OF assms(1,3)] unat_slot [OF assms(2,4)] q by simp_all
  then have "q = q'" by linarith
  with * have "q = q'" "unat i = unat i'" by simp_all
  then show ?thesis using q by (simp add: word_unat_eq_iff)
qed

lemma va_table: "table_frame t \<Longrightarrow> va t = Inr (VIRT_ADDR_KERNEL_START + t)"
  using table_frame_unat [of t] by (auto simp: va_Inr)

subsection \<open>Address translation\<close>

text \<open>
  The translation the processor performs: \<open>table_at m r v k\<close> is the frame reached from the root \<open>r\<close> after \<open>k\<close>
  steps for the virtual address \<open>v\<close>, an entry being followed when its present bit is set.
\<close>

definition pt_index :: "nat \<Rightarrow> u64 \<Rightarrow> u64" where "pt_index k v = take_bit 9 (drop_bit (39 - 9 * k) v)"

primrec table_at :: "(addr \<Rightarrow> u64) \<Rightarrow> u64 \<Rightarrow> u64 \<Rightarrow> nat \<Rightarrow> u64 option" where
  "table_at m r v 0 = Some r"
| "table_at m r v (Suc k) =
     (case table_at m r v k of None \<Rightarrow> None
      | Some t \<Rightarrow> if bit (m (slot t (pt_index k v))) 0 then Some (child (m (slot t (pt_index k v)))) else None)"

definition translate :: "(addr \<Rightarrow> u64) \<Rightarrow> u64 \<Rightarrow> u64 \<Rightarrow> u64 option" where
  "translate m r v = map_option (\<lambda>f. f OR take_bit 12 v) (table_at m r v 4)"

text \<open>The number of the page of a virtual address.\<close>

definition vpage :: "u64 \<Rightarrow> u64" where "vpage v = take_bit 36 (drop_bit 12 v)"

lemma pt_index_bound: "pt_index k v < 512"
proof -
  have "unat (pt_index k v) = unat (drop_bit (39 - 9 * k) v) mod 2 ^ 9"
    by (simp only: pt_index_def unat_take_bit_mod)
  then show ?thesis by (simp add: word_less_nat_alt)
qed

lemma indexes_of_walk:
  "PML4E v = pt_index 0 v" "PDPTE v = pt_index 1 v" "PDE v = pt_index 2 v" "PTE v = pt_index 3 v"
  by (simp_all add: PML4E_def PDPTE_def PDE_def PTE_def pt_index_def extract_bit_chunk_eq)

lemma entry_ptr_slot: "entry_ptr (VIRT_ADDR_KERNEL_START + t) (ucast (pt_index k v)) = slot t (pt_index k v)"
proof -
  have "ucast (ucast (pt_index k v) :: u16) = pt_index k v"
    by (rule bit_word_eqI) (auto simp: bit_simps pt_index_def)
  then show ?thesis by (simp add: entry_ptr_def slot_def)
qed

lemma vpage_iff_indexes: "vpage v = vpage v' \<longleftrightarrow> (\<forall>k<4. pt_index k v = pt_index k v')"
proof
  assume "vpage v = vpage v'"
  then have "bit (vpage v) n = bit (vpage v') n" for n by simp
  then have e: "(n < 36 \<and> bit v (12 + n)) = (n < 36 \<and> bit v' (12 + n))" for n by (simp add: vpage_def bit_simps)
  have b: "bit v n = bit v' n" if "12 \<le> n" "n < 48" for n
  proof -
    have "n - 12 < 36" using that by linarith
    with e [of "n - 12"] that show ?thesis by simp
  qed
  show "\<forall>k<4. pt_index k v = pt_index k v'"
    by (auto intro!: bit_word_eqI simp: pt_index_def bit_simps b)
next
  assume *: "\<forall>k<4. pt_index k v = pt_index k v'"
  have "bit v (12 + n) = bit v' (12 + n)" if "n < 36" for n
  proof -
    let ?k = "3 - n div 9"
    have "39 - 9 * ?k = 12 + 9 * (n div 9)" using that by linarith
    then have "bit (pt_index ?k w) (n mod 9) = bit w (12 + n)" for w
      by (simp add: pt_index_def bit_simps add.assoc)
    moreover have "pt_index ?k v = pt_index ?k v'" using * by simp
    ultimately show ?thesis by metis
  qed
  then show "vpage v = vpage v'" by (auto intro!: bit_word_eqI simp: vpage_def bit_simps)
qed

subsection \<open>The invariant of the tables\<close>

text \<open>\<open>T k\<close> is the set of the frames that hold tables of depth \<open>k\<close>, from the root (0) to the page tables (3).\<close>

definition tables_ok :: "(addr \<Rightarrow> u64) \<Rightarrow> u64 \<Rightarrow> (nat \<Rightarrow> u64 set) \<Rightarrow> bool" where
  "tables_ok m r T \<longleftrightarrow>
     T 0 = {r} \<and> (\<forall>k<4. \<forall>j<4. k \<noteq> j \<longrightarrow> T k \<inter> T j = {}) \<and> (\<forall>k<4. \<forall>t\<in>T k. table_frame t)
     \<and> (\<forall>k<4. \<forall>t\<in>T k. \<forall>i<512. m (slot t i) \<noteq> 0 \<longrightarrow> bit (m (slot t i)) 0 \<and> drop_bit 48 (m (slot t i)) = 0)
     \<and> (\<forall>k<3. \<forall>t\<in>T k. \<forall>i<512. m (slot t i) \<noteq> 0 \<longrightarrow> child (m (slot t i)) \<in> T (Suc k))
     \<and> (\<forall>k<3. \<forall>t\<in>T k. \<forall>t'\<in>T k. \<forall>i<512. \<forall>i'<512. m (slot t i) \<noteq> 0 \<longrightarrow> m (slot t' i') \<noteq> 0 \<longrightarrow>
            child (m (slot t i)) = child (m (slot t' i')) \<longrightarrow> t = t' \<and> i = i')"

lemma tables_okD:
  assumes "tables_ok m r T"
  shows "T 0 = {r}" "k < 4 \<Longrightarrow> j < 4 \<Longrightarrow> t \<in> T k \<Longrightarrow> t \<in> T j \<Longrightarrow> k = j"
    "k < 4 \<Longrightarrow> t \<in> T k \<Longrightarrow> table_frame t"
    "k < 4 \<Longrightarrow> t \<in> T k \<Longrightarrow> i < 512 \<Longrightarrow> m (slot t i) \<noteq> 0 \<Longrightarrow> bit (m (slot t i)) 0"
    "k < 4 \<Longrightarrow> t \<in> T k \<Longrightarrow> i < 512 \<Longrightarrow> m (slot t i) \<noteq> 0 \<Longrightarrow> drop_bit 48 (m (slot t i)) = 0"
    "k < 3 \<Longrightarrow> t \<in> T k \<Longrightarrow> i < 512 \<Longrightarrow> m (slot t i) \<noteq> 0 \<Longrightarrow> child (m (slot t i)) \<in> T (Suc k)"
    "k < 3 \<Longrightarrow> t \<in> T k \<Longrightarrow> t' \<in> T k \<Longrightarrow> i < 512 \<Longrightarrow> i' < 512 \<Longrightarrow> m (slot t i) \<noteq> 0 \<Longrightarrow> m (slot t' i') \<noteq> 0
       \<Longrightarrow> child (m (slot t i)) = child (m (slot t' i')) \<Longrightarrow> t = t' \<and> i = i'"
  using assms unfolding tables_ok_def by (blast+)?

lemma present_iff:
  assumes "tables_ok m r T" "k < 4" "t \<in> T k" "i < 512"
  shows "bit (m (slot t i)) 0 \<longleftrightarrow> m (slot t i) \<noteq> 0"
  using tables_okD(4) [OF assms] by (auto simp del: bit_0)

lemma table_at_depth:
  assumes "tables_ok m r T"
  shows "k < 4 \<Longrightarrow> table_at m r v k = Some t \<Longrightarrow> t \<in> T k"
proof (induction k arbitrary: t)
  case 0
  then show ?case using tables_okD(1) [OF assms] by simp
next
  case (Suc k)
  then obtain t0 where t0: "table_at m r v k = Some t0" "bit (m (slot t0 (pt_index k v))) 0" "t = child (m (slot t0 (pt_index k v)))"
    by (auto split: option.splits if_splits simp del: bit_0)
  have k: "k < 4" "k < 3" using Suc.prems(1) by auto
  have "m (slot t0 (pt_index k v)) \<noteq> 0" using t0(2) by auto
  then show ?case using tables_okD(6) [OF assms k(2) Suc.IH [OF k(1) t0(1)] pt_index_bound] t0(3) by simp
qed

lemma table_at_cong: "\<forall>j<k. pt_index j u = pt_index j v \<Longrightarrow> table_at m r u k = table_at m r v k"
proof (induction k)
  case (Suc k)
  then have "pt_index k u = pt_index k v" "table_at m r u k = table_at m r v k" by simp_all
  then show ?case by (simp split: option.split)
qed simp

lemma table_at_None: "table_at m r v j = None \<Longrightarrow> j \<le> k \<Longrightarrow> table_at m r v k = None"
  by (induction k rule: nat_induct) (auto simp: le_Suc_eq)

text \<open>A table is reached on one path only.\<close>

lemma table_at_unique:
  assumes ok: "tables_ok m r T"
  shows "k < 4 \<Longrightarrow> table_at m r v k = Some t \<Longrightarrow> table_at m r v' k = Some t \<Longrightarrow> j < k \<Longrightarrow> pt_index j v = pt_index j v'"
proof (induction k arbitrary: t)
  case (Suc k)
  from Suc.prems(2) obtain a where a: "table_at m r v k = Some a" "bit (m (slot a (pt_index k v))) 0" "t = child (m (slot a (pt_index k v)))"
    by (auto split: option.splits if_splits simp del: bit_0)
  from Suc.prems(3) obtain b where b: "table_at m r v' k = Some b" "bit (m (slot b (pt_index k v'))) 0" "t = child (m (slot b (pt_index k v')))"
    by (auto split: option.splits if_splits simp del: bit_0)
  have k: "k < 3" "k < 4" using Suc.prems(1) by auto
  have T: "a \<in> T k" "b \<in> T k" using table_at_depth [OF ok k(2)] a(1) b(1) by blast+
  have "m (slot a (pt_index k v)) \<noteq> 0" "m (slot b (pt_index k v')) \<noteq> 0" using a(2) b(2) by auto
  then have "a = b \<and> pt_index k v = pt_index k v'"
    using tables_okD(7) [OF ok k(1) T pt_index_bound pt_index_bound] a(3) b(3) by simp
  then show ?case using Suc.IH [OF k(2) a(1)] b(1) Suc.prems(4) by (cases "j = k") auto
qed simp

text \<open>What writing the empty entry \<open>i\<close> of table \<open>t\<close> does to the walks.\<close>

lemma slot_other:
  assumes "tables_ok m r T" "k < 4" "t \<in> T k" "i < 512" "j < 4" "a \<in> T j" "x < 512" "\<not> (a = t \<and> x = i)"
  shows "(m(slot t i := w)) (slot a x) = m (slot a x)"
  using slot_inj [OF tables_okD(3) [OF assms(1,5,6)] tables_okD(3) [OF assms(1,2,3)] assms(7,4)] assms(8) by auto

lemma walk_before:
  assumes ok: "tables_ok m r T" "k < 4" "t \<in> T k" "i < 512"
  shows "j \<le> k \<Longrightarrow> table_at (m(slot t i := w)) r v j = table_at m r v j"
proof (induction j)
  case (Suc j)
  then have j: "j < 4" "j \<noteq> k" using ok(2) by auto
  have "(m(slot t i := w)) (slot a (pt_index j v)) = m (slot a (pt_index j v))" if "table_at m r v j = Some a" for a
  proof -
    have a: "a \<in> T j" using table_at_depth [OF ok(1) j(1) that] .
    have "a \<noteq> t" using tables_okD(2) [OF ok(1) j(1) ok(2) a] ok(3) j(2) by auto
    then show ?thesis using slot_other [OF ok j(1) a pt_index_bound] by simp
  qed
  then show ?case using Suc.IH Suc.prems by (auto split: option.split simp del: fun_upd_apply)
qed simp

lemma walk_at:
  assumes ok: "tables_ok m r T" "k < 4" "t \<in> T k" "i < 512" and w: "bit w 0"
  shows "table_at (m(slot t i := w)) r v (Suc k)
    = (if table_at m r v k = Some t \<and> pt_index k v = i then Some (child w) else table_at m r v (Suc k))"
proof (cases "table_at m r v k")
  case None
  then show ?thesis using walk_before [OF ok, of k w v] by simp
next
  case (Some a)
  have a: "a \<in> T k" using table_at_depth [OF ok(1,2) Some] .
  have b: "table_at (m(slot t i := w)) r v k = Some a" using walk_before [OF ok, of k w v] Some by simp
  show ?thesis
  proof (cases "a = t \<and> pt_index k v = i")
    case True
    then show ?thesis using b Some w by (simp del: bit_0)
  next
    case False
    then show ?thesis using b Some slot_other [OF ok ok(2) a pt_index_bound False, of w] by (auto simp del: fun_upd_apply bit_0)
  qed
qed

text \<open>A fresh table: its frame is in no table of the walk and all its entries are empty.\<close>

definition fresh_table :: "(addr \<Rightarrow> u64) \<Rightarrow> (nat \<Rightarrow> u64 set) \<Rightarrow> u64 \<Rightarrow> bool" where
  "fresh_table m T f \<longleftrightarrow> table_frame f \<and> (\<forall>k<4. f \<notin> T k) \<and> (\<forall>i<512. m (slot f i) = 0)"

lemma slot_fresh:
  assumes "tables_ok m r T" "k < 4" "t \<in> T k" "i < 512" "fresh_table m T f" "x < 512"
  shows "(m(slot t i := w)) (slot f x) = 0"
proof -
  have "f \<noteq> t" using assms by (auto simp: fresh_table_def)
  then have "slot f x \<noteq> slot t i"
    using slot_inj [of f t x i] tables_okD(3) [OF assms(1,2,3)] assms by (auto simp: fresh_table_def)
  then show ?thesis using assms by (simp add: fresh_table_def)
qed

lemma walk_next:
  assumes ok: "tables_ok m r T" "k < 4" "t \<in> T k" "i < 512" and e: "m (slot t i) = 0" and w: "bit w 0" "fresh_table m T (child w)"
    and k: "k < 3"
  shows "table_at (m(slot t i := w)) r v (Suc (Suc k)) = table_at m r v (Suc (Suc k))"
proof (cases "table_at m r v k = Some t \<and> pt_index k v = i")
  case True
  then have "table_at (m(slot t i := w)) r v (Suc k) = Some (child w)" using walk_at [OF ok w(1)] by simp
  moreover have "table_at m r v (Suc k) = None" using True e by simp
  ultimately show ?thesis using slot_fresh [OF ok w(2) pt_index_bound, of w] by (simp del: fun_upd_apply table_at.simps(2) add: table_at.simps(2) [of _ _ _ "Suc k"])
next
  case False
  then have s: "table_at (m(slot t i := w)) r v (Suc k) = table_at m r v (Suc k)" using walk_at [OF ok w(1)] by auto
  have "(m(slot t i := w)) (slot a (pt_index (Suc k) v)) = m (slot a (pt_index (Suc k) v))" if "table_at m r v (Suc k) = Some a" for a
  proof -
    have k': "Suc k < 4" using k by simp
    have a: "a \<in> T (Suc k)" using table_at_depth [OF ok(1) k' that] .
    have "a \<noteq> t" using tables_okD(2) [OF ok(1) k' ok(2) a] ok(3) by auto
    then show ?thesis using slot_other [OF ok k' a pt_index_bound] by simp
  qed
  then show ?thesis using s by (auto split: option.split simp del: fun_upd_apply bit_0 table_at.simps(2) simp add: table_at.simps(2) [of _ _ _ "Suc k"])
qed

lemma walk_after:
  assumes ok: "tables_ok m r T" "k < 4" "t \<in> T k" "i < 512" and e: "m (slot t i) = 0" and w: "bit w 0" "fresh_table m T (child w)"
    and k: "k < 3"
  shows "k + 2 \<le> j \<Longrightarrow> j \<le> 4 \<Longrightarrow> table_at (m(slot t i := w)) r v j = table_at m r v j"
proof (induction j rule: dec_induct)
  case base
  have "k + 2 = Suc (Suc k)" by simp
  then show ?case using walk_next [OF ok e w k] by (simp only:)
next
  case (step j)
  then have j: "j < 4" "j \<noteq> k" by auto
  have "(m(slot t i := w)) (slot a (pt_index j v)) = m (slot a (pt_index j v))" if "table_at m r v j = Some a" for a
  proof -
    have a: "a \<in> T j" using table_at_depth [OF ok(1) j(1) that] .
    have "a \<noteq> t" using tables_okD(2) [OF ok(1) j(1) ok(2) a] ok(3) j(2) by auto
    then show ?thesis using slot_other [OF ok j(1) a pt_index_bound] by simp
  qed
  then show ?case using step by (auto split: option.split simp del: fun_upd_apply bit_0)
qed

text \<open>The structure is kept: by a new table below an empty entry, and by a new page.\<close>

lemma tables_ok_add_table:
  assumes ok: "tables_ok m r T" "k < 4" "t \<in> T k" "i < 512" and e: "m (slot t i) = 0" and w: "bit w 0" "drop_bit 48 w = 0" "fresh_table m T (child w)"
    and k: "k < 3"
  shows "tables_ok (m(slot t i := w)) r (T(Suc k := insert (child w) (T (Suc k))))"
    (is "tables_ok ?m r ?T")
proof -
  let ?f = "child w"
  have f: "table_frame ?f" "\<And>j. j < 4 \<Longrightarrow> ?f \<notin> T j" using w(3) by (auto simp: fresh_table_def)
  have fz: "x < 512 \<Longrightarrow> ?m (slot ?f x) = 0" for x using slot_fresh [OF ok w(3)] by blast
  have nz: "(a = t \<and> x = i \<and> j = k) \<or> (\<not> (a = t \<and> x = i) \<and> a \<in> T j \<and> ?m (slot a x) = m (slot a x))"
    if "j < 4" "a \<in> ?T j" "x < 512" "?m (slot a x) \<noteq> 0" for j a x
  proof -
    have "a \<noteq> ?f" using fz [OF that(3)] that(4) by metis
    then have a: "a \<in> T j" using that(2) by (auto split: if_splits)
    then show ?thesis using slot_other [OF ok that(1) a that(3), of w] tables_okD(2) [OF ok(1) ok(2) that(1) ok(3)]
      by (cases "a = t \<and> x = i") (auto simp del: fun_upd_apply)
  qed
  have mt: "?m (slot t i) = w" by simp
  have c: "child (?m (slot a x)) \<in> ?T (Suc j)" if "j < 3" "a \<in> ?T j" "x < 512" "?m (slot a x) \<noteq> 0" for j a x
    using nz [of j a x] that tables_okD(6) [OF ok(1), of j a x] mt by (auto simp del: fun_upd_apply) auto
  have inj: "a = b \<and> x = y"
    if j: "j < 3" and ab: "a \<in> ?T j" "b \<in> ?T j" "x < 512" "y < 512" and n: "?m (slot a x) \<noteq> 0" "?m (slot b y) \<noteq> 0"
      and eq: "child (?m (slot a x)) = child (?m (slot b y))" for j a b x y
  proof -
    have j4: "j < 4" "Suc j < 4" using j by auto
    have old: "child (m (slot a x)) \<noteq> ?f" if "a \<in> T j" "x < 512" "m (slot a x) \<noteq> 0" for a x
      using tables_okD(6) [OF ok(1) j that] f(2) [OF j4(2)] by auto
    show ?thesis
      using nz [OF j4(1) ab(1) ab(3) n(1)] nz [OF j4(1) ab(2) ab(4) n(2)] old [of a x] old [of b y] eq mt n ab(3,4)
        tables_okD(7) [OF ok(1) j, of a b x y]
      by (auto simp del: fun_upd_apply)
  qed
  show ?thesis
    unfolding tables_ok_def
  proof (intro conjI allI ballI impI)
    show "?T 0 = {r}" using tables_okD(1) [OF ok(1)] by simp
    show "?T j \<inter> ?T l = {}" if "j < 4" "l < 4" "j \<noteq> l" for j l
      using that tables_okD(2) [OF ok(1), of j l] f(2) [of j] f(2) [of l] by (auto split: if_splits)
    show "table_frame a" if "j < 4" "a \<in> ?T j" for j a
      using that tables_okD(3) [OF ok(1), of j a] f(1) by (auto split: if_splits)
    show "bit (?m (slot a x)) 0" "drop_bit 48 (?m (slot a x)) = 0" if "j < 4" "a \<in> ?T j" "x < 512" "?m (slot a x) \<noteq> 0" for j a x
      using nz [OF that] tables_okD(4,5) [OF ok(1) that(1), of a x] that mt w by (auto simp del: fun_upd_apply bit_0)
  qed (use c inj in blast)+
qed

lemma tables_ok_add_page:
  assumes ok: "tables_ok m r T" "3 < (4::nat)" "t \<in> T 3" "i < 512" and w: "bit w 0" "drop_bit 48 w = 0"
  shows "tables_ok (m(slot t i := w)) r T"
    (is "tables_ok ?m r T")
proof -
  have o: "?m (slot a x) = m (slot a x)" if "j < 3" "a \<in> T j" "x < 512" for j a x
  proof -
    have "a \<noteq> t" using tables_okD(2) [OF ok(1) _ ok(2), of j a] ok(3) that by auto
    then show ?thesis using slot_other [OF ok, of j a x] that by auto
  qed
  have p: "bit (?m (slot a x)) 0 \<and> drop_bit 48 (?m (slot a x)) = 0" if "j < 4" "a \<in> T j" "x < 512" "?m (slot a x) \<noteq> 0" for j a x
    using slot_other [OF ok that(1,2,3), of w] tables_okD(4,5) [OF ok(1) that(1,2,3)] that(4) w by (cases "a = t \<and> x = i") auto
  show ?thesis
    unfolding tables_ok_def
  proof (intro conjI allI ballI impI)
    show "child (?m (slot a x)) \<in> T (Suc j)" if "j < 3" "a \<in> T j" "x < 512" "?m (slot a x) \<noteq> 0" for j a x
      using that(4) tables_okD(6) [OF ok(1) that(1,2,3)] unfolding o [OF that(1,2,3)] by blast
    show "a = b" "x = y" if j: "j < 3" and "a \<in> T j" "b \<in> T j" "x < 512" "y < 512" "?m (slot a x) \<noteq> 0" "?m (slot b y) \<noteq> 0"
      "child (?m (slot a x)) = child (?m (slot b y))" for j a b x y
      using that(6-8) tables_okD(7) [OF ok(1) that(1-5)] unfolding o [OF j that(2,4)] o [OF j that(3,5)] by blast+
  qed (use tables_okD(1,2,3) [OF ok(1)] p in blast)+
qed

subsection \<open>Allocation of a page\<close>

abbreviation root_of :: "pg_state \<Rightarrow> u64" where "root_of s \<equiv> phys_root (pg_tab s)"

text \<open>The invariant of the whole state: \<open>F\<close> are the free frames, all of them zeroed.\<close>

definition pgt_inv :: "pg_state \<Rightarrow> (nat \<Rightarrow> u64 set) \<Rightarrow> u64 list \<Rightarrow> bool" where
  "pgt_inv s T F \<longleftrightarrow>
     (\<exists>U. pf_ok (pg_heap s, pgt_pfdb (pg_tab s)) F U \<and> set U = (\<Union>k<4. T k))
     \<and> virt_root (pg_tab s) = VIRT_ADDR_KERNEL_START + root_of s
     \<and> tables_ok (pg_mem s) (root_of s) T
     \<and> (\<forall>f\<in>set F. table_frame f \<and> (\<forall>i<512. pg_mem s (slot f i) = 0))"

lemma pgt_invD:
  assumes "pgt_inv s T F"
  shows "virt_root (pg_tab s) = VIRT_ADDR_KERNEL_START + root_of s" "tables_ok (pg_mem s) (root_of s) T"
    and "f \<in> set F \<Longrightarrow> fresh_table (pg_mem s) T f"
proof -
  show "virt_root (pg_tab s) = VIRT_ADDR_KERNEL_START + root_of s" "tables_ok (pg_mem s) (root_of s) T"
    using assms by (auto simp: pgt_inv_def)
  obtain U where U: "pf_ok (pg_heap s, pgt_pfdb (pg_tab s)) F U" "set U = (\<Union>k<4. T k)" using assms by (auto simp: pgt_inv_def)
  show "fresh_table (pg_mem s) T f" if "f \<in> set F"
    using assms that pfa.distinct_frames [OF U(1)] U(2) by (auto simp: pgt_inv_def fresh_table_def)
qed

lemma alloc_level:
  assumes inv: "pgt_inv s T F" and t: "table_at (pg_mem s) (root_of s) v k = Some t" and k: "k < 3"
    and fl: "bit fl 0" and F: "F \<noteq> []"
  shows "\<exists>s' T' F' t'. alloc_table s (VIRT_ADDR_KERNEL_START + t) (ucast (pt_index k v)) fl = Inr s'
    \<and> next_table s' (VIRT_ADDR_KERNEL_START + t) (ucast (pt_index k v)) = Inr (VIRT_ADDR_KERNEL_START + t')
    \<and> pgt_inv s' T' F' \<and> table_at (pg_mem s') (root_of s') v (Suc k) = Some t' \<and> root_of s' = root_of s
    \<and> length F \<le> Suc (length F') \<and> (\<forall>u. table_at (pg_mem s') (root_of s') u 4 = table_at (pg_mem s) (root_of s) u 4)"
proof -
  let ?e = "slot t (pt_index k v)"
  note ok = pgt_invD(2) [OF inv]
  have k4: "k < 4" "Suc k < 4" using k by auto
  have tT: "t \<in> T k" using table_at_depth [OF ok k4(1) t] .
  show ?thesis
  proof (cases "pg_mem s ?e = 0")
    case False
    then have "bit (pg_mem s ?e) 0" using present_iff [OF ok k4(1) tT pt_index_bound] by blast
    then have w: "table_at (pg_mem s) (root_of s) v (Suc k) = Some (child (pg_mem s ?e))" using t by (simp del: bit_0)
    have "table_frame (child (pg_mem s ?e))" using tables_okD(3) [OF ok k4(2) table_at_depth [OF ok k4(2) w]] .
    then have "next_table s (VIRT_ADDR_KERNEL_START + t) (ucast (pt_index k v)) = Inr (VIRT_ADDR_KERNEL_START + child (pg_mem s ?e))"
      by (simp add: next_table_def entry_ptr_slot va_table PAGE_SHIFT_def flip: child_def)
    moreover have "alloc_table s (VIRT_ADDR_KERNEL_START + t) (ucast (pt_index k v)) fl = Inr s"
      using False by (simp add: alloc_table_def is_page_entry_empty_def entry_ptr_slot)
    ultimately show ?thesis using inv w by (metis le_SucI order_refl)
  next
    case True
    obtain f F' where F': "F = f # F'" using F by (cases F) auto
    obtain U where U: "pf_ok (pg_heap s, pgt_pfdb (pg_tab s)) (f # F') U" "set U = (\<Union>k<4. T k)"
      using inv F' by (auto simp: pgt_inv_def)
    obtain hp db where al: "pageframe_alloc (pg_heap s) (pgt_pfdb (pg_tab s)) = Inr ((hp, db), f)" "pf_ok (hp, db) F' (f # U)"
      using pfa.alloc_some [OF U(1)] by auto
    define m' where "m' = (pg_mem s)(?e := new_entry f fl)"
    define s' where "s' = s\<lparr>pg_heap := hp, pg_tab := (pg_tab s)\<lparr>pgt_pfdb := db\<rparr>, pg_mem := m'\<rparr>"
    have fr: "fresh_table (pg_mem s) T f" using pgt_invD(3) [OF inv] F' by simp
    then have ff: "table_frame f" by (simp add: fresh_table_def)
    have c: "child (new_entry f fl) = f" using child_new_entry [OF ff] .
    have w: "bit (new_entry f fl) 0" "drop_bit 48 (new_entry f fl) = 0" "fresh_table (pg_mem s) T (child (new_entry f fl))"
      using fl fr c by (simp_all add: present_new_entry del: bit_0) (rule bit_word_eqI, simp add: bit_drop_bit_eq bit_new_entry)
    let ?T = "T(Suc k := insert f (T (Suc k)))"
    have ok': "tables_ok m' (root_of s) ?T"
      using tables_ok_add_table [OF ok k4(1) tT pt_index_bound True w k] c by (simp add: m'_def)
    have "table_frame x \<and> (\<forall>i<512. m' (slot x i) = 0)" if "x \<in> set F'" for x
    proof -
      have x: "fresh_table (pg_mem s) T x" using pgt_invD(3) [OF inv] F' that by simp
      then show ?thesis using slot_fresh [OF ok k4(1) tT pt_index_bound x] by (simp add: m'_def fresh_table_def)
    qed
    moreover have "(\<Union>j<4. ?T j) = insert f (\<Union>j<4. T j)" using k4(2) by (auto split: if_splits)
    moreover have "root_of s' = root_of s" "virt_root (pg_tab s') = virt_root (pg_tab s)" "pg_mem s' = m'" by (auto simp: s'_def)
    moreover have "pf_ok (pg_heap s', pgt_pfdb (pg_tab s')) F' (f # U)" using al(2) by (simp add: s'_def)
    ultimately have "pgt_inv s' ?T F'"
      using U(2) ok' pgt_invD(1) [OF inv] unfolding pgt_inv_def by (intro conjI exI [of _ "f # U"]) simp_all
    moreover have at: "table_at m' (root_of s) v (Suc k) = Some f"
      using walk_at [OF ok k4(1) tT pt_index_bound w(1)] t c unfolding m'_def by presburger
    moreover have "\<forall>u. table_at m' (root_of s) u 4 = table_at (pg_mem s) (root_of s) u 4"
      using walk_after [OF ok k4(1) tT pt_index_bound True w(1,3) k] k unfolding m'_def by simp
    moreover have "alloc_table s (VIRT_ADDR_KERNEL_START + t) (ucast (pt_index k v)) fl = Inr s'"
      using True al(1) by (simp add: alloc_table_def is_page_entry_empty_def entry_ptr_slot s'_def m'_def)
    moreover have "next_table s' (VIRT_ADDR_KERNEL_START + t) (ucast (pt_index k v)) = Inr (VIRT_ADDR_KERNEL_START + f)"
      using c va_table [OF ff] by (simp add: next_table_def entry_ptr_slot PAGE_SHIFT_def s'_def m'_def flip: child_def)
    ultimately show ?thesis using F' by (auto simp: s'_def simp del: table_at.simps)
  qed
qed

lemma alloc_page_ok:
  fixes p :: u64
  assumes inv: "pgt_inv s T F" and t: "table_at (pg_mem s) (root_of s) v 3 = Some t" and fl: "bit fl 0"
  defines "s' \<equiv> alloc_page s (VIRT_ADDR_KERNEL_START + t) (ucast (pt_index 3 v)) p fl"
  shows "pgt_inv s' T F \<and> root_of s' = root_of s
    \<and> (\<forall>u. table_at (pg_mem s') (root_of s) u 4 =
         (if vpage u = vpage v \<and> table_at (pg_mem s) (root_of s) v 4 = None then Some (child (new_entry p fl))
          else table_at (pg_mem s) (root_of s) u 4))"
proof -
  let ?e = "slot t (pt_index 3 v)" and ?r = "root_of s"
  note ok = pgt_invD(2) [OF inv]
  have k4: "3 < (4::nat)" by simp
  have tT: "t \<in> T 3" using table_at_depth [OF ok k4 t] .
  have v4: "table_at (pg_mem s) ?r v 4 = (if bit (pg_mem s ?e) 0 then Some (child (pg_mem s ?e)) else None)"
    using t table_at.simps(2) [of "pg_mem s" ?r v 3] by (simp del: bit_0 table_at.simps)
  have e: "bit (pg_mem s ?e) 0 \<longleftrightarrow> pg_mem s ?e \<noteq> 0" using present_iff [OF ok k4 tT pt_index_bound] .
  show ?thesis
  proof (cases "pg_mem s ?e = 0")
    case False
    then have "s' = s" by (simp add: s'_def alloc_page_def is_page_entry_empty_def entry_ptr_slot)
    then show ?thesis using False e v4 inv by (simp del: bit_0)
  next
    case True
    let ?w = "new_entry p fl"
    have s': "s' = s\<lparr>pg_mem := (pg_mem s)(?e := ?w)\<rparr>"
      using True by (simp add: s'_def alloc_page_def is_page_entry_empty_def entry_ptr_slot)
    have w: "bit ?w 0" "drop_bit 48 ?w = 0"
      using fl by (simp_all add: present_new_entry del: bit_0) (rule bit_word_eqI, simp add: bit_drop_bit_eq bit_new_entry)
    have "((pg_mem s)(?e := ?w)) (slot f i) = 0" if "f \<in> set F" "i < 512" for f i
      using slot_fresh [OF ok k4 tT pt_index_bound pgt_invD(3) [OF inv that(1)] that(2)] .
    then have "pgt_inv s' T F" using inv tables_ok_add_page [OF ok k4 tT pt_index_bound w]
      unfolding s' pgt_inv_def by (simp del: fun_upd_apply)
    moreover have "(table_at (pg_mem s) ?r u 3 = Some t \<and> pt_index 3 u = pt_index 3 v) \<longleftrightarrow> vpage u = vpage v" for u
    proof
      assume u: "table_at (pg_mem s) ?r u 3 = Some t \<and> pt_index 3 u = pt_index 3 v"
      have "pt_index k u = pt_index k v" if "k < 4" for k
        using table_at_unique [OF ok k4 conjunct1 [OF u] t, of k] u that by (cases "k = 3") auto
      then show "vpage u = vpage v" by (simp add: vpage_iff_indexes)
    next
      assume "vpage u = vpage v"
      then have i: "\<forall>k<4. pt_index k u = pt_index k v" by (simp add: vpage_iff_indexes)
      then have "table_at (pg_mem s) ?r u 3 = table_at (pg_mem s) ?r v 3" by (intro table_at_cong) simp
      then show "table_at (pg_mem s) ?r u 3 = Some t \<and> pt_index 3 u = pt_index 3 v" using t i by simp
    qed
    then have "table_at ((pg_mem s)(?e := ?w)) ?r u 4 =
        (if vpage u = vpage v then Some (child ?w) else table_at (pg_mem s) ?r u 4)" for u
      using walk_at [OF ok k4 tT pt_index_bound w(1)] by (simp del: table_at.simps fun_upd_apply add: numeral_eq_Suc)
    moreover have "table_at (pg_mem s) ?r v 4 = None" using v4 e True by auto
    ultimately show ?thesis unfolding s' by (simp del: table_at.simps fun_upd_apply)
  qed
qed

text \<open>\<open>pgt_ok s n\<close>: the tables are well formed and at least \<open>n\<close> frames are free.\<close>

definition pgt_ok :: "pg_state \<Rightarrow> nat \<Rightarrow> bool" where
  "pgt_ok s n \<longleftrightarrow> (\<exists>T F. pgt_inv s T F \<and> n \<le> length F)"

definition page_of :: "u64 \<Rightarrow> u64" where "page_of p = push_bit 12 (drop_bit 12 p)"

lemma bit_below:
  assumes "unat (p :: u64) < 2 ^ k" "bit p n"
  shows "n < k"
proof (rule ccontr)
  assume "\<not> n < k"
  then have "(2::nat) ^ k \<le> 2 ^ n" by simp
  with assms(1) have "unat p < 2 ^ n" by (rule less_le_trans)
  then have "unat p div 2 ^ n = 0" by simp
  with assms(2) show False by (simp add: bit_unat_odd)
qed

lemma child_new_page:
  assumes "unat p < 2 ^ 40"
  shows "child (new_entry p fl) = page_of p"
proof (rule bit_word_eqI)
  show "bit (child (new_entry p fl)) n = bit (page_of p) n" for n
    using bit_below [OF assms, of n] by (auto simp: bit_child bit_new_entry page_of_def bit_simps)
qed

lemma page_alloc_ok:
  assumes ok: "pgt_ok s (n + 3)" and fl: "bit fl 0" and p: "unat p < 2 ^ 40"
  shows "\<exists>s'. page_alloc s v p fl = Inr s' \<and> pgt_ok s' n \<and> root_of s' = root_of s
    \<and> (\<forall>u. translate (pg_mem s') (root_of s) u =
         (if vpage u = vpage v \<and> translate (pg_mem s) (root_of s) v = None then Some (page_of p OR take_bit 12 u)
          else translate (pg_mem s) (root_of s) u))"
proof -
  obtain T F where inv: "pgt_inv s T F" and F: "n + 3 \<le> length F" using ok by (auto simp: pgt_ok_def)
  have F0: "F \<noteq> []" using F by auto
  have r: "table_at (pg_mem s) (root_of s) v 0 = Some (root_of s)" by simp
  obtain s1 T1 F1 t1 where s1: "alloc_table s (VIRT_ADDR_KERNEL_START + root_of s) (ucast (pt_index 0 v)) fl = Inr s1"
      "next_table s1 (VIRT_ADDR_KERNEL_START + root_of s) (ucast (pt_index 0 v)) = Inr (VIRT_ADDR_KERNEL_START + t1)"
    and i1: "pgt_inv s1 T1 F1" "table_at (pg_mem s1) (root_of s1) v 1 = Some t1" "root_of s1 = root_of s"
      "length F \<le> Suc (length F1)" "\<forall>u. table_at (pg_mem s1) (root_of s1) u 4 = table_at (pg_mem s) (root_of s) u 4"
    using alloc_level [OF inv r _ fl F0] by (auto simp del: table_at.simps)
  have F1: "F1 \<noteq> []" using i1(4) F by auto
  obtain s2 T2 F2 t2 where s2: "alloc_table s1 (VIRT_ADDR_KERNEL_START + t1) (ucast (pt_index 1 v)) fl = Inr s2"
      "next_table s2 (VIRT_ADDR_KERNEL_START + t1) (ucast (pt_index 1 v)) = Inr (VIRT_ADDR_KERNEL_START + t2)"
    and i2: "pgt_inv s2 T2 F2" "table_at (pg_mem s2) (root_of s2) v 2 = Some t2" "root_of s2 = root_of s1"
      "length F1 \<le> Suc (length F2)" "\<forall>u. table_at (pg_mem s2) (root_of s2) u 4 = table_at (pg_mem s1) (root_of s1) u 4"
    using alloc_level [OF i1(1,2) _ fl F1] by (auto simp del: table_at.simps simp: numeral_2_eq_2)
  have F2: "F2 \<noteq> []" using i1(4) i2(4) F by auto
  obtain s3 T3 F3 t3 where s3: "alloc_table s2 (VIRT_ADDR_KERNEL_START + t2) (ucast (pt_index 2 v)) fl = Inr s3"
      "next_table s3 (VIRT_ADDR_KERNEL_START + t2) (ucast (pt_index 2 v)) = Inr (VIRT_ADDR_KERNEL_START + t3)"
    and i3: "pgt_inv s3 T3 F3" "table_at (pg_mem s3) (root_of s3) v 3 = Some t3" "root_of s3 = root_of s2"
      "length F2 \<le> Suc (length F3)" "\<forall>u. table_at (pg_mem s3) (root_of s3) u 4 = table_at (pg_mem s2) (root_of s2) u 4"
    using alloc_level [OF i2(1,2) _ fl F2] by (auto simp del: table_at.simps simp: numeral_3_eq_3)
  let ?s = "alloc_page s3 (VIRT_ADDR_KERNEL_START + t3) (ucast (pt_index 3 v)) p fl"
  have "page_alloc s v p fl = Inr ?s"
    using s1 s2 s3 pgt_invD(1) [OF inv] by (simp add: page_alloc_def indexes_of_walk)
  moreover have "pgt_ok ?s n" using alloc_page_ok [OF i3(1,2) fl] i1(4) i2(4) i3(4) F by (fastforce simp: pgt_ok_def)
  moreover have "translate (pg_mem ?s) (root_of s) u =
         (if vpage u = vpage v \<and> translate (pg_mem s) (root_of s) v = None then Some (page_of p OR take_bit 12 u)
          else translate (pg_mem s) (root_of s) u)" for u
    using alloc_page_ok [OF i3(1,2) fl, of p] i1(3,5) i2(3,5) i3(3,5)
    by (simp add: translate_def child_new_page [OF p] del: table_at.simps)
  ultimately show ?thesis using alloc_page_ok [OF i3(1,2) fl, of p] i1(3) i2(3) i3(3) by (metis (no_types))
qed

text \<open>Consecutive pages have consecutive numbers, modulo the \<open>2 ^ 36\<close> pages of the address space.\<close>

lemma unat_vpage: "unat (vpage v) = unat v div 2 ^ 12 mod 2 ^ 36"
  by (simp only: vpage_def unat_take_bit_mod drop_bit_unat_div)

lemma vpage_shift: "unat (vpage (v + of_nat i * PAGE_SIZE)) = (unat v div 2 ^ 12 + i) mod 2 ^ 36"
proof -
  have "v + of_nat i * PAGE_SIZE = of_nat (unat v + i * 2 ^ 12)" by (simp add: PAGE_SIZE_def)
  then have "unat (v + of_nat i * PAGE_SIZE) = (unat v + i * 2 ^ 12) mod 2 ^ (12 + 52)"
    by (simp add: unat_of_nat take_bit_eq_mod del: of_nat_add of_nat_mult)
  then have "unat (v + of_nat i * PAGE_SIZE) div 2 ^ 12 = (unat v + i * 2 ^ 12) div 2 ^ 12 mod 2 ^ 52"
    by (simp only: div_exp_mod_exp_eq)
  then have "unat (v + of_nat i * PAGE_SIZE) div 2 ^ 12 = (unat v div 2 ^ 12 + i) mod 2 ^ 52" by (simp add: add.commute)
  then show ?thesis unfolding unat_vpage by (simp add: mod_mod_cancel)
qed

lemma vpage_shift_inj:
  assumes "i < 2 ^ 36" "j < 2 ^ 36" "vpage (v + of_nat i * PAGE_SIZE) = vpage (v + of_nat j * PAGE_SIZE)"
  shows "i = j"
proof -
  have "unat (vpage (v + of_nat i * PAGE_SIZE)) = unat (vpage (v + of_nat j * PAGE_SIZE))" by (simp only: assms(3))
  then have "(unat v div 2 ^ 12 + i) mod 2 ^ 36 = (unat v div 2 ^ 12 + j) mod 2 ^ 36" unfolding vpage_shift .
  then have "(int (unat v div 2 ^ 12) + int i) mod 2 ^ 36 = (int (unat v div 2 ^ 12) + int j) mod 2 ^ 36"
    using arg_cong [of _ _ int] by (fastforce simp: of_nat_mod)
  then have "(2::int) ^ 36 dvd int i - int j" by (simp only: mod_eq_dvd_iff add_diff_cancel_left)
  then have "int i - int j = 0" using assms(1,2) dvd_imp_le_int [of "int i - int j" "2 ^ 36"] by fastforce
  then show ?thesis by simp
qed

subsection \<open>Mapping a range\<close>

lemma contiguous_map_ok:
  assumes fl: "bit fl 0" and e: "unat p_end < 2 ^ 40"
  shows "unat p + 4096 * n \<le> unat p_end + 4096 \<Longrightarrow> unat p_end < unat p + 4096 * n \<Longrightarrow> pgt_ok s (k + 3 * n)
    \<Longrightarrow> (\<And>i. i < n \<Longrightarrow> translate (pg_mem s) (root_of s) (v + of_nat i * PAGE_SIZE) = None)
    \<Longrightarrow> \<exists>s'. paging_contiguous_map s p p_end v fl = Some (Inr s') \<and> pgt_ok s' k \<and> root_of s' = root_of s
      \<and> (\<forall>i<n. \<forall>u. vpage u = vpage (v + of_nat i * PAGE_SIZE) \<longrightarrow>
            translate (pg_mem s') (root_of s) u = Some (page_of (p + of_nat i * PAGE_SIZE) OR take_bit 12 u))
      \<and> (\<forall>u. (\<forall>i<n. vpage u \<noteq> vpage (v + of_nat i * PAGE_SIZE)) \<longrightarrow>
            translate (pg_mem s') (root_of s) u = translate (pg_mem s) (root_of s) u)"
proof (induction n arbitrary: p v s)
  case 0
  then show ?case by (subst paging_contiguous_map.simps) (auto simp: word_le_nat_alt)
next
  case (Suc n)
  have le: "p \<le> p_end" "unat p < 2 ^ 40" using Suc.prems(1) e by (auto simp: word_le_nat_alt)
  have n: "Suc n < 2 ^ 36" using Suc.prems(1) e by simp
  have up: "unat (p + PAGE_SIZE) = unat p + 4096" using le(2) by (subst unat_add_small) (auto simp: PAGE_SIZE_def)
  have sh: "x + PAGE_SIZE + of_nat i * PAGE_SIZE = x + of_nat (Suc i) * PAGE_SIZE" for x i by (simp add: algebra_simps)
  have ok3: "pgt_ok s ((k + 3 * n) + 3)" using Suc.prems(3) by (simp add: ac_simps)
  obtain s1 where s1: "page_alloc s v p fl = Inr s1" "pgt_ok s1 (k + 3 * n)" "root_of s1 = root_of s"
    and t1: "\<And>u. translate (pg_mem s1) (root_of s) u =
         (if vpage u = vpage v \<and> translate (pg_mem s) (root_of s) v = None then Some (page_of p OR take_bit 12 u)
          else translate (pg_mem s) (root_of s) u)"
    using page_alloc_ok [OF ok3 fl le(2), of v] by auto
  have v0: "translate (pg_mem s) (root_of s) v = None" using Suc.prems(4) [of 0] by simp
  have ne: "vpage (v + of_nat (Suc i) * PAGE_SIZE) \<noteq> vpage v" if "i < n" for i
    using vpage_shift_inj [of "Suc i" 0 v] that n by auto
  have "translate (pg_mem s1) (root_of s1) (v + PAGE_SIZE + of_nat i * PAGE_SIZE) = None" if "i < n" for i
    using t1 [of "v + of_nat (Suc i) * PAGE_SIZE"] ne [OF that] Suc.prems(4) [of "Suc i"] that s1(3) unfolding sh by simp
  then obtain s' where s': "paging_contiguous_map s1 (p + PAGE_SIZE) p_end (v + PAGE_SIZE) fl = Some (Inr s')" "pgt_ok s' k" "root_of s' = root_of s"
    and t': "\<And>i u. i < n \<Longrightarrow> vpage u = vpage (v + of_nat (Suc i) * PAGE_SIZE) \<Longrightarrow>
            translate (pg_mem s') (root_of s) u = Some (page_of (p + of_nat (Suc i) * PAGE_SIZE) OR take_bit 12 u)"
      "\<And>u. (\<forall>i<n. vpage u \<noteq> vpage (v + of_nat (Suc i) * PAGE_SIZE)) \<Longrightarrow> translate (pg_mem s') (root_of s) u = translate (pg_mem s1) (root_of s) u"
    using Suc.IH [of "p + PAGE_SIZE" s1 "v + PAGE_SIZE"] Suc.prems(1,2) s1(2,3) up unfolding sh by auto
  have "paging_contiguous_map s p p_end v fl = Some (Inr s')"
    using le(1) s1(1) s'(1) by (subst paging_contiguous_map.simps) simp
  moreover have "translate (pg_mem s') (root_of s) u = Some (page_of (p + of_nat i * PAGE_SIZE) OR take_bit 12 u)"
    if "i < Suc n" "vpage u = vpage (v + of_nat i * PAGE_SIZE)" for i u
  proof (cases i)
    case 0
    then have "vpage u = vpage v" using that by simp
    then have "translate (pg_mem s') (root_of s) u = translate (pg_mem s1) (root_of s) u" using t'(2) [of u] ne by metis
    then show ?thesis using t1 [of u] v0 \<open>vpage u = vpage v\<close> 0 by simp
  next
    case (Suc j)
    then show ?thesis using t'(1) [of j u] that by auto
  qed
  moreover have "translate (pg_mem s') (root_of s) u = translate (pg_mem s) (root_of s) u"
    if "\<forall>i<Suc n. vpage u \<noteq> vpage (v + of_nat i * PAGE_SIZE)" for u
  proof -
    have "vpage u \<noteq> vpage v" using that by (metis add.right_neutral mult_zero_left of_nat_0 zero_less_Suc)
    moreover have "translate (pg_mem s') (root_of s) u = translate (pg_mem s1) (root_of s) u" using t'(2) [of u] that by blast
    ultimately show ?thesis using t1 [of u] by simp
  qed
  ultimately show ?case using s'(2,3) by blast
qed

subsection \<open>Initialisation\<close>

lemma region_frame:
  assumes "take_bit 12 b = 0" "unat b + 4096 * n \<le> 2 ^ 36" "j < n"
  shows "unat (b + of_nat j * PAGEFRAME_SIZE) = unat b + j * 4096" "table_frame (b + of_nat j * PAGEFRAME_SIZE)"
proof -
  have "unat (of_nat j * PAGEFRAME_SIZE) = j * 4096"
    using assms(2,3) unfolding PAGEFRAME_SIZE_def by (subst unat_mult_small) (simp_all add: unat_of_nat_small)
  then show u: "unat (b + of_nat j * PAGEFRAME_SIZE) = unat b + j * 4096"
    using assms(2,3) by (subst unat_add_small) auto
  have "unat b mod 2 ^ 12 = 0" using assms(1) unat_take_bit_mod [of 12 b] by simp
  then have "unat (take_bit 12 (b + of_nat j * PAGEFRAME_SIZE)) = 0" unfolding unat_take_bit_mod u by simp
  moreover have "unat (drop_bit 36 (b + of_nat j * PAGEFRAME_SIZE)) = 0" unfolding drop_bit_unat_div u using assms(2,3) by simp
  ultimately show "table_frame (b + of_nat j * PAGEFRAME_SIZE)" unfolding table_frame_def by (simp only: unat_eq_zero)
qed

lemma memzero_words_frame:
  assumes "take_bit 12 b = 0" "unat b + 4096 * n \<le> 2 ^ 36" "j < n" "4096 * n \<le> unat len" "i < 512"
  shows "memzero_words (VIRT_ADDR_KERNEL_START + b) len m (slot (b + of_nat j * PAGEFRAME_SIZE) i) = 0"
proof -
  have i: "unat i < 512" using assms(5) by (simp add: word_less_nat_alt)
  have j: "unat (of_nat j * PAGEFRAME_SIZE) = j * 4096"
    using assms(2,3) unfolding PAGEFRAME_SIZE_def by (subst unat_mult_small) (simp_all add: unat_of_nat_small)
  have "unat (i * 8) = unat i * 8" using i by (subst unat_mult_small) auto
  then have "unat (of_nat j * PAGEFRAME_SIZE + i * 8) = j * 4096 + unat i * 8"
    using j i assms(2,3) by (subst unat_add_small) auto
  then have "of_nat j * PAGEFRAME_SIZE + i * 8 < len" using i assms(3,4) unfolding word_less_nat_alt by simp
  moreover have "slot (b + of_nat j * PAGEFRAME_SIZE) i - (VIRT_ADDR_KERNEL_START + b) = of_nat j * PAGEFRAME_SIZE + i * 8"
    by (simp add: slot_def)
  ultimately show ?thesis by (simp add: memzero_words_def)
qed

lemma paging_init_ok:
  assumes n: "Suc n = unat (rg_length pfr) div 16" and fa: "unat (rg_base pfr) + 16 * Suc n \<le> 2 ^ 47"
    and pt: "take_bit 12 (rg_base ptr) = 0" "unat (rg_base ptr) + 4096 * Suc n \<le> 2 ^ 36" "4096 * Suc n \<le> unat (rg_length ptr)"
  shows "\<exists>s'. paging_init s ptr pfr = Inr s' \<and> pgt_ok s' n \<and> (\<forall>v. translate (pg_mem s') (root_of s') v = None)"
proof -
  let ?f = "\<lambda>i. rg_base ptr + of_nat i * PAGEFRAME_SIZE"
  let ?F = "rev (map ?f [0..<n])"
  have va: "va (rg_base ptr) = Inr (VIRT_ADDR_KERNEL_START + rg_base ptr)" "va (rg_base pfr) = Inr (VIRT_ADDR_KERNEL_START + rg_base pfr)"
    using fa pt by (auto simp: va_Inr)
  obtain hp db where init: "pageframe_init (memzero_nodes (VIRT_ADDR_KERNEL_START + rg_base pfr) (rg_length pfr) (pg_heap s)) ptr pfr = Inr (hp, db)"
      "pf_ok (hp, db) (?f n # ?F) []"
    using pageframe_init_frames [OF n fa, of ptr] pt(2) by (fastforce simp del: of_nat_Suc)
  obtain hp' db' where al: "pageframe_alloc hp db = Inr ((hp', db'), ?f n)" "pf_ok (hp', db') ?F [?f n]"
    using pfa.alloc_some [OF init(2)] by auto
  have fr: "table_frame (?f j)" if "j < Suc n" for j using region_frame [OF pt(1,2) that] by blast
  define m where "m = memzero_words (VIRT_ADDR_KERNEL_START + rg_base ptr) (rg_length ptr) (pg_mem s)"
  have z: "m (slot (?f j) i) = 0" if "j < Suc n" "i < 512" for j i
    unfolding m_def using memzero_words_frame [OF pt(1,2) that(1) pt(3) that(2)] .
  define s' where "s' = s\<lparr>pg_mem := m, pg_heap := hp', pg_tab := \<lparr>phys_root = ?f n, virt_root = VIRT_ADDR_KERNEL_START + ?f n, pgt_pfdb = db'\<rparr>\<rparr>"
  have "paging_init s ptr pfr = Inr s'"
    using va init(1) al(1) va_table [OF fr [of n]] by (simp add: paging_init_def s'_def m_def)
  moreover have "tables_ok m (?f n) (\<lambda>k. if k = 0 then {?f n} else {})"
    using z [of n] fr [of n] by (auto simp: tables_ok_def)
  then have "pgt_inv s' (\<lambda>k. if k = 0 then {?f n} else {}) ?F"
    using al(2) z fr unfolding pgt_inv_def s'_def by (intro conjI exI [of _ "[?f n]"]) auto
  then have "pgt_ok s' n" unfolding pgt_ok_def by (intro exI conjI) auto
  moreover have "table_at m (?f n) v (Suc 0) = None" for v using z [of n "pt_index 0 v"] pt_index_bound by simp
  then have "table_at m (?f n) v 4 = None" for v using table_at_None [of m "?f n" v "Suc 0" 4] by simp
  then have "translate (pg_mem s') (root_of s') v = None" for v by (simp add: translate_def s'_def)
  ultimately show ?thesis by blast
qed

subsection \<open>Release of a page\<close>


lemma level_idx_depth: "k < 4 \<Longrightarrow> level_idx (4 - k) v = Inr (ucast (pt_index k v))"
  by (auto simp: level_idx_def indexes_of_walk less_Suc_eq numeral_eq_Suc)

lemma child_chunk: "drop_bit 48 e = 0 \<Longrightarrow> push_bit PAGE_SHIFT (extract_bit_chunk 12 51 e) = child e"
proof (rule bit_word_eqI)
  fix n assume e: "drop_bit 48 e = 0"
  have "n < 48" if "bit e n"
    using e that bit_below [of e 48 n] drop_bit_unat_div [of 48 e] by (simp add: div_eq_0_iff)
  then show "bit (push_bit PAGE_SHIFT (extract_bit_chunk 12 51 e)) n = bit (child e) n"
    by (auto simp: bit_child PAGE_SHIFT_def extract_bit_chunk_eq bit_simps)
qed

text \<open>One level of the recursion, for a table whose entry is followed by the walk.\<close>

lemma page_free_resources_step:
  assumes "table_frame t" "k < 4"
  shows "page_free_resources s t v (4 - k) =
    obind (page_free_resources s (push_bit PAGE_SHIFT (extract_bit_chunk 12 51 (pg_mem s (slot t (pt_index k v))))) v (3 - k)) (\<lambda>(s, freed).
      if freed then
        (let s = s\<lparr>pg_mem := (pg_mem s)(slot t (pt_index k v) := 0)\<rparr>
         in if is_pagetable_empty s (VIRT_ADDR_KERNEL_START + t) then
              obind (pageframe_free (pg_heap s) (pgt_pfdb (pg_tab s)) t) (\<lambda>(hp, pfdb).
                Some (Inr (s\<lparr>pg_heap := hp, pg_tab := (pg_tab s)\<lparr>pgt_pfdb := pfdb\<rparr>\<rparr>, True)))
            else Some (Inr (s, False)))
      else Some (Inr (s, False)))"
proof -
  have k: "4 - k = Suc (3 - k)" using assms(2) by simp
  have u: "ucast (ucast (pt_index k v) :: u16) = pt_index k v" by (rule bit_word_eqI) (auto simp: bit_simps pt_index_def)
  have "unat (t + pt_index k v * 8) < 2 ^ 48"
  proof -
    have i: "unat (pt_index k v) < 512" using pt_index_bound [of k v] by (simp add: word_less_nat_alt)
    then have "unat (pt_index k v * 8) = unat (pt_index k v) * 8" by (subst unat_mult_small) auto
    then show ?thesis using i table_frame_unat [OF assms(1)] by (subst unat_add_small) auto
  qed
  then have v: "va (t + pt_index k v * 8) = Inr (slot t (pt_index k v))" by (simp add: va_Inr slot_def)
  show ?thesis
    unfolding k page_free_resources.simps va_table [OF assms(1)] level_idx_depth [OF assms(2), unfolded k]
    by (simp add: u v)
qed

text \<open>
  The invariants that the recursion keeps: entries are only cleared, the used list loses at most the tables
  of the walk, and the entry of the page itself is cleared.
\<close>

definition kept :: "pg_state \<Rightarrow> u64 \<Rightarrow> nat \<Rightarrow> u64 set \<Rightarrow> u64 set \<Rightarrow> bool" where
  "kept s v k U U' \<longleftrightarrow> (\<forall>x\<in>U. (\<forall>j. k \<le> j \<and> j < 4 \<longrightarrow> table_at (pg_mem s) (root_of s) v j \<noteq> Some x) \<longrightarrow> x \<in> U')"

lemma kept_Suc: "kept s v (Suc k) U U' \<Longrightarrow> kept s v k U U'"
  unfolding kept_def using Suc_leD by blast

lemma kept_remove:
  "kept s v (Suc k) U U1 \<Longrightarrow> U1 - {t} \<subseteq> U' \<Longrightarrow> table_at (pg_mem s) (root_of s) v k = Some t \<Longrightarrow> k < 4 \<Longrightarrow> kept s v k U U'"
  unfolding kept_def using Suc_leD le_refl by blast

definition freed_below :: "pg_state \<Rightarrow> u64 list \<Rightarrow> u64 \<Rightarrow> nat \<Rightarrow> pg_state \<Rightarrow> bool" where
  "freed_below s U v k s' \<longleftrightarrow>
     (\<forall>a. pg_mem s' a = pg_mem s a \<or> pg_mem s' a = 0) \<and> root_of s' = root_of s
     \<and> (\<exists>F' U'. pf_ok (pg_heap s', pgt_pfdb (pg_tab s')) F' U' \<and> kept s v k (set U) (set U'))
     \<and> (k < 4 \<longrightarrow> (\<forall>t. table_at (pg_mem s) (root_of s) v 3 = Some t \<longrightarrow> pg_mem s' (slot t (pt_index 3 v)) = 0))"

lemma page_free_level:
  assumes inv: "pgt_inv s T F" and U: "pf_ok (pg_heap s, pgt_pfdb (pg_tab s)) F U" "set U = (\<Union>k<4. T k)"
    and tr: "table_at (pg_mem s) (root_of s) v 4 \<noteq> None"
  shows "k \<le> 4 \<Longrightarrow> (k < 4 \<Longrightarrow> table_at (pg_mem s) (root_of s) v k = Some t) \<Longrightarrow>
    \<exists>s' b. page_free_resources s t v (4 - k) = Some (Inr (s', b)) \<and> freed_below s U v k s' \<and> (k = 4 \<longrightarrow> b)"
proof (induction "4 - k" arbitrary: k t)
  case 0
  then have "k = 4" by simp
  moreover have "freed_below s U v 4 s" using U(1) unfolding freed_below_def kept_def by blast
  ultimately show ?case by auto
next
  case (Suc l)
  let ?m = "pg_mem s" and ?r = "root_of s" and ?e = "slot t (pt_index k v)"
  note ok = pgt_invD(2) [OF inv]
  have k: "k < 4" "l = 4 - Suc k" "3 - k = 4 - Suc k" using Suc.hyps(2) by auto
  have t: "table_at ?m ?r v k = Some t" using Suc.prems(2) k(1) by simp
  have tT: "t \<in> T k" by (rule table_at_depth [OF ok k(1) t])
  have tf: "table_frame t" by (rule tables_okD(3) [OF ok k(1) tT])
  have "table_at ?m ?r v (Suc k) \<noteq> None" using table_at_None [of ?m ?r v "Suc k" 4] tr k(1) by (auto simp del: table_at.simps)
  then have e: "bit (?m ?e) 0" using t by (simp del: bit_0 split: if_splits)
  then have e0: "?m ?e \<noteq> 0" by auto
  have ch: "push_bit PAGE_SHIFT (extract_bit_chunk 12 51 (?m ?e)) = child (?m ?e)"
    by (rule child_chunk [OF tables_okD(5) [OF ok k(1) tT pt_index_bound e0]])
  have nx: "table_at ?m ?r v (Suc k) = Some (child (?m ?e))" using t e by (simp del: bit_0)
  obtain s1 b1 where s1: "page_free_resources s (child (?m ?e)) v (4 - Suc k) = Some (Inr (s1, b1))"
      "freed_below s U v (Suc k) s1" "Suc k = 4 \<longrightarrow> b1"
    using Suc.hyps(1) [OF k(2) Suc_leI [OF k(1)] nx] by blast
  have mono: "freed_below s U v k s'" if "freed_below s U v (Suc k) s'" "k < 3" for s'
  proof -
    have "Suc k < 4" using that(2) by simp
    then show ?thesis using that(1) kept_Suc unfolding freed_below_def by blast
  qed
  show ?case
  proof (cases b1)
    case False
    then have "k < 3" using s1(3) k(1) by auto
    then show ?thesis
      using s1 False mono [OF s1(2)] page_free_resources_step [OF tf k(1), of s v] unfolding ch k(3) by auto
  next
    case True
    define s2 where "s2 = s1\<lparr>pg_mem := (pg_mem s1)(?e := 0)\<rparr>"
    obtain F1 U1 where U1: "pf_ok (pg_heap s1, pgt_pfdb (pg_tab s1)) F1 U1" "kept s v (Suc k) (set U) (set U1)"
      using s1(2) unfolding freed_below_def by blast
    have "table_at ?m ?r v j \<noteq> Some t" if "Suc k \<le> j" "j < 4" for j
      using table_at_depth [OF ok that(2)] tables_okD(2) [OF ok k(1) that(2) tT] that(1) by fastforce
    moreover have "t \<in> set U" using U(2) tT k(1) by blast
    ultimately have tU: "t \<in> set U1" using U1(2) unfolding kept_def by blast
    have base: "(\<forall>a. pg_mem s2 a = ?m a \<or> pg_mem s2 a = 0) \<and> root_of s2 = ?r
        \<and> (\<forall>t. table_at ?m ?r v 3 = Some t \<longrightarrow> pg_mem s2 (slot t (pt_index 3 v)) = 0)"
      using s1(2) t k(1) unfolding freed_below_def s2_def by (cases "k = 3") auto
    have fin: "freed_below s U v k s'"
      if "pg_mem s' = pg_mem s2" "root_of s' = root_of s2" "pf_ok (pg_heap s', pgt_pfdb (pg_tab s')) F' U'" "set U1 - {t} \<subseteq> set U'" for s' F' U'
      unfolding freed_below_def that(1,2) using base that(3) kept_remove [OF U1(2) that(4) t k(1)] by blast
    have step: "page_free_resources s t v (4 - k) =
      (if is_pagetable_empty s2 (VIRT_ADDR_KERNEL_START + t) then
              obind (pageframe_free (pg_heap s2) (pgt_pfdb (pg_tab s2)) t) (\<lambda>(hp, pfdb).
                Some (Inr (s2\<lparr>pg_heap := hp, pg_tab := (pg_tab s2)\<lparr>pgt_pfdb := pfdb\<rparr>\<rparr>, True)))
            else Some (Inr (s2, False)))"
      using s1(1) True page_free_resources_step [OF tf k(1), of s v] unfolding ch k(3) by (simp add: s2_def Let_def)
    show ?thesis
    proof (cases "is_pagetable_empty s2 (VIRT_ADDR_KERNEL_START + t)")
      case False
      have "freed_below s U v k s2" using U1(1) by (intro fin [of s2 F1 U1]) (auto simp: s2_def)
      then show ?thesis using step False k(1) by auto
    next
      case True
      obtain hp db where "pageframe_free (pg_heap s2) (pgt_pfdb (pg_tab s2)) t = Some (Inr (hp, db))" "pf_ok (hp, db) (t # F1) (remove1 t U1)"
        using pfa.free_used [OF U1(1) tU] by (auto simp: s2_def)
      moreover have "set U1 - {t} \<subseteq> set (remove1 t U1)" using in_set_remove1 [of _ t U1] by blast
      ultimately have "freed_below s U v k (s2\<lparr>pg_heap := hp, pg_tab := (pg_tab s2)\<lparr>pgt_pfdb := db\<rparr>\<rparr>)"
          "page_free_resources s t v (4 - k) = Some (Inr (s2\<lparr>pg_heap := hp, pg_tab := (pg_tab s2)\<lparr>pgt_pfdb := db\<rparr>\<rparr>, True))"
        using True step by (intro fin [of _ "t # F1" "remove1 t U1"], auto)
      then show ?thesis by blast
    qed
  qed
qed

text \<open>Clearing entries can only remove translations.\<close>

lemma table_at_cleared:
  assumes "\<forall>a. m' a = m a \<or> m' a = 0"
  shows "table_at m' r v k = Some t \<Longrightarrow> table_at m r v k = Some t"
proof (induction k arbitrary: t)
  case (Suc k)
  then obtain a where a: "table_at m' r v k = Some a" "bit (m' (slot a (pt_index k v))) 0" "t = child (m' (slot a (pt_index k v)))"
    by (auto split: option.splits if_splits simp del: bit_0)
  then have "m' (slot a (pt_index k v)) = m (slot a (pt_index k v))" using assms by force
  then show ?case using a Suc.IH [OF a(1)] by (simp del: bit_0)
qed simp

lemma page_free_ok:
  assumes ok: "pgt_ok s n" and tr: "translate (pg_mem s) (root_of s) v \<noteq> None"
  shows "\<exists>s'. page_free s v = Some (Inr s') \<and> root_of s' = root_of s \<and> translate (pg_mem s') (root_of s) v = None
    \<and> (\<forall>u. translate (pg_mem s') (root_of s) u = translate (pg_mem s) (root_of s) u \<or> translate (pg_mem s') (root_of s) u = None)"
proof -
  obtain T F U where inv: "pgt_inv s T F" and U: "pf_ok (pg_heap s, pgt_pfdb (pg_tab s)) F U" "set U = (\<Union>k<4. T k)"
    using ok unfolding pgt_ok_def pgt_inv_def by blast
  have tr4: "table_at (pg_mem s) (root_of s) v 4 \<noteq> None" using tr by (simp add: translate_def)
  obtain s' b where s': "page_free_resources s (root_of s) v 4 = Some (Inr (s', b))" "freed_below s U v 0 s'"
    using page_free_level [OF inv U tr4, of 0 "root_of s"] by auto
  have c: "\<forall>a. pg_mem s' a = pg_mem s a \<or> pg_mem s' a = 0" "root_of s' = root_of s" using s'(2) by (auto simp: freed_below_def)
  have "table_at (pg_mem s') (root_of s) v 4 = None"
  proof (rule ccontr)
    assume "table_at (pg_mem s') (root_of s) v 4 \<noteq> None"
    then obtain t where t: "table_at (pg_mem s') (root_of s) v 3 = Some t" "bit (pg_mem s' (slot t (pt_index 3 v))) 0"
      using table_at.simps(2) [of "pg_mem s'" "root_of s" v 3] by (auto split: option.splits if_splits simp del: bit_0 table_at.simps)
    then show False using table_at_cleared [OF c(1) t(1)] s'(2) by (auto simp: freed_below_def)
  qed
  moreover have "table_at (pg_mem s') (root_of s) u 4 = table_at (pg_mem s) (root_of s) u 4 \<or> table_at (pg_mem s') (root_of s) u 4 = None" for u
    using table_at_cleared [OF c(1), of "root_of s" u 4] by (cases "table_at (pg_mem s') (root_of s) u 4") simp_all
  then have "translate (pg_mem s') (root_of s) u = translate (pg_mem s) (root_of s) u \<or> translate (pg_mem s') (root_of s) u = None" for u
    unfolding translate_def by (metis option.map(1))
  moreover have "page_free s v = Some (Inr (s'\<lparr>pg_invlpg := pg_invlpg s' @ [v]\<rparr>))" by (simp add: page_free_def s'(1))
  ultimately show ?thesis using c(2) by (intro exI [of _ "s'\<lparr>pg_invlpg := pg_invlpg s' @ [v]\<rparr>"]) (simp add: translate_def)
qed











subsection \<open>Properties\<close>

text \<open>C11: \<open>paging_init\<close> on a page-aligned region for \<open>n + 1\<close> tables makes well-formed page tables with an empty
  root, \<open>n\<close> zeroed frames left for further tables, and no address mapped.\<close>

theorem paging_init_correct:
  assumes "Suc n = unat (rg_length pfr) div 16" "unat (rg_base pfr) + 16 * Suc n \<le> 2 ^ 47"
    and "take_bit 12 (rg_base ptr) = 0" "unat (rg_base ptr) + 4096 * Suc n \<le> 2 ^ 36" "4096 * Suc n \<le> unat (rg_length ptr)"
  shows "\<exists>s'. paging_init s ptr pfr = Inr s' \<and> pgt_ok s' n \<and> (\<forall>v. translate (pg_mem s') (root_of s') v = None)"
  using paging_init_ok [OF assms] .

definition pages_rg :: mem_map_region_t where "pages_rg = \<lparr>rg_base = 0x200000, rg_length = 0x8000, rg_type = 0\<rparr>"

definition pfdb_rg :: mem_map_region_t where "pfdb_rg = \<lparr>rg_base = 0x300000, rg_length = 128, rg_type = 0\<rparr>"

definition boot_state :: pg_state where
  "boot_state = \<lparr>pg_mem = \<lambda>_. 0, pg_heap = \<lambda>_. \<lparr>phy_addr = 0, pf_next = 0\<rparr>,
     pg_tab = \<lparr>phys_root = 0, virt_root = 0, pgt_pfdb = \<lparr>pf_free = 0, pf_used = 0\<rparr>\<rparr>, pg_cr3 = 0, pg_invlpg = []\<rparr>"

theorem paging_init_correct_witness:
  "\<exists>s'. paging_init boot_state pages_rg pfdb_rg = Inr s' \<and> pgt_ok s' 7 \<and> (\<forall>v. translate (pg_mem s') (root_of s') v = None)"
  using paging_init_correct [of 7 pfdb_rg pages_rg boot_state] by (simp add: pages_rg_def pfdb_rg_def)

lemma demo_tables: "\<exists>s. pgt_ok s 7 \<and> (\<forall>v. translate (pg_mem s) (root_of s) v = None)"
  using paging_init_ok [of 7 pfdb_rg pages_rg boot_state] by (auto simp: pages_rg_def pfdb_rg_def)

text \<open>C9: with three free frames \<open>page_alloc\<close> never stops the kernel; it maps the page of \<open>v\<close> to the page of \<open>p\<close>
  unless it was already mapped, and the translation of every other address stays as it was.\<close>

theorem page_alloc_maps:
  assumes "pgt_ok s (n + 3)" "bit flags 0" "unat p < 2 ^ 40"
  shows "\<exists>s'. page_alloc s v p flags = Inr s' \<and> pgt_ok s' n \<and> root_of s' = root_of s
    \<and> (\<forall>u. translate (pg_mem s') (root_of s) u =
         (if vpage u = vpage v \<and> translate (pg_mem s) (root_of s) v = None then Some (page_of p OR take_bit 12 u)
          else translate (pg_mem s) (root_of s) u))"
  using page_alloc_ok [OF assms] .

lemma demo_offset: "vpage 0xffff800000001234 = vpage 0xffff800000001000" "page_of 0x5000 OR take_bit 12 0xffff800000001234 = 0x5234"
  by code_simp+

theorem page_alloc_maps_witness:
  "\<exists>s s'. pgt_ok s 7 \<and> page_alloc s 0xffff800000001000 0x5000 3 = Inr s'
     \<and> translate (pg_mem s') (root_of s) 0xffff800000001234 = Some 0x5234"
proof -
  obtain s where s: "pgt_ok s 7" "\<forall>v. translate (pg_mem s) (root_of s) v = None" using demo_tables by blast
  then show ?thesis
    using page_alloc_maps [of s 4 3 "0x5000" "0xffff800000001000"] demo_offset by (fastforce simp: bit_numeral_rec)
qed

text \<open>C10: \<open>paging_contiguous_map\<close> ends and maps, page by page, \<open>[p_start, p_end]\<close> to the addresses from \<open>v\<close> on: one
  page more than the length asks for when the range is a whole number of pages, since the end is included.\<close>

theorem paging_contiguous_map_correct:
  assumes "bit flags 0" "p \<le> p_end" "unat p_end < 2 ^ 40" and n: "n = (unat p_end - unat p) div 4096 + 1"
    and "pgt_ok s (k + 3 * n)" "\<forall>i<n. translate (pg_mem s) (root_of s) (v + of_nat i * PAGE_SIZE) = None"
  shows "\<exists>s'. paging_contiguous_map s p p_end v flags = Some (Inr s') \<and> pgt_ok s' k \<and> root_of s' = root_of s
      \<and> (\<forall>i<n. \<forall>u. vpage u = vpage (v + of_nat i * PAGE_SIZE) \<longrightarrow>
            translate (pg_mem s') (root_of s) u = Some (page_of (p + of_nat i * PAGE_SIZE) OR take_bit 12 u))
      \<and> (\<forall>u. (\<forall>i<n. vpage u \<noteq> vpage (v + of_nat i * PAGE_SIZE)) \<longrightarrow>
            translate (pg_mem s') (root_of s) u = translate (pg_mem s) (root_of s) u)"
proof -
  have "unat p \<le> unat p_end" using assms(2) by (simp add: word_le_nat_alt)
  then have "unat p + 4096 * n \<le> unat p_end + 4096" "unat p_end < unat p + 4096 * n"
    unfolding n using div_mult_mod_eq [of "unat p_end - unat p" 4096] mod_less_divisor [of 4096 "unat p_end - unat p"] by simp_all
  from contiguous_map_ok [OF assms(1,3) this assms(5)] assms(6) show ?thesis by blast
qed

theorem paging_contiguous_map_correct_witness:
  "\<exists>s s'. pgt_ok s 7 \<and> paging_contiguous_map s 0x5000 0x6000 0xffff800000000000 3 = Some (Inr s')
     \<and> translate (pg_mem s') (root_of s) 0xffff800000001234 = Some 0x6234"
proof -
  obtain s where s: "pgt_ok s 7" "\<forall>v. translate (pg_mem s) (root_of s) v = None" using demo_tables by blast
  have h: "bit (3 :: u16) 0" "(0x5000 :: u64) \<le> 0x6000" "unat (0x6000 :: u64) < 2 ^ 40"
    "2 = (unat (0x6000 :: u64) - unat (0x5000 :: u64)) div 4096 + 1" by simp_all
  have k: "pgt_ok s (1 + 3 * 2)" "\<forall>i<2. translate (pg_mem s) (root_of s) (0xffff800000000000 + of_nat i * PAGE_SIZE) = None"
    using s by simp_all
  obtain s' where s': "paging_contiguous_map s 0x5000 0x6000 0xffff800000000000 3 = Some (Inr s')"
      "\<forall>i<2. \<forall>u. vpage u = vpage (0xffff800000000000 + of_nat i * PAGE_SIZE) \<longrightarrow>
         translate (pg_mem s') (root_of s) u = Some (page_of (0x5000 + of_nat i * PAGE_SIZE) OR take_bit 12 u)"
    using paging_contiguous_map_correct [OF h k] by blast
  have "vpage 0xffff800000001234 = vpage (0xffff800000000000 + of_nat 1 * PAGE_SIZE)"
    "page_of (0x5000 + of_nat 1 * PAGE_SIZE) OR take_bit 12 0xffff800000001234 = 0x6234" by code_simp+
  then show ?thesis using s'(1) s(1) s'(2) [rule_format, of 1 "0xffff800000001234"] by auto
qed

text \<open>C12: \<open>page_free\<close> of a mapped address ends without stopping the kernel, removes the translation of that address
  and never adds or changes another one.\<close>

theorem page_free_unmaps:
  assumes "pgt_ok s n" "translate (pg_mem s) (root_of s) v \<noteq> None"
  shows "\<exists>s'. page_free s v = Some (Inr s') \<and> root_of s' = root_of s \<and> translate (pg_mem s') (root_of s) v = None
    \<and> (\<forall>u. translate (pg_mem s') (root_of s) u = translate (pg_mem s) (root_of s) u \<or> translate (pg_mem s') (root_of s) u = None)"
  using page_free_ok [OF assms] .

theorem page_free_unmaps_witness:
  "\<exists>s s'. translate (pg_mem s) (root_of s) 0xffff800000001234 = Some 0x5234 \<and> page_free s 0xffff800000001234 = Some (Inr s')
     \<and> translate (pg_mem s') (root_of s) 0xffff800000001234 = None"
proof -
  obtain s0 where s0: "pgt_ok s0 (4 + 3)" "\<forall>v. translate (pg_mem s0) (root_of s0) v = None" using demo_tables by auto
  obtain s where s: "pgt_ok s 4" "translate (pg_mem s) (root_of s) 0xffff800000001234 = Some 0x5234"
    using page_alloc_ok [OF s0(1), of 3 "0x5000" "0xffff800000001000"] s0(2) demo_offset by (force simp: bit_numeral_rec)
  then show ?thesis using page_free_unmaps [OF s(1), of "0xffff800000001234"] by auto
qed



lemma div_up:
  assumes "x mod m \<noteq> 0" "0 < (m::nat)"
  shows "(x + m - 1) div m = x div m + 1"
proof -
  have "x + m - 1 = (x mod m - 1) + m * (x div m + 1)"
    using assms mult_div_mod_eq [of m x] unfolding distrib_left by linarith
  moreover have "(x mod m - 1) div m = 0" using mod_less_divisor [OF assms(2), of x] by simp
  ultimately show ?thesis using assms(2) by (simp only: div_mult_self2)
qed

text \<open>C14: for a memory of at most 511 page tables (511 times 2 MiB) the space that \<open>paging_calc_space_needed\<close> returns is
  that of one root and of the page tables, the number of 2 MiB areas rounded up.  The page directory and the page
  directory pointer table that every mapping needs are not counted: the remainder that should round their numbers up
  is taken of the quotient.\<close>

theorem paging_calc_space_small:
  assumes "unat bytes \<le> 511 * 2 ^ 21"
  shows "unat (paging_calc_space_needed bytes) = 4096 * (1 + (unat bytes + 2 ^ 21 - 1) div 2 ^ 21)"
proof -
  let ?q = "bytes div 2097152"
  have q: "unat ?q = unat bytes div 2097152" by (simp add: unat_div_distrib)
  then have uq: "unat (ucast ?q :: u32) = unat bytes div 2097152"
    using assms by (simp add: unsigned_ucast_eq take_bit_nat_eq_self)
  define t where "t = (if bytes mod 2097152 \<noteq> 0 then ucast ?q + 1 else (ucast ?q :: u32))"
  have m: "bytes mod 2097152 \<noteq> 0 \<longleftrightarrow> unat bytes mod 2097152 \<noteq> 0"
    using unat_mod_distrib [of bytes 2097152] by (simp add: unat_eq_zero [symmetric] del: unat_eq_zero)
  have ut: "unat t = (unat bytes + 2 ^ 21 - 1) div 2 ^ 21"
  proof (cases "unat bytes mod 2097152 = 0")
    case True
    then have "(unat bytes + 2 ^ 21 - 1) div 2 ^ 21 = unat bytes div 2097152"
      using div_mult_mod_eq [of "unat bytes" 2097152] by (intro div_nat_eqI) simp_all
    then show ?thesis using True m uq by (simp add: t_def)
  next
    case False
    have "unat (ucast ?q + 1 :: u32) = unat bytes div 2097152 + 1" using uq assms by (subst unat_add_small) auto
    moreover have "(unat bytes + 2 ^ 21 - 1) div 2 ^ 21 = unat bytes div 2097152 + 1"
      using div_up [of "unat bytes" 2097152] False by simp
    ultimately show ?thesis using False m by (simp add: t_def)
  qed
  then have t512: "unat t < 512" using assms by simp
  have "t div 512 = 0" using t512 by (simp add: word_unat_eq_iff unat_div_distrib)
  moreover have "ucast (2 * 1024 * 1024 :: u32) = (2097152 :: u64)" by simp
  ultimately have "paging_calc_space_needed bytes = ucast ((1 + t) * 4096)"
    unfolding paging_calc_space_needed_def Let_def by (simp only: t_def [symmetric]) simp
  moreover have "unat ((1 + t) * 4096) = (1 + unat t) * 4096"
    using t512 by (subst unat_mult_small; subst unat_add_small) auto
  ultimately show ?thesis using t512 unfolding ut [symmetric] by (simp add: unsigned_ucast_eq take_bit_nat_eq_self)
qed

theorem paging_calc_space_small_witness: "unat (paging_calc_space_needed 0x200000) = 4096 * 2"
  using paging_calc_space_small [of "0x200000"] by simp

end
