(* ===== verification/Kernel_String.thy ===== *)
theory Kernel_String
  imports Kernel_Math "HOL-Library.Signed_Division"
begin

unbundle bit_operations_syntax

text \<open>
  The byte and string routines of src/kernel/lib/string.c, src/kernel/lib/ctype.c and their copies in
  src/libc.  Memory is a function from 64-bit addresses to characters, so that overlapping and wrapping
  ranges behave as on the machine; \<open>memcpy\<close> and \<open>memset\<close> are the string instructions their assembly
  executes.  A C string is read through \<open>holds_str\<close>, its characters followed by a NUL.
\<close>

type_synonym bmem = "addr \<Rightarrow> char"

abbreviation (input) NUL :: char where "NUL \<equiv> CHR 0x00"

subsection \<open>Model\<close>

text \<open>\<open>rep movsb\<close>, \<open>rep movsq\<close> and \<open>rep stosb\<close>, with \<open>rcx\<close> as the first argument and the direction flag clear.\<close>

fun rep_movsb :: "nat \<Rightarrow> addr \<Rightarrow> addr \<Rightarrow> bmem \<Rightarrow> bmem" where
  "rep_movsb 0 rdi rsi m = m"
| "rep_movsb (Suc rcx) rdi rsi m = rep_movsb rcx (rdi + 1) (rsi + 1) (m(rdi := m rsi))"

definition movsq :: "addr \<Rightarrow> addr \<Rightarrow> bmem \<Rightarrow> bmem" where
  "movsq rdi rsi m = (\<lambda>a. if a - rdi < 8 then m (rsi + (a - rdi)) else m a)"

fun rep_movsq :: "nat \<Rightarrow> addr \<Rightarrow> addr \<Rightarrow> bmem \<Rightarrow> bmem" where
  "rep_movsq 0 rdi rsi m = m"
| "rep_movsq (Suc rcx) rdi rsi m = rep_movsq rcx (rdi + 8) (rsi + 8) (movsq rdi rsi m)"

fun rep_stosb :: "nat \<Rightarrow> addr \<Rightarrow> char \<Rightarrow> bmem \<Rightarrow> bmem" where
  "rep_stosb 0 rdi al m = m"
| "rep_stosb (Suc rcx) rdi al m = rep_stosb rcx (rdi + 1) al (m(rdi := al))"

text \<open>
  Every routine returns the memory and its C result.  The assembly of \<open>memset\<close> names \<open>buf\<close> as its output only, so
  the compiler is not told to load \<open>rdi\<close>; the model takes \<open>rdi\<close> to be \<open>buf\<close>, where the calling convention has passed
  it.  The result is the register after the instruction, one past the last byte.
\<close>

definition memcpy :: "bmem \<Rightarrow> addr \<Rightarrow> addr \<Rightarrow> u64 \<Rightarrow> bmem \<times> addr" where
  "memcpy m dst src sz =
     (let quads = drop_bit 3 sz;
          m = rep_movsq (unat quads) dst src m;
          m = rep_movsb (unat (sz AND 7)) (dst + 8 * quads) (src + 8 * quads) m
      in (m, dst))"

definition memset :: "bmem \<Rightarrow> addr \<Rightarrow> char \<Rightarrow> u64 \<Rightarrow> bmem \<times> addr" where
  "memset m buf value sz = (rep_stosb (unat sz) buf value m, buf + sz)"

definition memzero :: "bmem \<Rightarrow> addr \<Rightarrow> u64 \<Rightarrow> bmem \<times> addr" where
  "memzero m dst sz = memset m dst NUL sz"

definition memmove :: "bmem \<Rightarrow> addr \<Rightarrow> addr \<Rightarrow> u64 \<Rightarrow> bmem \<times> addr" where
  "memmove m dst src sz =
     (if src = dst then (m, dst)
      else let m = fst (memcpy m dst src sz)
           in if (dst > src \<and> src + sz < dst) \<or> (src > dst \<and> dst + sz < src)
              then (fst (memzero m src sz), dst)
              else if dst > src then (fst (memzero m src (sz - (dst - src))), dst)
              else (fst (memzero m (src + ((src + sz) - (dst + sz))) ((src + sz) - (dst + sz))), dst))"

fun strrev_loop :: "nat \<Rightarrow> bmem \<Rightarrow> addr \<Rightarrow> u64 \<Rightarrow> u64 \<Rightarrow> bmem" where
  "strrev_loop 0 m str start end_pos = m"
| "strrev_loop (Suc n) m str start end_pos =
     (let tmp = m (str + start);
          m = m(str + start := m (str + end_pos));
          m = m(str + end_pos := tmp)
      in strrev_loop n m str (start + 1) (end_pos - 1))"

definition strrev :: "bmem \<Rightarrow> addr \<Rightarrow> u64 \<Rightarrow> bmem" where
  "strrev m str len = (if len < 2 then m else strrev_loop (unat (len div 2)) m str 0 (len - 1))"

text \<open>A digit as the code makes it: the sum is computed as an \<open>int\<close> and stored in a \<open>char\<close>.\<close>

definition digit_char :: "int \<Rightarrow> char" where
  "digit_char rem = char_of (if rem > 9 then (rem - 10) + 97 else rem + 48)"

text \<open>
  The conversion loops.  The callers have checked that the radix is 8, 10 or 16; the second condition only
  makes the recursion well founded.  C division truncates towards zero.
\<close>

function lltoa_loop :: "int \<Rightarrow> int \<Rightarrow> bmem \<Rightarrow> addr \<Rightarrow> nat \<Rightarrow> bmem \<times> nat" where
  "lltoa_loop value radix m str i =
     (if value = 0 \<or> radix < 2 then (m, i)
      else let rem = value smod radix
           in lltoa_loop (value sdiv radix) radix (m(str + of_nat i := digit_char rem)) str (Suc i))"
  by pat_completeness auto
termination
proof (relation "measure (\<lambda>(value, radix, m, str, i). nat \<bar>value\<bar>)")
  fix v radix rem :: int and m :: bmem and str i
  assume a: "\<not> (v = 0 \<or> radix < 2)"
  then have "\<bar>v\<bar> div \<bar>radix\<bar> < \<bar>v\<bar>" by (intro int_div_less_self) auto
  moreover have "0 \<le> \<bar>v\<bar> div \<bar>radix\<bar>" using a by (intro div_int_pos_iff [THEN iffD2]) auto
  ultimately have "\<bar>v sdiv radix\<bar> < \<bar>v\<bar>" using a by (simp add: signed_divide_int_def abs_mult)
  then show "((v sdiv radix, radix, m(str + of_nat i := digit_char rem), str, Suc i), v, radix, m, str, i)
      \<in> measure (\<lambda>(value, radix, m, str, i). nat \<bar>value\<bar>)" by simp
qed simp

declare lltoa_loop.simps [simp del]

function ulltoa_loop :: "nat \<Rightarrow> nat \<Rightarrow> bmem \<Rightarrow> addr \<Rightarrow> nat \<Rightarrow> bmem \<times> nat" where
  "ulltoa_loop value radix m str i =
     (if value = 0 \<or> radix < 2 then (m, i)
      else let rem = value mod radix
           in ulltoa_loop (value div radix) radix (m(str + of_nat i := digit_char (int rem))) str (Suc i))"
  by pat_completeness auto
termination by (relation "measure (\<lambda>(value, radix, m, str, i). value)") auto

declare ulltoa_loop.simps [simp del]

definition lltoa :: "bmem \<Rightarrow> u64 \<Rightarrow> addr \<Rightarrow> int \<Rightarrow> bmem" where
  "lltoa m value str radix =
     (if radix \<noteq> 8 \<and> radix \<noteq> 10 \<and> radix \<noteq> 16 then m(str := NUL)
      else if value = 0 then m(str := CHR ''0'', str + 1 := NUL)
      else
        (let is_negative = (sint value < 0 \<and> radix = 10);
             value = (if is_negative then sint (abs_int (ucast value)) else sint value);
             (m, i) = lltoa_loop value radix m str 0;
             (m, i) = (if is_negative then (m(str + of_nat i := CHR ''-''), Suc i) else (m, i));
             m = m(str + of_nat i := NUL)
         in strrev m str (of_nat i)))"

definition ulltoa :: "bmem \<Rightarrow> u64 \<Rightarrow> addr \<Rightarrow> nat \<Rightarrow> bmem" where
  "ulltoa m value str radix =
     (if radix \<noteq> 8 \<and> radix \<noteq> 10 \<and> radix \<noteq> 16 then m(str := NUL)
      else if value = 0 then m(str := CHR ''0'', str + 1 := NUL)
      else
        (let (m, i) = ulltoa_loop (unat value) radix m str 0;
             m = m(str + of_nat i := NUL)
         in strrev m str (of_nat i)))"

text \<open>\<open>None\<close>: there is no NUL anywhere in memory.\<close>

partial_function (option) strlen_loop :: "bmem \<Rightarrow> addr \<Rightarrow> u64 \<Rightarrow> u64 option" where
  "strlen_loop m buf len = (if m (buf + len) \<noteq> NUL then strlen_loop m buf (len + 1) else Some len)"

definition strlen :: "bmem \<Rightarrow> addr \<Rightarrow> u64 option" where
  "strlen m buf = strlen_loop m buf 0"

definition isdigit :: "char \<Rightarrow> bool" where
  "isdigit c = ((scast (of_char c :: u8) :: u32) - 48 < 10)"

text \<open>
  The routines of src/libc, written against each other; the loops and string instructions are the ones
  above.  \<open>libc_same\<close> below shows that they compute the same functions as the kernel's.
\<close>

definition libc_memcpy :: "bmem \<Rightarrow> addr \<Rightarrow> addr \<Rightarrow> u64 \<Rightarrow> bmem \<times> addr" where
  "libc_memcpy m dst src sz =
     (let quads = drop_bit 3 sz;
          m = rep_movsq (unat quads) dst src m;
          m = rep_movsb (unat (sz AND 7)) (dst + 8 * quads) (src + 8 * quads) m
      in (m, dst))"

definition libc_memset :: "bmem \<Rightarrow> addr \<Rightarrow> char \<Rightarrow> u64 \<Rightarrow> bmem \<times> addr" where
  "libc_memset m buf value sz = (rep_stosb (unat sz) buf value m, buf + sz)"

definition libc_memmove :: "bmem \<Rightarrow> addr \<Rightarrow> addr \<Rightarrow> u64 \<Rightarrow> bmem \<times> addr" where
  "libc_memmove m dst src sz =
     (if src = dst then (m, dst)
      else let m = fst (libc_memcpy m dst src sz)
           in if (dst > src \<and> src + sz < dst) \<or> (src > dst \<and> dst + sz < src)
              then (fst (libc_memset m src NUL sz), dst)
              else if dst > src then (fst (libc_memset m src NUL (sz - (dst - src))), dst)
              else (fst (libc_memset m (src + ((src + sz) - (dst + sz))) NUL ((src + sz) - (dst + sz))), dst))"

definition libc_strlen :: "bmem \<Rightarrow> addr \<Rightarrow> u64 option" where
  "libc_strlen m buf = strlen_loop m buf 0"

definition libc_strrev :: "bmem \<Rightarrow> addr \<Rightarrow> u64 \<Rightarrow> bmem" where
  "libc_strrev m str len = (if len < 2 then m else strrev_loop (unat (len div 2)) m str 0 (len - 1))"

definition libc_abs :: "s32 \<Rightarrow> s32" where
  "libc_abs value = (let mask = signed_drop_bit 31 value in (value + mask) XOR mask)"

definition ltoa :: "bmem \<Rightarrow> u64 \<Rightarrow> addr \<Rightarrow> int \<Rightarrow> bmem" where
  "ltoa m value str radix =
     (if radix \<noteq> 8 \<and> radix \<noteq> 10 \<and> radix \<noteq> 16 then m(str := NUL)
      else if value = 0 then m(str := CHR ''0'', str + 1 := NUL)
      else
        (let is_negative = (sint value < 0 \<and> radix = 10);
             value = (if is_negative then sint (libc_abs (ucast value)) else sint value);
             (m, i) = lltoa_loop value radix m str 0;
             (m, i) = (if is_negative then (m(str + of_nat i := CHR ''-''), Suc i) else (m, i));
             m = m(str + of_nat i := NUL)
         in libc_strrev m str (of_nat i)))"

text \<open>The generator of src/libc/stdlib/rand.c has a 64-bit seed and keeps 14 bits; the macro expands as in the kernel.\<close>

definition srand :: "u32 \<Rightarrow> u64" where "srand s = ucast (s - 1)"

definition libc_rand :: "u64 \<Rightarrow> s32 \<times> u64" where
  "libc_rand rand_seed =
     (let rand_seed = (1103515245 * rand_seed + 12345) mod 0x7fffffff + 1
      in (ucast (drop_bit 16 rand_seed AND 0x3fff), rand_seed))"

definition libc_rand_r :: "u32 \<Rightarrow> s32" where
  "libc_rand_r seed = drop_bit 16 ((1103515245 * seed + 12345) mod 0x7fffffff + 1) AND 0x3fff"

lemma libc_same:
  "libc_memcpy = memcpy" "libc_memset = memset" "libc_memmove = memmove" "libc_strlen = strlen"
  "libc_strrev = strrev" "libc_abs = abs_int" "ltoa = lltoa"
proof -
  show cpy: "libc_memcpy = memcpy" and set: "libc_memset = memset" and len: "libc_strlen = strlen"
    and rev: "libc_strrev = strrev" and abs: "libc_abs = abs_int"
    by (intro ext, simp add: libc_memcpy_def memcpy_def libc_memset_def memset_def libc_strlen_def strlen_def
        libc_strrev_def strrev_def libc_abs_def abs_int_def)+
  show "libc_memmove = memmove" "ltoa = lltoa"
    unfolding libc_memmove_def memmove_def memzero_def ltoa_def lltoa_def cpy set rev abs fun_eq_iff by (rule allI refl)+
qed

subsection \<open>Copying and filling\<close>

lemma unat_minus_wrap: "unat (x - y :: u64) = (if unat y \<le> unat x then unat x - unat y else unat x + 2 ^ 64 - unat y)"
  using unat_sub_if_size [of x y] by (simp add: word_size)

lemma unat_le64: "unat (x :: u64) \<le> 18446744073709551615"
  using unat_lt64 [of x] by linarith

lemma rep_movsb_eq:
  "n \<le> unat (dst - src) \<or> dst = src \<Longrightarrow>
    rep_movsb n dst src m a = (if unat (a - dst) < n then m (src + (a - dst)) else m a)"
proof (induction n arbitrary: dst src m)
  case (Suc n)
  let ?m = "m(dst := m src)"
  have IH: "rep_movsb n (dst + 1) (src + 1) ?m a = (if unat (a - (dst + 1)) < n then ?m (src + 1 + (a - (dst + 1))) else ?m a)"
    using Suc.prems by (intro Suc.IH) auto
  show ?case
  proof (cases "a = dst")
    case True
    have "unat (dst - (dst + 1)) = 2 ^ 64 - 1" using unat_minus_wrap [of 0 1] by simp
    moreover have "n \<le> 2 ^ 64 - 1 \<or> dst = src" using Suc.prems unat_le64 [of "dst - src"] by auto
    ultimately show ?thesis using IH True by auto
  next
    case False
    have p: "0 < unat (a - dst)" using False by (simp add: unat_gt_0)
    have u: "unat (a - (dst + 1)) = unat (a - dst) - 1"
      using unat_minus_wrap [of "a - dst" 1] p by (simp add: diff_diff_eq [symmetric])
    have "src + (a - dst) \<noteq> dst" if "unat (a - dst) < Suc n"
    proof
      assume "src + (a - dst) = dst"
      then have "a - dst = dst - src" by (simp add: algebra_simps)
      then show False using Suc.prems that p by auto
    qed
    then show ?thesis using IH False u p by (auto simp: algebra_simps)
  qed
qed simp

lemma movsq_apply: "movsq dst src m a = (if unat (a - dst) < 8 then m (src + (a - dst)) else m a)"
  by (simp add: movsq_def word_less_nat_alt)

lemma rep_movsq_eq:
  "8 * n \<le> unat (dst - src) \<or> dst = src \<Longrightarrow>
    rep_movsq n dst src m a = (if unat (a - dst) < 8 * n then m (src + (a - dst)) else m a)"
proof (induction n arbitrary: dst src m)
  case (Suc n)
  let ?m = "movsq dst src m"
  have IH: "rep_movsq n (dst + 8) (src + 8) ?m a = (if unat (a - (dst + 8)) < 8 * n then ?m (src + 8 + (a - (dst + 8))) else ?m a)"
    using Suc.prems by (intro Suc.IH) auto
  have n: "8 * n + 8 \<le> 2 ^ 64 - 1 \<or> dst = src" using Suc.prems unat_le64 [of "dst - src"] by auto
  show ?case
  proof (cases "unat (a - dst) < 8")
    case True
    then have "unat (a - (dst + 8)) = unat (a - dst) + 2 ^ 64 - 8"
      using unat_minus_wrap [of "a - dst" 8] by (simp add: diff_diff_eq [symmetric])
    then show ?thesis using True n unfolding rep_movsq.simps IH movsq_apply by auto
  next
    case False
    have u: "unat (a - (dst + 8)) = unat (a - dst) - 8"
      using unat_minus_wrap [of "a - dst" 8] False by (simp add: diff_diff_eq [symmetric])
    have "\<not> unat (src + (a - dst) - dst) < 8" if "unat (a - dst) < 8 * n + 8"
    proof (cases "dst = src")
      case True
      then show ?thesis using False by simp
    next
      case ne: False
      have "src + (a - dst) - dst = (a - dst) - (dst - src)" by (simp add: algebra_simps)
      moreover have "unat ((a - dst) - (dst - src)) = unat (a - dst) + 2 ^ 64 - unat (dst - src)"
        unfolding unat_minus_wrap [of "a - dst" "dst - src"] using Suc.prems ne that by auto
      moreover have "unat (a - dst) + 2 ^ 64 - unat (dst - src) \<ge> 8" using False unat_le64 [of "dst - src"] by simp
      ultimately show ?thesis by (simp only: not_less)
    qed
    moreover have e: "src + 8 + (a - (dst + 8)) = src + (a - dst)" by simp
    moreover have "unat (a - dst) - 8 < 8 * n \<longleftrightarrow> unat (a - dst) < 8 * n + 8" using False by linarith
    ultimately show ?thesis using False unfolding rep_movsq.simps IH u e movsq_apply by simp
  qed
qed simp

lemma size_split: "unat sz = 8 * unat (drop_bit 3 sz) + unat (sz AND 7)" for sz :: u64
proof -
  have "sz AND 7 = take_bit 3 sz" by (simp add: take_bit_eq_mask mask_eq_exp_minus_1)
  then have "unat (sz AND 7) = unat sz mod 8"
    by (simp add: unsigned_take_bit_eq) (simp add: take_bit_eq_mod)
  then show ?thesis using drop_bit_unat_div [of 3 sz] by simp
qed

lemma memcpy_eq:
  assumes ov: "unat sz \<le> unat (dst - src) \<or> dst = src"
  shows "fst (memcpy m dst src sz) a = (if a - dst < sz then m (src + (a - dst)) else m a)"
proof -
  define Q where "Q = unat (drop_bit 3 sz)"
  define r where "r = unat (sz AND 7)"
  define x where "x = unat (a - dst)"
  have sz: "unat sz = 8 * Q + r" unfolding Q_def r_def by (rule size_split)
  have Q8: "8 * Q + r < 2 ^ 64" using unat_lt64 [of sz] sz by simp
  have uq: "unat (8 * drop_bit 3 sz) = 8 * Q" using Q8 unfolding Q_def by (subst unat_mult_small) auto
  let ?m = "rep_movsq Q dst src m" and ?d = "dst + 8 * drop_bit 3 sz" and ?s = "src + 8 * drop_bit 3 sz"
  have mq: "?m b = (if unat (b - dst) < 8 * Q then m (src + (b - dst)) else m b)" for b
    using ov sz by (intro rep_movsq_eq) auto
  have mb: "rep_movsb r ?d ?s ?m a = (if unat (a - ?d) < r then ?m (?s + (a - ?d)) else ?m a)"
    using ov sz by (intro rep_movsb_eq) auto
  have ud: "unat (a - ?d) = (if 8 * Q \<le> x then x - 8 * Q else x + 2 ^ 64 - 8 * Q)"
    using unat_minus_wrap [of "a - dst" "8 * drop_bit 3 sz"] uq by (simp add: diff_diff_eq x_def)
  have e: "?s + (a - ?d) = src + (a - dst)" by simp
  have "fst (memcpy m dst src sz) a = rep_movsb r ?d ?s ?m a" by (simp add: memcpy_def Q_def r_def Let_def)
  also have "\<dots> = (if x < unat sz then m (src + (a - dst)) else m a)"
  proof (cases "8 * Q \<le> x")
    case True
    have "\<not> unat (src + (a - dst) - dst) < 8 * Q" if "x < unat sz"
    proof (cases "dst = src")
      case True
      then show ?thesis using \<open>8 * Q \<le> x\<close> by (simp add: x_def)
    next
      case ne: False
      have "src + (a - dst) - dst = (a - dst) - (dst - src)" by (simp add: algebra_simps)
      moreover have "unat ((a - dst) - (dst - src)) = x + 2 ^ 64 - unat (dst - src)"
        unfolding unat_minus_wrap [of "a - dst" "dst - src"] x_def [symmetric] using ov ne that by auto
      moreover have "8 * Q \<le> x + 2 ^ 64 - unat (dst - src)" using True unat_le64 [of "dst - src"] by simp
      ultimately show ?thesis by (simp only: not_less)
    qed
    moreover have "x - 8 * Q < r \<longleftrightarrow> x < unat sz" using True sz by linarith
    ultimately show ?thesis using True unfolding mb ud e mq x_def [symmetric] by simp
  next
    case False
    then show ?thesis using Q8 sz unfolding mb ud mq x_def [symmetric] by auto
  qed
  finally show ?thesis by (simp add: x_def word_less_nat_alt)
qed

lemma rep_stosb_eq: "n < 2 ^ 64 \<Longrightarrow> rep_stosb n dst v m a = (if unat (a - dst) < n then v else m a)"
proof (induction n arbitrary: dst m)
  case (Suc n)
  have IH: "rep_stosb n (dst + 1) v (m(dst := v)) a = (if unat (a - (dst + 1)) < n then v else (m(dst := v)) a)"
    using Suc by simp
  show ?case
  proof (cases "a = dst")
    case True
    have "unat (dst - (dst + 1)) = 2 ^ 64 - 1" using unat_minus_wrap [of 0 1] by simp
    then show ?thesis using IH True by auto
  next
    case False
    then have p: "0 < unat (a - dst)" by (simp add: unat_gt_0)
    have u: "unat (a - (dst + 1)) = unat (a - dst) - 1"
      using unat_minus_wrap [of "a - dst" 1] p by (simp add: diff_diff_eq [symmetric])
    then show ?thesis using IH False p unfolding u by auto
  qed
qed simp

lemma memset_eq: "fst (memset m buf v sz) a = (if a - buf < sz then v else m a)"
  using rep_stosb_eq [of "unat sz" buf v m a] by (simp add: memset_def word_less_nat_alt)

lemma memzero_eq: "fst (memzero m buf sz) a = (if a - buf < sz then NUL else m a)"
  by (simp add: memzero_def memset_eq)

subsection \<open>Strings in memory\<close>

lemma addr_index:
  fixes a p :: u64
  assumes "i < 2 ^ 64"
  shows "a = p + of_nat i \<longleftrightarrow> unat (a - p) = i"
proof
  assume "unat (a - p) = i"
  then have "a - p = of_nat i" by auto
  then show "a = p + of_nat i" by (simp add: algebra_simps)
next
  assume "a = p + of_nat i"
  then have "a - p = of_nat i" by simp
  moreover have "unat (of_nat i :: u64) = i" using assms by (intro unat_of_nat_small) simp
  ultimately show "unat (a - p) = i" by simp
qed

definition holds_str :: "bmem \<Rightarrow> addr \<Rightarrow> string \<Rightarrow> bool" where
  "holds_str m p s \<longleftrightarrow> (\<forall>i<length s. m (p + of_nat i) = s ! i) \<and> m (p + of_nat (length s)) = NUL"

lemma strlen_loop_eq:
  "holds_str m p s \<Longrightarrow> NUL \<notin> set s \<Longrightarrow> n \<le> length s \<Longrightarrow> strlen_loop m p (of_nat (length s - n)) = Some (of_nat (length s))"
proof (induction n)
  case 0
  then show ?case by (subst strlen_loop.simps) (simp add: holds_str_def)
next
  case (Suc n)
  let ?i = "length s - Suc n"
  have i: "?i < length s" using Suc.prems(3) by simp
  then have "m (p + of_nat ?i) = s ! ?i" using Suc.prems(1) unfolding holds_str_def by blast
  moreover have "s ! ?i \<noteq> NUL" using nth_mem [OF i] Suc.prems(2) by metis
  moreover have "length s - n = Suc ?i" using Suc.prems(3) by simp
  then have "(of_nat ?i + 1 :: u64) = of_nat (length s - n)" by (simp only: of_nat_Suc add.commute)
  ultimately show ?case using Suc by (subst strlen_loop.simps) simp
qed

lemma strlen_eq: "holds_str m p s \<Longrightarrow> NUL \<notin> set s \<Longrightarrow> strlen m p = Some (of_nat (length s))"
  using strlen_loop_eq [of m p s "length s"] by (simp add: strlen_def)

lemma strrev_loop_eq:
  "s + 2 * n \<le> e + 1 \<Longrightarrow> e < 2 ^ 64 \<Longrightarrow>
    strrev_loop n m p (of_nat s) (of_nat e) a =
      (let x = unat (a - p) in if s \<le> x \<and> x < s + n \<or> e < x + n \<and> x \<le> e then m (p + of_nat (s + e - x)) else m a)"
proof (induction n arbitrary: s e m)
  case 0
  then show ?case by (auto simp: Let_def)
next
  case (Suc n)
  let ?m = "m(p + of_nat s := m (p + of_nat e), p + of_nat e := m (p + of_nat s))" and ?x = "unat (a - p)"
  have se: "s < e" "s < 2 ^ 64" using Suc.prems by auto
  have "strrev_loop (Suc n) m p (of_nat s) (of_nat e) a = strrev_loop n ?m p (of_nat (Suc s)) (of_nat (e - 1)) a"
    using se by (simp add: Let_def of_nat_diff add.commute)
  also have "\<dots> = (if Suc s \<le> ?x \<and> ?x < Suc s + n \<or> e - 1 < ?x + n \<and> ?x \<le> e - 1 then ?m (p + of_nat (Suc s + (e - 1) - ?x)) else ?m a)"
    using Suc.prems unfolding Let_def by (subst Suc.IH) (auto simp: Let_def)
  also have "\<dots> = (if s \<le> ?x \<and> ?x < s + Suc n \<or> e < ?x + Suc n \<and> ?x \<le> e then m (p + of_nat (s + e - ?x)) else m a)"
  proof -
    have ap: "a = p + of_nat s \<longleftrightarrow> ?x = s" "a = p + of_nat e \<longleftrightarrow> ?x = e"
      using se Suc.prems(2) by (intro addr_index; simp)+
    have idx: "p + of_nat k = p + of_nat j \<longleftrightarrow> k = j" if "k < 2 ^ 64" "j < 2 ^ 64" for k j
      using addr_index [OF that(2), of "p + of_nat k" p] that(1) by (simp add: unat_of_nat_small)
    consider "?x = s" | "?x = e" | "s < ?x" "?x < e" | "?x < s \<or> e < ?x" by linarith
    then show ?thesis
    proof cases
      case 3
      then have "Suc s + (e - 1) - ?x = s + e - ?x" "s < s + e - ?x" "s + e - ?x < e" using se by auto
      then have "?m (p + of_nat (Suc s + (e - 1) - ?x)) = m (p + of_nat (s + e - ?x))"
        using idx [of "s + e - ?x" s] idx [of "s + e - ?x" e] se Suc.prems(2) by simp
      then show ?thesis using 3 ap by auto
    next
      case 1
      then have "a = p + of_nat s" using ap by blast
      moreover have "\<not> Suc s \<le> ?x" "\<not> e - 1 < ?x + n" using 1 se(1) Suc.prems(1) by auto
      ultimately show ?thesis using 1 se by (simp only: if_False fun_upd_same simp_thms) simp
    next
      case 2
      then have "a = p + of_nat e" using ap by blast
      moreover have "\<not> ?x < Suc s + n" "\<not> ?x \<le> e - 1" using 2 se(1) Suc.prems(1) by auto
      ultimately show ?thesis using 2 se by (simp only: if_False fun_upd_same simp_thms) simp
    next
      case 4
      then have "\<not> (Suc s \<le> ?x \<and> ?x < Suc s + n)" "\<not> (e - 1 < ?x + n \<and> ?x \<le> e - 1)"
          "\<not> (s \<le> ?x \<and> ?x < s + Suc n)" "\<not> (e < ?x + Suc n \<and> ?x \<le> e)" "?x \<noteq> s" "?x \<noteq> e"
        using se(1) Suc.prems(1) by auto
      moreover from this have "a \<noteq> p + of_nat s" "a \<noteq> p + of_nat e" using ap by blast+
      ultimately show ?thesis by (simp only: if_False fun_upd_apply simp_thms)
    qed
  qed
  finally show ?case by (simp only: Let_def)
qed

lemma strrev_eq: "strrev m p len a = (if a - p < len then m (p + (len - 1 - (a - p))) else m a)"
proof (cases "len < 2")
  case True
  then have "len = 0 \<or> len = 1" by (simp add: word_less_nat_alt word_unat_eq_iff) arith
  moreover have "a - p < 1 \<longleftrightarrow> a = p" by (simp add: word_less_nat_alt unat_eq_zero)
  ultimately show ?thesis using True by (auto simp: strrev_def)
next
  case False
  define L where "L = unat len"
  define x where "x = unat (a - p)"
  have L: "2 \<le> L" "L < 2 ^ 64" using False unat_lt64 [of len] by (auto simp: L_def word_less_nat_alt)
  have "len - 1 = of_nat (L - 1)" using L(1) by (simp add: L_def of_nat_diff)
  then have "strrev m p len a = strrev_loop (L div 2) m p (of_nat 0) (of_nat (L - 1)) a"
    using False by (simp add: strrev_def L_def unat_div_distrib)
  also have "\<dots> = (if x < L div 2 \<or> L - 1 < x + L div 2 \<and> x \<le> L - 1 then m (p + of_nat (L - 1 - x)) else m a)"
    using L strrev_loop_eq [of 0 "L div 2" "L - 1" m p a] by (simp add: Let_def x_def)
  also have "\<dots> = (if x < L then m (p + of_nat (L - 1 - x)) else m a)"
  proof -
    have "of_nat (L - 1 - x) = a - p" if "x < L" "\<not> x < L div 2" "\<not> L - 1 < x + L div 2"
    proof -
      have "L - 1 - x = x" using that by linarith
      then show ?thesis by (simp add: x_def)
    qed
    then show ?thesis using L by auto
  qed
  also have "\<dots> = (if a - p < len then m (p + (len - 1 - (a - p))) else m a)"
  proof -
    have "of_nat (L - 1 - x) = len - 1 - (a - p)" if "x < L" using that by (simp add: L_def x_def of_nat_diff)
    then show ?thesis by (auto simp: word_less_nat_alt x_def L_def)
  qed
  finally show ?thesis .
qed

subsection \<open>Numbers as strings\<close>

text \<open>
  The reference: the digits of a number, most significant first.  \<open>lsd\<close> lists them in the order in which
  the loops produce them, and \<open>parse_nat\<close> reads them back.
\<close>

function show_nat :: "nat \<Rightarrow> nat \<Rightarrow> string" where
  "show_nat b n = (if n < b \<or> b < 2 then [digit_char (int n)] else show_nat b (n div b) @ [digit_char (int (n mod b))])"
  by pat_completeness auto
termination by (relation "measure (\<lambda>(b, n). n)") auto

declare show_nat.simps [simp del]

function lsd :: "nat \<Rightarrow> nat \<Rightarrow> string" where
  "lsd b n = (if n = 0 \<or> b < 2 then [] else digit_char (int (n mod b)) # lsd b (n div b))"
  by pat_completeness auto
termination by (relation "measure (\<lambda>(b, n). n)") auto

declare lsd.simps [simp del]

definition digit_val :: "char \<Rightarrow> nat" where
  "digit_val c = (if of_char c < (58 :: nat) then of_char c - 48 else of_char c - 87)"

definition parse_nat :: "nat \<Rightarrow> string \<Rightarrow> nat" where
  "parse_nat b s = foldl (\<lambda>acc c. acc * b + digit_val c) 0 s"

lemma show_nat_lsd: "0 < n \<Longrightarrow> 2 \<le> b \<Longrightarrow> show_nat b n = rev (lsd b n)"
proof (induction n rule: less_induct)
  case (less n)
  show ?case
  proof (cases "n < b")
    case True
    then have "lsd b n = [digit_char (int n)]" using less.prems lsd.simps [of b n] lsd.simps [of b 0] by simp
    then show ?thesis using True by (simp add: show_nat.simps [of b n])
  next
    case False
    then have "0 < n div b" "n div b < n" using less.prems by (auto simp: div_greater_zero_iff)
    then have "show_nat b (n div b) = rev (lsd b (n div b))" using less by blast
    then show ?thesis using False less.prems by (simp add: show_nat.simps [of b n] lsd.simps [of b n])
  qed
qed

lemma length_lsd: "n < b ^ k \<Longrightarrow> length (lsd b n) \<le> k"
proof (induction k arbitrary: n)
  case 0
  then show ?case by (simp add: lsd.simps)
next
  case (Suc k)
  then have "n div b < b ^ k" by (simp add: less_mult_imp_div_less mult.commute)
  then show ?case using Suc.IH [of "n div b"] by (simp add: lsd.simps [of b n])
qed

lemma of_char_digit: "n < 16 \<Longrightarrow> of_char (digit_char (int n)) = (if n < 10 then n + 48 else n + (87 :: nat))"
proof -
  assume n: "n < 16"
  have "int (of_char (digit_char (int n))) = (of_char (digit_char (int n)) :: int)" by (rule of_nat_of_char)
  also have "\<dots> = (if int n > 9 then int n - 10 + 97 else int n + 48) mod 256" by (simp add: digit_char_def)
  also have "\<dots> = int (if n < 10 then n + 48 else n + 87)" using n by simp
  finally show ?thesis by (simp only: of_nat_eq_iff)
qed

lemma digit_val_digit: "n < 16 \<Longrightarrow> digit_val (digit_char (int n)) = n"
  by (simp add: digit_val_def of_char_digit)

lemma digit_not_NUL: "n < 16 \<Longrightarrow> digit_char (int n) \<noteq> NUL"
  using of_char_digit [of n] by (auto split: if_splits)

lemma parse_show_nat: "2 \<le> b \<Longrightarrow> b \<le> 16 \<Longrightarrow> parse_nat b (show_nat b n) = n"
proof (induction n rule: less_induct)
  case (less n)
  show ?case
  proof (cases "n < b")
    case True
    then show ?thesis using less.prems by (simp add: show_nat.simps [of b n] parse_nat_def digit_val_digit)
  next
    case False
    then have "parse_nat b (show_nat b (n div b)) = n div b" using less by auto
    moreover have "n mod b < 16" using less.prems mod_less_divisor [of b n] by linarith
    ultimately show ?thesis using False less.prems
      by (simp add: show_nat.simps [of b n] parse_nat_def digit_val_digit)
  qed
qed

lemma show_nat_no_NUL: "2 \<le> b \<Longrightarrow> b \<le> 16 \<Longrightarrow> NUL \<notin> set (show_nat b n)"
proof (induction n rule: less_induct)
  case (less n)
  have "n mod b < 16" using less.prems mod_less_divisor [of b n] by linarith
  moreover have "n div b < n" if "\<not> n < b" using that less.prems by auto
  ultimately show ?case using less digit_not_NUL [of n] digit_not_NUL [of "n mod b"]
    by (cases "n < b") (auto simp: show_nat.simps [of b n])
qed

text \<open>The loop of \<open>ulltoa\<close> appends the digits, least significant first.\<close>

lemma ulltoa_loop_eq:
  "2 \<le> b \<Longrightarrow> i + length (lsd b v) < 2 ^ 64 \<Longrightarrow>
    snd (ulltoa_loop v b m p i) = i + length (lsd b v)
    \<and> fst (ulltoa_loop v b m p i) a =
      (let x = unat (a - p) in if i \<le> x \<and> x < i + length (lsd b v) then lsd b v ! (x - i) else m a)"
proof (induction v arbitrary: i m rule: less_induct)
  case (less v)
  show ?case
  proof (cases "v = 0")
    case True
    then show ?thesis by (auto simp: ulltoa_loop.simps lsd.simps Let_def)
  next
    case False
    let ?m = "m(p + of_nat i := digit_char (int (v mod b)))" and ?x = "unat (a - p)"
    have lv: "lsd b v = digit_char (int (v mod b)) # lsd b (v div b)" using False less.prems by (simp add: lsd.simps [of b v])
    have rec: "ulltoa_loop v b m p i = ulltoa_loop (v div b) b ?m p (Suc i)"
      using False less.prems by (simp add: ulltoa_loop.simps [of v] Let_def)
    have IH: "snd (ulltoa_loop (v div b) b ?m p (Suc i)) = Suc i + length (lsd b (v div b))
      \<and> fst (ulltoa_loop (v div b) b ?m p (Suc i)) a =
      (let x = ?x in if Suc i \<le> x \<and> x < Suc i + length (lsd b (v div b)) then lsd b (v div b) ! (x - Suc i) else ?m a)"
      using less.prems False lv by (intro less.IH) auto
    have "a = p + of_nat i \<longleftrightarrow> ?x = i" using less.prems(2) by (intro addr_index) simp
    then have "?m a = (if ?x = i then digit_char (int (v mod b)) else m a)" by (simp only: fun_upd_apply)
    then show ?thesis using IH unfolding rec lv Let_def
      by (cases "?x = i") (auto simp: nth_Cons' simp del: fun_upd_apply)
  qed
qed

text \<open>Storing a NUL after \<open>n\<close> characters and reversing them leaves the reversed string.\<close>

lemma strrev_holds_str:
  assumes "\<And>i. i < length s \<Longrightarrow> m (p + of_nat i) = s ! i" "length s < 2 ^ 64 - 1"
  shows "holds_str (strrev (m(p + of_nat (length s) := NUL)) p (of_nat (length s))) p (rev s)"
    and "length s < unat (a - p) \<Longrightarrow> strrev (m(p + of_nat (length s) := NUL)) p (of_nat (length s)) a = m a"
proof -
  let ?n = "length s" and ?m = "m(p + of_nat (length s) := NUL)"
  have un: "i < 2 ^ 64 \<Longrightarrow> unat (of_nat i :: u64) = i" for i by (simp add: unat_of_nat_small)
  have ne: "(p + of_nat i = p + of_nat ?n) \<longleftrightarrow> i = ?n" if "i < 2 ^ 64" for i
    using addr_index [of ?n "p + of_nat i" p] un [OF that] assms(2) by simp
  show "holds_str (strrev ?m p (of_nat ?n)) p (rev s)"
    unfolding holds_str_def
  proof (intro conjI allI impI)
    fix i assume i: "i < length (rev s)"
    then have lt: "(of_nat i :: u64) < of_nat ?n" using assms(2) by (simp add: word_less_nat_alt un)
    have "of_nat ?n - 1 - of_nat i = (of_nat (?n - 1 - i) :: u64)" using i by (simp add: of_nat_diff)
    then have "strrev ?m p (of_nat ?n) (p + of_nat i) = ?m (p + of_nat (?n - 1 - i))"
      using lt by (simp add: strrev_eq del: fun_upd_apply)
    also have "\<dots> = s ! (?n - 1 - i)"
    proof -
      have k: "?n - 1 - i < ?n" using i by simp
      then have "p + of_nat (?n - 1 - i) \<noteq> p + of_nat ?n" using ne [of "?n - 1 - i"] assms(2) by linarith
      then show ?thesis using assms(1) [OF k] by (simp only: fun_upd_apply if_False)
    qed
    finally show "strrev ?m p (of_nat ?n) (p + of_nat i) = rev s ! i" using i by (simp add: rev_nth)
  next
    show "strrev ?m p (of_nat ?n) (p + of_nat (length (rev s))) = NUL" by (simp add: strrev_eq)
  qed
  show "strrev ?m p (of_nat ?n) a = m a" if "?n < unat (a - p)"
  proof -
    have "a \<noteq> p + of_nat ?n" using addr_index [of ?n a p] that assms(2) by simp
    moreover have "\<not> a - p < of_nat ?n" using that assms(2) by (simp add: word_less_nat_alt un)
    ultimately show ?thesis by (simp add: strrev_eq)
  qed
qed

lemma ulltoa_string:
  assumes b: "b = 8 \<or> b = 10 \<or> b = 16"
  shows "holds_str (ulltoa m v p b) p (show_nat b (unat v))" and "length (show_nat b (unat v)) \<le> 22"
    and "22 < unat (a - p) \<Longrightarrow> ulltoa m v p b a = m a"
proof -
  let ?d = "lsd b (unat v)"
  have b2: "2 \<le> b" using b by auto
  have "unat v < b ^ 22"
  proof -
    have "(8::nat) ^ 22 \<le> b ^ 22" using b by (intro power_mono) auto
    moreover have "unat v < 8 ^ 22" by (rule less_le_trans [OF unat_lt64]) simp
    ultimately show ?thesis by linarith
  qed
  then have len: "length ?d \<le> 22" by (rule length_lsd)
  show l22: "length (show_nat b (unat v)) \<le> 22"
    using len show_nat_lsd [of "unat v" b] b2 by (cases "v = 0") (auto simp: show_nat.simps [of b 0] unat_gt_0)
  have all: "holds_str (ulltoa m v p b) p (show_nat b (unat v)) \<and> (22 < unat (a - p) \<longrightarrow> ulltoa m v p b a = m a)" for a
  proof (cases "v = 0")
    case True
    have "p + 1 \<noteq> p" by simp
    moreover have "a \<noteq> p" "a \<noteq> p + 1" if "22 < unat (a - p)" using that by auto
    moreover have "show_nat b 0 = ''0''" using b2 by (simp add: show_nat.simps digit_char_def char_of_def)
    ultimately show ?thesis using True b by (auto simp: ulltoa_def holds_str_def)
  next
    case False
    obtain m' n where l: "ulltoa_loop (unat v) b m p 0 = (m', n)" by fastforce
    have le: "n = length ?d" "m' c = (if unat (c - p) < length ?d then ?d ! unat (c - p) else m c)" for c
      using ulltoa_loop_eq [OF b2, of 0 "unat v" m p c] len l by (auto simp: Let_def)
    have dig: "m' (p + of_nat i) = ?d ! i" if "i < length ?d" for i
      using le(2) [of "p + of_nat i"] that len by (simp add: unat_of_nat_small)
    have u: "ulltoa m v p b = strrev (m'(p + of_nat (length ?d) := NUL)) p (of_nat (length ?d))"
      using False b l le(1) by (auto simp: ulltoa_def)
    have sh: "show_nat b (unat v) = rev ?d" using show_nat_lsd b2 False by (simp add: unat_gt_0)
    have lt: "length ?d < 2 ^ 64 - 1" using len by simp
    show ?thesis
      using strrev_holds_str(1) [where m = m', OF dig lt] strrev_holds_str(2) [where m = m', OF dig lt, of a] le(2) [of a] len
      unfolding u sh by auto
  qed
  show "holds_str (ulltoa m v p b) p (show_nat b (unat v))" using all by blast
  show "22 < unat (a - p) \<Longrightarrow> ulltoa m v p b a = m a" using all by blast
qed

text \<open>For values that are not negative the signed loop is the unsigned one.\<close>

lemma lltoa_loop_nat: "lltoa_loop (int v) (int b) m p i = ulltoa_loop v b m p i"
proof (induction v arbitrary: m i rule: less_induct)
  case (less v)
  show ?case
  proof (cases "v = 0 \<or> b < 2")
    case True
    then show ?thesis by (auto simp: lltoa_loop.simps ulltoa_loop.simps)
  next
    case False
    have "int v sdiv int b = int (v div b)" using False by (simp add: signed_divide_int_def zdiv_int)
    moreover have "int v smod int b = int (v mod b)"
      using False by (simp add: signed_modulo_int_def signed_divide_int_def zdiv_int zmod_int flip: minus_div_mult_eq_mod)
    moreover have "v div b < v" using False by auto
    ultimately show ?thesis
      using less.IH [of "v div b"] False lltoa_loop.simps [of "int v" "int b"] ulltoa_loop.simps [of v b] by (simp add: Let_def)
  qed
qed

text \<open>The decimal string of a signed value, with the magnitude given separately.\<close>

lemma lltoa_decimal:
  assumes neg: "sint v < 0" and w: "(ucast v :: s32) \<noteq> 0x80000000"
  shows "holds_str (lltoa m v p 10) p (CHR ''-'' # rev (lsd 10 (nat \<bar>sint (ucast v :: s32)\<bar>)))"
proof -
  define k where "k = nat \<bar>sint (ucast v :: s32)\<bar>"
  have ab: "sint (abs_int (ucast v)) = int k" using abs_int_spec [OF w] by (simp add: k_def)
  have "\<bar>sint (ucast v :: s32)\<bar> \<le> 2 ^ 31" using sint_ge [of "ucast v :: s32"] sint_lt [of "ucast v :: s32"] by simp
  then have "k < 10 ^ 10" by (simp add: k_def nat_less_iff)
  then have len: "length (lsd 10 k) \<le> 10" by (rule length_lsd)
  have v0: "v \<noteq> 0" using neg by auto
  obtain m' n where l: "ulltoa_loop k 10 m p 0 = (m', n)" by fastforce
  have le: "n = length (lsd 10 k)" "m' c = (if unat (c - p) < length (lsd 10 k) then lsd 10 k ! unat (c - p) else m c)" for c
    using ulltoa_loop_eq [of 10 0 k m p c] len l by (auto simp: Let_def)
  let ?s = "lsd 10 k @ [CHR ''-'']" and ?m = "m'(p + of_nat (length (lsd 10 k)) := CHR ''-'')"
  have dig: "?m (p + of_nat i) = ?s ! i" if "i < length ?s" for i
  proof (cases "i = length (lsd 10 k)")
    case False
    then have i: "i < length (lsd 10 k)" using that by simp
    have "p + of_nat i \<noteq> p + of_nat (length (lsd 10 k))"
      using addr_index [of "length (lsd 10 k)" "p + of_nat i" p] False i len by (simp add: unat_of_nat_small)
    then show ?thesis using le(2) [of "p + of_nat i"] i len by (simp add: unat_of_nat_small nth_append)
  qed simp
  have lt: "length ?s < 2 ^ 64 - 1" using len by simp
  have "lltoa m v p 10 = strrev (?m(p + of_nat (length ?s) := NUL)) p (of_nat (length ?s))"
    using neg v0 ab l le(1) lltoa_loop_nat [of k 10 m p 0] by (simp add: lltoa_def)
  then show ?thesis using strrev_holds_str(1) [where m = ?m and s = ?s, OF dig lt] by (simp add: k_def)
qed

lemma lltoa_nonneg:
  assumes "0 \<le> sint v" "b = 8 \<or> b = 10 \<or> b = 16"
  shows "lltoa m v p (int b) = ulltoa m v p b"
proof -
  have "take_bit 64 (sint v) = sint v" using assms(1) sint_lt [of v] by (intro take_bit_int_eq_self) auto
  then have "sint v = int (unat v)" using uint_sint [of v] by simp
  then show ?thesis using assms lltoa_loop_nat [of "unat v" b m p 0] by (auto simp: lltoa_def ulltoa_def)
qed

text \<open>The two forms of the decimal string, and the values whose low word is the value itself.\<close>

lemma lltoa_low_word:
  assumes "sint v < 0"
  shows "(ucast v :: s32) \<noteq> 0x80000000 \<and> (ucast v :: s32) \<noteq> 0 \<Longrightarrow>
      holds_str (lltoa m v p 10) p (CHR ''-'' # show_nat 10 (nat \<bar>sint (ucast v :: s32)\<bar>))"
    and "(ucast v :: s32) = 0 \<Longrightarrow> holds_str (lltoa m v p 10) p ''-''"
proof -
  assume w: "(ucast v :: s32) \<noteq> 0x80000000 \<and> (ucast v :: s32) \<noteq> 0"
  then have "nat \<bar>sint (ucast v :: s32)\<bar> \<noteq> 0" by (simp add: signed_eq_0_iff)
  then show "holds_str (lltoa m v p 10) p (CHR ''-'' # show_nat 10 (nat \<bar>sint (ucast v :: s32)\<bar>))"
    using lltoa_decimal [OF assms, of m p] w show_nat_lsd [of _ 10] by simp
next
  assume "(ucast v :: s32) = 0"
  then show "holds_str (lltoa m v p 10) p ''-''" using lltoa_decimal [OF assms, of m p] by (simp add: lsd.simps)
qed

lemma lltoa_small_neg:
  assumes "- (2 ^ 31) < sint v \<and> sint v < 0"
  shows "holds_str (lltoa m v p 10) p (CHR ''-'' # show_nat 10 (nat (- sint v)))"
proof -
  have s: "sint (ucast v :: s32) = sint v"
  proof -
    have "sint (ucast v :: s32) = signed_take_bit 31 (sint v)"
    proof (rule bit_eqI)
      fix n :: nat
      consider "n < 31" | "n = 31" | "32 \<le> n" by linarith
      then show "bit (sint (ucast v :: s32)) n = bit (signed_take_bit 31 (sint v)) n"
        by cases (simp_all add: bit_sint_iff bit_signed_take_bit_iff bit_ucast_iff)
    qed
    then show ?thesis using assms by (simp add: signed_take_bit_int_eq_self)
  qed
  have "(ucast v :: s32) \<noteq> 0x80000000" "(ucast v :: s32) \<noteq> 0" using s assms by auto
  then show ?thesis using lltoa_low_word(1) [of v m p] s assms by simp
qed

text \<open>The bytes that \<open>memmove\<close> clears last, for areas that overlap by more than half.\<close>

lemma memmove_up:
  assumes "unat src + unat sz < 2 ^ 64" "src < dst \<and> i < unat sz - 2 * unat (dst - src)"
  shows "fst (memmove m dst src sz) (dst + of_nat i) = NUL"
proof -
  define d where "d = unat (dst - src)"
  have lt: "src < dst" "unat src < unat dst" using assms(2) by (auto simp: word_less_nat_alt)
  have dd: "d = unat dst - unat src" unfolding d_def using lt by (intro unat_sub) simp
  have i: "i + 2 * d < unat sz" using assms(2) unfolding d_def by arith
  have "unat (src + sz) = unat src + unat sz" using assms(1) by (simp add: unat_add_small)
  then have ge: "\<not> src + sz < dst" using i dd by (simp add: word_less_nat_alt)
  have "dst + of_nat i - src = of_nat (i + d)" by (simp add: d_def)
  moreover have "unat (of_nat (i + d) :: u64) = i + d" using i unat_le64 [of sz] by (intro unat_of_nat_small) simp
  moreover have "unat (sz - (dst - src)) = unat sz - d" unfolding d_def
    by (rule unat_sub) (use i in \<open>simp add: word_le_nat_alt d_def\<close>)
  ultimately have "dst + of_nat i - src < sz - (dst - src)" using i by (simp only: word_less_nat_alt)
  moreover have "\<not> dst < src" using lt(1) by simp
  ultimately show ?thesis using lt(1) ge by (simp add: memmove_def Let_def memzero_eq less_imp_neq)
qed

lemma memmove_down:
  assumes "unat dst + unat sz < 2 ^ 64" "dst < src \<and> 2 * unat (src - dst) \<le> i \<and> i < 3 * unat (src - dst) \<and> i < unat sz"
  shows "fst (memmove m dst src sz) (dst + of_nat i) = NUL"
proof -
  define d where "d = unat (src - dst)"
  have lt: "dst < src" "unat dst < unat src" using assms(2) by (auto simp: word_less_nat_alt)
  have dd: "d = unat src - unat dst" unfolding d_def using lt by (intro unat_sub) simp
  have i: "2 * d \<le> i" "i < 3 * d" "i < unat sz" using assms(2) by (simp_all add: d_def)
  have "unat (dst + sz) = unat dst + unat sz" using assms(1) by (simp add: unat_add_small)
  then have ge: "\<not> dst + sz < src" using i dd by (simp add: word_less_nat_alt)
  have "dst + of_nat i - (src + (src - dst)) = of_nat i - of_nat (2 * d)" by (simp add: d_def)
  then have e: "dst + of_nat i - (src + (src - dst)) = of_nat (i - 2 * d)" using i(1) by (simp add: of_nat_diff)
  have "unat (of_nat (i - 2 * d) :: u64) = i - 2 * d" using i unat_le64 [of sz] by (intro unat_of_nat_small) simp
  then have "dst + of_nat i - (src + (src - dst)) < src - dst" using i unfolding e word_less_nat_alt d_def [symmetric] by simp
  moreover have "(src + sz) - (dst + sz) = src - dst" by simp
  moreover have "\<not> src < dst" using lt(1) by simp
  ultimately show ?thesis using lt(1) ge by (simp add: memmove_def Let_def memzero_eq less_imp_neq [OF lt(1), symmetric] del: diff_diff_eq2)
qed

subsection \<open>Properties\<close>

text \<open>C25: the quadword-then-byte \<open>memcpy\<close> is the copy of the source as it was before the call, at every address,
  whenever the destination does not start inside the source; an overlap with the destination below is fine.\<close>

theorem memcpy_correct:
  assumes "unat sz \<le> unat (dst - src) \<or> dst = src"
  shows "memcpy m dst src sz = ((\<lambda>a. if a - dst < sz then m (src + (a - dst)) else m a), dst)"
  using memcpy_eq [OF assms, of m] by (intro prod_eqI) (auto simp: memcpy_def Let_def fun_eq_iff)

theorem memcpy_correct_witness:
  "memcpy (\<lambda>a. char_of (unat a)) 100 103 9 = ((\<lambda>a. if a - 100 < 9 then char_of (unat (103 + (a - 100))) else char_of (unat a)), 100)"
  using memcpy_correct [of 9 100 103 "\<lambda>a. char_of (unat a)"] by simp

text \<open>C30: with overlapping areas \<open>memmove\<close> clears bytes that it has just moved.  The range it zeroes is computed from
  the distance of the two areas and reaches into the destination when that distance is less than half of the size: moving
  up by \<open>d\<close>, the first \<open>size - 2 * d\<close> bytes of the destination are NUL afterwards; moving down by \<open>d\<close>, its bytes from
  \<open>2 * d\<close> up to \<open>3 * d\<close> are; in both cases for every content of the source.\<close>

theorem memmove_overlap_clears:
  assumes "unat src + unat sz < 2 ^ 64" "unat dst + unat sz < 2 ^ 64"
  shows "(src < dst \<and> i < unat sz - 2 * unat (dst - src) \<longrightarrow> fst (memmove m dst src sz) (dst + of_nat i) = NUL)
    \<and> (dst < src \<and> 2 * unat (src - dst) \<le> i \<and> i < 3 * unat (src - dst) \<and> i < unat sz \<longrightarrow>
         fst (memmove m dst src sz) (dst + of_nat i) = NUL)"
  using memmove_up [OF assms(1)] memmove_down [OF assms(2)] by blast

theorem memmove_overlap_clears_witness:
  "fst (memmove (\<lambda>_. CHR ''x'') 101 100 8) (101 + of_nat 5) = NUL \<and> fst (memmove (\<lambda>_. CHR ''x'') 100 101 8) (100 + of_nat 2) = NUL"
  using memmove_overlap_clears [of 100 8 101 5 "\<lambda>_. CHR ''x''"] memmove_overlap_clears [of 101 8 100 2 "\<lambda>_. CHR ''x''"] by simp

text \<open>C26: \<open>ulltoa\<close> writes the digits of the value in the radix, followed by a NUL, and nothing outside the first 23
  bytes; reading the digits back gives the value, and \<open>strlen\<close> finds their number.\<close>

theorem ulltoa_correct:
  assumes "radix = 8 \<or> radix = 10 \<or> radix = 16"
  shows "holds_str (ulltoa m v str radix) str (show_nat radix (unat v))
    \<and> strlen (ulltoa m v str radix) str = Some (of_nat (length (show_nat radix (unat v))))
    \<and> length (show_nat radix (unat v)) \<le> 22 \<and> (22 < unat (a - str) \<longrightarrow> ulltoa m v str radix a = m a)
    \<and> parse_nat radix (show_nat radix (unat v)) = unat v"
proof -
  have "2 \<le> radix" "radix \<le> 16" using assms by auto
  then show ?thesis
    using ulltoa_string [OF assms] strlen_eq [OF ulltoa_string(1) [OF assms]] show_nat_no_NUL parse_show_nat
    by blast
qed

theorem ulltoa_correct_witness:
  "strlen (ulltoa (\<lambda>_. NUL) 0xdeadbeef 4096 16) 4096 = Some (of_nat (length (show_nat 16 0xdeadbeef)))"
  using ulltoa_correct [of 16 "\<lambda>_. NUL" "0xdeadbeef" 4096] by simp

text \<open>C27: \<open>lltoa\<close> on values that are not negative is \<open>ulltoa\<close>, in the three radixes.  In radix 10 a negative value
  above \<open>- 2 ^ 31\<close> is printed as a minus sign and its magnitude.  For the other negative values the 32-bit \<open>abs\<close>
  decides: the digits are those of the magnitude of the low 32 bits read as an \<open>int\<close>, and there are none, only the
  minus sign, when these bits are zero.  The low word \<open>0x80000000\<close>, whose \<open>abs\<close> overflows, and negative values in
  radix 8 and 16 are outside the statement.\<close>

theorem lltoa_correct:
  "(0 \<le> sint v \<and> (radix = 8 \<or> radix = 10 \<or> radix = 16) \<longrightarrow> lltoa m v str (int radix) = ulltoa m v str radix)
   \<and> (- (2 ^ 31) < sint v \<and> sint v < 0 \<longrightarrow> holds_str (lltoa m v str 10) str (CHR ''-'' # show_nat 10 (nat (- sint v))))
   \<and> (sint v < 0 \<and> (ucast v :: s32) \<noteq> 0x80000000 \<and> (ucast v :: s32) \<noteq> 0 \<longrightarrow>
        holds_str (lltoa m v str 10) str (CHR ''-'' # show_nat 10 (nat \<bar>sint (ucast v :: s32)\<bar>)))
   \<and> (sint v < 0 \<and> (ucast v :: s32) = 0 \<longrightarrow> holds_str (lltoa m v str 10) str ''-'')"
  by (intro conjI impI) (use lltoa_nonneg lltoa_small_neg lltoa_low_word in \<open>simp_all\<close>)

theorem lltoa_correct_witness:
  "holds_str (lltoa (\<lambda>_. NUL) (- 42) 4096 10) 4096 (CHR ''-'' # show_nat 10 42)
   \<and> holds_str (lltoa (\<lambda>_. NUL) (- 4294967297) 4096 10) 4096 (CHR ''-'' # show_nat 10 1)
   \<and> holds_str (lltoa (\<lambda>_. NUL) (- 4294967296) 4096 10) 4096 ''-''"
  using lltoa_correct [of "- 42" 10 "\<lambda>_. NUL" 4096] lltoa_correct [of "- 4294967297" 10 "\<lambda>_. NUL" 4096]
    lltoa_correct [of "- 4294967296" 10 "\<lambda>_. NUL" 4096] by simp

end
