(* ===== verification/Kernel_Printf.thy ===== *)
theory Kernel_Printf
  imports Kernel_String
begin

unbundle bit_operations_syntax

text \<open>
  The formatted output of src/kernel/lib/vsnprintf.c and src/kernel/lib/printk.c.  A format and the text of a
  \<open>%s\<close> argument are C strings that the code only reads, character by character up to the NUL; they are HOL
  strings here, cut at their first NUL by \<open>c_str\<close>.  The output buffer is memory, so that writes beyond its size are visible.  The local array
  \<open>tmp_buf\<close> of \<open>process_format\<close> is a memory of its own that starts at address 0.
\<close>

subsection \<open>Model\<close>

datatype printf_type = UNKNOWN_TYPE | LITERAL_TYPE | SIGNED_INT_TYPE | UNSIGNED_INT_DEC_TYPE | UNSIGNED_INT_HEX_TYPE
  | UNSIGNED_INT_OCT_TYPE | CHAR_TYPE | STRING_TYPE | POINTER_TYPE | ERROR_TYPE

datatype printf_length = UNKNOWN_LENGTH | LONG_LENGTH | LONG_LONG_LENGTH | ERROR_LENGTH

text \<open>The value of an enumeration constant, which the \<open>case\<close> label made of \<open>||\<close> depends on.\<close>

fun printf_type_num :: "printf_type \<Rightarrow> int" where
  "printf_type_num UNKNOWN_TYPE = 0"
| "printf_type_num LITERAL_TYPE = 1"
| "printf_type_num SIGNED_INT_TYPE = 2"
| "printf_type_num UNSIGNED_INT_DEC_TYPE = 3"
| "printf_type_num UNSIGNED_INT_HEX_TYPE = 4"
| "printf_type_num UNSIGNED_INT_OCT_TYPE = 5"
| "printf_type_num CHAR_TYPE = 6"
| "printf_type_num STRING_TYPE = 7"
| "printf_type_num POINTER_TYPE = 8"
| "printf_type_num ERROR_TYPE = 9"

record print_fmt_spec =
  sp_type :: printf_type
  sp_length :: printf_length
  sp_base :: u8
  sp_precision :: u8

definition PRINTK_DECD_ERROR_MSG :: string where "PRINTK_DECD_ERROR_MSG = ''<FORMAT_DECODE_ERROR>''"

definition PRINTK_PROC_ERROR_MSG :: string where "PRINTK_PROC_ERROR_MSG = ''<FORMAT_PROCESS_ERROR>''"

text \<open>The characters of a C string: those before its first NUL.\<close>

definition c_str :: "string \<Rightarrow> string" where "c_str s = takeWhile (\<lambda>c. c \<noteq> NUL) s"

text \<open>The variadic arguments: integers in their 64-bit slots, and pointers to strings.\<close>

datatype va_slot = Va_int u64 | Va_str string

fun va_arg_int :: "va_slot list \<Rightarrow> (u64 \<times> va_slot list) kres" where
  "va_arg_int (Va_int w # args) = Inr (w, args)"
| "va_arg_int args = Inl (Undefined ''va_arg'')"

fun va_arg_str :: "va_slot list \<Rightarrow> (string \<times> va_slot list) kres" where
  "va_arg_str (Va_str s # args) = Inr (c_str s, args)"
| "va_arg_str args = Inl (Undefined ''va_arg'')"

definition is_length :: "char \<Rightarrow> bool" where "is_length c \<longleftrightarrow> c = CHR ''l''"

definition is_type :: "char \<Rightarrow> bool" where
  "is_type c \<longleftrightarrow> c = CHR ''d'' \<or> c = CHR ''i'' \<or> c = CHR ''u'' \<or> c = CHR ''x'' \<or> c = CHR ''o'' \<or> c = CHR ''c'' \<or> c = CHR ''s'' \<or> c = CHR ''p''"

text \<open>
  The three readers run their body for the current character and go on while the next one is of the same
  class.  They are called on a character of that class, so the empty case is not reached.
\<close>

fun read_precision :: "string \<Rightarrow> print_fmt_spec \<Rightarrow> nat \<times> print_fmt_spec" where
  "read_precision [] spec = (0, spec)"
| "read_precision (c # fmt) spec =
     (let spec = spec\<lparr>sp_precision := sp_precision spec * 10 + (of_char c - 48)\<rparr>
      in if fmt \<noteq> [] \<and> isdigit (hd fmt)
         then (let (n, spec) = read_precision fmt spec in (Suc n, spec)) else (1, spec))"

fun read_length :: "string \<Rightarrow> print_fmt_spec \<Rightarrow> nat \<times> print_fmt_spec" where
  "read_length [] spec = (0, spec)"
| "read_length (c # fmt) spec =
     (let spec = (if c = CHR ''l'' then
                    (if sp_length spec = UNKNOWN_LENGTH then spec\<lparr>sp_length := LONG_LENGTH\<rparr>
                     else if sp_length spec = LONG_LENGTH then spec\<lparr>sp_length := LONG_LONG_LENGTH\<rparr>
                     else spec\<lparr>sp_length := ERROR_LENGTH\<rparr>) else spec)
      in if fmt \<noteq> [] \<and> is_length (hd fmt)
         then (let (n, spec) = read_length fmt spec in (Suc n, spec)) else (1, spec))"

definition type_step :: "char \<Rightarrow> print_fmt_spec \<Rightarrow> print_fmt_spec" where
  "type_step c spec =
     (if sp_type spec \<noteq> UNKNOWN_TYPE then spec\<lparr>sp_type := ERROR_TYPE\<rparr>
      else if c = CHR ''d'' \<or> c = CHR ''i'' then spec\<lparr>sp_type := SIGNED_INT_TYPE, sp_base := 10\<rparr>
      else if c = CHR ''u'' then spec\<lparr>sp_type := UNSIGNED_INT_DEC_TYPE, sp_base := 10\<rparr>
      else if c = CHR ''x'' then spec\<lparr>sp_type := UNSIGNED_INT_HEX_TYPE, sp_base := 16\<rparr>
      else if c = CHR ''o'' then spec\<lparr>sp_type := UNSIGNED_INT_OCT_TYPE, sp_base := 8\<rparr>
      else if c = CHR ''c'' then spec\<lparr>sp_type := CHAR_TYPE, sp_base := 0\<rparr>
      else if c = CHR ''s'' then spec\<lparr>sp_type := STRING_TYPE, sp_base := 0\<rparr>
      else if c = CHR ''p'' then spec\<lparr>sp_type := POINTER_TYPE, sp_base := 16\<rparr>
      else spec)"

fun read_type :: "string \<Rightarrow> print_fmt_spec \<Rightarrow> nat \<times> print_fmt_spec" where
  "read_type [] spec = (0, spec)"
| "read_type (c # fmt) spec =
     (let spec = type_step c spec
      in if fmt \<noteq> [] \<and> is_type (hd fmt)
         then (let (n, spec) = read_type fmt spec in (Suc n, spec)) else (1, spec))"

lemma read_precision_pos: "0 < fst (read_precision (c # fmt) spec)"
  by (auto simp: Let_def split: prod.splits)

lemma read_length_pos: "0 < fst (read_length (c # fmt) spec)"
  by (auto simp: Let_def split: prod.splits)

definition decode_error :: "print_fmt_spec \<Rightarrow> nat \<times> print_fmt_spec" where
  "decode_error spec = (0, spec\<lparr>sp_length := ERROR_LENGTH, sp_type := ERROR_TYPE\<rparr>)"

text \<open>The loop of \<open>format_decode\<close>; at the NUL every branch but the error ones fails.\<close>

function format_decode_loop :: "string \<Rightarrow> bool \<Rightarrow> bool \<Rightarrow> nat \<Rightarrow> print_fmt_spec \<Rightarrow> nat \<times> print_fmt_spec" where
  "format_decode_loop [] found_dot first_perc i spec = decode_error spec"
| "format_decode_loop (c # fmt) found_dot first_perc i spec =
     (if c = CHR ''%'' then
        (if \<not> first_perc then format_decode_loop fmt found_dot True (i + 1) spec
         else (i + 1, spec\<lparr>sp_type := LITERAL_TYPE\<rparr>))
      else if \<not> found_dot \<and> c = CHR ''.'' then format_decode_loop fmt True first_perc (i + 1) spec
      else if found_dot \<and> isdigit c then
        (let r = read_precision (c # fmt) spec
         in format_decode_loop (drop (fst r) (c # fmt)) False first_perc (i + fst r) (snd r))
      else if found_dot \<and> \<not> isdigit c then decode_error spec
      else if \<not> found_dot \<and> is_length c then
        (let r = read_length (c # fmt) spec
         in format_decode_loop (drop (fst r) (c # fmt)) found_dot first_perc (i + fst r) (snd r))
      else if \<not> found_dot \<and> is_type c then
        (let r = read_type (c # fmt) spec in (i + fst r, snd r))
      else decode_error spec)"
  by pat_completeness auto
termination
  by (relation "measure (\<lambda>(fmt, _). length fmt)")
     (auto simp del: read_precision.simps read_length.simps simp: read_precision_pos read_length_pos intro: diff_less)

definition format_decode :: "string \<Rightarrow> print_fmt_spec \<Rightarrow> nat \<times> print_fmt_spec" where
  "format_decode fmt spec = format_decode_loop fmt False False 0 spec"

text \<open>\<open>memcpy\<close> from one object to a disjoint one, as \<open>memcpy_correct\<close> has it.\<close>

definition copy_from :: "bmem \<Rightarrow> addr \<Rightarrow> u64 \<Rightarrow> bmem \<Rightarrow> addr \<Rightarrow> bmem" where
  "copy_from obj src n m dst = (\<lambda>a. if a - dst < n then obj (src + (a - dst)) else m a)"

definition str_bytes :: "string \<Rightarrow> bmem" where
  "str_bytes s = (\<lambda>a. if unat a < length s then s ! unat a else NUL)"

definition MIN_u64 :: "u64 \<Rightarrow> u64 \<Rightarrow> u64" where "MIN_u64 a b = (if a < b then a else b)"

definition strlen_kres :: "bmem \<Rightarrow> addr \<Rightarrow> u64 kres" where
  "strlen_kres m p = (case strlen m p of None \<Rightarrow> Inl (Undefined ''strlen'') | Some n \<Rightarrow> Inr n)"

text \<open>The value of an integer argument of the given length; another length leaves \<open>num\<close> uninitialised.\<close>

definition unsigned_arg :: "printf_length \<Rightarrow> u64 \<Rightarrow> u64 kres" where
  "unsigned_arg len w =
     (if len = UNKNOWN_LENGTH then Inr (ucast (ucast w :: u32))
      else if len = LONG_LENGTH then Inr w
      else if len = LONG_LONG_LENGTH then Inr w
      else Inl (Undefined ''process_format''))"

definition signed_arg :: "printf_length \<Rightarrow> u64 \<Rightarrow> u64 kres" where
  "signed_arg len w =
     (if len = UNKNOWN_LENGTH then Inr (scast (ucast w :: s32))
      else if len = LONG_LENGTH then Inr w
      else if len = LONG_LONG_LENGTH then Inr w
      else Inl (Undefined ''process_format''))"

text \<open>The first half of \<open>process_format\<close> fills \<open>tmp_buf\<close>: the result is the array, \<open>tmp_buf_idx\<close>, \<open>is_negative\<close> and the arguments left.\<close>

definition fill_tmp_buf :: "u64 \<Rightarrow> print_fmt_spec \<Rightarrow> va_slot list \<Rightarrow> (bmem \<times> u64 \<times> bool \<times> va_slot list) kres" where
  "fill_tmp_buf buf_size spec args =
     (let tmp_buf = (\<lambda>_. NUL)
      in if sp_base spec = 0 then
           (if sp_type spec = CHAR_TYPE then
              kbind (va_arg_int args) (\<lambda>(w, args). Inr (tmp_buf(0 := char_of (unat w)), 1, False, args))
            else if sp_type spec = STRING_TYPE then
              kbind (va_arg_str args) (\<lambda>(va_arr, args).
                let va_arr_size = of_nat (length va_arr);
                    tmp_buf_idx = MIN_u64 1024 va_arr_size
                in Inr (copy_from (str_bytes va_arr) 0 tmp_buf_idx tmp_buf 0, tmp_buf_idx, False, args))
            else Inr (tmp_buf(0 := CHR ''%''), 1, False, args))
         else if sp_type spec = UNSIGNED_INT_DEC_TYPE \<or> sp_type spec = UNSIGNED_INT_OCT_TYPE \<or> sp_type spec = UNSIGNED_INT_HEX_TYPE then
           kbind (va_arg_int args) (\<lambda>(w, args).
           kbind (unsigned_arg (sp_length spec) w) (\<lambda>num.
             let tmp_buf = ulltoa tmp_buf num 0 (unat (sp_base spec))
             in kbind (strlen_kres tmp_buf 0) (\<lambda>tmp_buf_idx. Inr (tmp_buf, tmp_buf_idx, False, args))))
         else if sp_type spec = SIGNED_INT_TYPE then
           kbind (va_arg_int args) (\<lambda>(w, args).
           kbind (signed_arg (sp_length spec) w) (\<lambda>num.
             let tmp_buf = lltoa tmp_buf num 0 (uint (sp_base spec))
             in kbind (strlen_kres tmp_buf 0) (\<lambda>tmp_buf_idx. Inr (tmp_buf, tmp_buf_idx, sint num < 0, args))))
         else if sp_type spec = POINTER_TYPE then
           kbind (va_arg_int args) (\<lambda>(num, args).
             let tmp_buf = tmp_buf(0 := CHR ''0'', 1 := CHR ''x'');
                 tmp_buf = ulltoa tmp_buf num 2 (unat (sp_base spec))
             in kbind (strlen_kres tmp_buf 0) (\<lambda>tmp_buf_idx. Inr (tmp_buf, tmp_buf_idx, False, args)))
         else
           (let err_msg_len = of_nat (length PRINTK_PROC_ERROR_MSG)
            in Inr (copy_from (str_bytes PRINTK_PROC_ERROR_MSG) 0 (MIN_u64 buf_size (err_msg_len + 1)) tmp_buf 0, err_msg_len, False, args)))"

text \<open>The label \<open>case UNSIGNED_INT_DEC_TYPE || \<dots> || SIGNED_INT_TYPE\<close> is one constant.\<close>

definition INT_TYPES_LABEL :: int where
  "INT_TYPES_LABEL =
     (if printf_type_num UNSIGNED_INT_DEC_TYPE \<noteq> 0 \<or> printf_type_num UNSIGNED_INT_HEX_TYPE \<noteq> 0
         \<or> printf_type_num UNSIGNED_INT_OCT_TYPE \<noteq> 0 \<or> printf_type_num SIGNED_INT_TYPE \<noteq> 0 then 1 else 0)"

fun write_zeros :: "nat \<Rightarrow> bmem \<Rightarrow> addr \<Rightarrow> bmem \<times> addr" where
  "write_zeros 0 m buf = (m, buf)"
| "write_zeros (Suc n) m buf = write_zeros n (m(buf := CHR ''0'')) (buf + 1)"

text \<open>The \<open>switch\<close>: the result is the memory, the advanced \<open>buf\<close>, \<open>tmp_buf\<close> and \<open>tmp_buf_idx\<close>.\<close>

definition apply_precision :: "print_fmt_spec \<Rightarrow> bool \<Rightarrow> bmem \<Rightarrow> addr \<Rightarrow> bmem \<Rightarrow> u64 \<Rightarrow> bmem \<times> addr \<times> bmem \<times> u64" where
  "apply_precision spec is_negative m buf tmp_buf tmp_buf_idx =
     (let precision = ucast (sp_precision spec)
      in if sp_precision spec = 0 then (m, buf, tmp_buf, tmp_buf_idx)
         else if printf_type_num (sp_type spec) = INT_TYPES_LABEL then
           (if precision > tmp_buf_idx then
              (let left_pointer = precision - tmp_buf_idx;
                   (m, buf, left_pointer, tmp_buf) =
                     (if is_negative then (m(buf := CHR ''-''), buf + 1, left_pointer - 1, tmp_buf(0 := CHR ''0''))
                      else (m, buf, left_pointer, tmp_buf));
                   (m, buf) = write_zeros (unat left_pointer) m buf
               in (m, buf, tmp_buf, precision))
            else (m, buf, tmp_buf, tmp_buf_idx))
         else if sp_type spec = STRING_TYPE then
           (if precision < tmp_buf_idx then (m, buf, fst (memset tmp_buf precision NUL precision), precision)
            else (m, buf, tmp_buf, tmp_buf_idx))
         else (m, buf, tmp_buf, tmp_buf_idx))"

definition process_format :: "bmem \<Rightarrow> addr \<Rightarrow> u64 \<Rightarrow> print_fmt_spec \<Rightarrow> va_slot list \<Rightarrow> (bmem \<times> u64 \<times> va_slot list) kres" where
  "process_format m buf buf_size spec args =
     kbind (fill_tmp_buf buf_size spec args) (\<lambda>(tmp_buf, tmp_buf_idx, is_negative, args).
       let (m, buf, tmp_buf, tmp_buf_idx) = apply_precision spec is_negative m buf tmp_buf tmp_buf_idx
       in Inr (copy_from tmp_buf 0 (MIN_u64 buf_size tmp_buf_idx) m buf, tmp_buf_idx, args))"

definition empty_spec :: print_fmt_spec where
  "empty_spec = \<lparr>sp_type = UNKNOWN_TYPE, sp_length = UNKNOWN_LENGTH, sp_base = 0, sp_precision = 0\<rparr>"

text \<open>The loop of \<open>vsnprintf\<close>; \<open>i += read\<close> and the \<open>i++\<close> of the loop skip \<open>read + 1\<close> characters.\<close>

function vsnprintf_loop :: "string \<Rightarrow> bmem \<Rightarrow> addr \<Rightarrow> u64 \<Rightarrow> u64 \<Rightarrow> va_slot list \<Rightarrow> (bmem \<times> u64) kres" where
  "vsnprintf_loop [] m buf buf_size read_chars args = Inr (m, read_chars)"
| "vsnprintf_loop (c # fmt) m buf buf_size read_chars args =
     (if c = CHR ''%'' then
        (let (n, spec) = format_decode (c # fmt) empty_spec
         in if sp_type spec \<noteq> ERROR_TYPE \<and> sp_length spec \<noteq> ERROR_LENGTH then
              kbind (process_format m (buf + read_chars) (buf_size - read_chars) spec args) (\<lambda>(m, k, args).
                let read_chars = read_chars + k
                in if read_chars = buf_size then Inr (m, read_chars)
                   else vsnprintf_loop (drop (n - 1) fmt) m buf buf_size read_chars args)
            else
              (let err_msg_len = of_nat (length PRINTK_DECD_ERROR_MSG)
               in Inr (copy_from (str_bytes PRINTK_DECD_ERROR_MSG) 0 (MIN_u64 (buf_size - read_chars) (err_msg_len + 1)) m (buf + read_chars),
                       read_chars + err_msg_len)))
      else if c = CHR 0x09 then
        vsnprintf_loop fmt
          (m(buf + read_chars := CHR '' '', buf + (read_chars + 1) := CHR '' '', buf + (read_chars + 2) := CHR '' '', buf + (read_chars + 3) := CHR '' ''))
          buf buf_size (read_chars + 4) args
      else vsnprintf_loop fmt (m(buf + read_chars := c)) buf buf_size (read_chars + 1) args)"
  by pat_completeness auto
termination by (relation "measure (\<lambda>(fmt, _). length fmt)") auto

definition vsnprintf :: "bmem \<Rightarrow> addr \<Rightarrow> u64 \<Rightarrow> string \<Rightarrow> va_slot list \<Rightarrow> (bmem \<times> u64) kres" where
  "vsnprintf m buf buf_size fmt args = vsnprintf_loop (c_str fmt) m buf buf_size 0 args"

subsection \<open>Decoding\<close>

lemma isdigit_digit_char: "d < 10 \<Longrightarrow> isdigit (digit_char (int d))"
proof -
  assume "d < 10"
  then have "d \<in> set [0..<10]" by simp
  moreover have "\<forall>d\<in>set [0..<10]. isdigit (digit_char (int d))" by code_simp
  ultimately show ?thesis by blast
qed

lemma of_char_digit_u8: "d < 10 \<Longrightarrow> of_char (digit_char (int d)) - 48 = (of_nat d :: u8)"
proof -
  assume d: "d < 10"
  have "(of_char (digit_char (int d)) :: u8) = of_nat (of_char (digit_char (int d)))" by (simp add: of_nat_of_char)
  also have "\<dots> = of_nat (d + 48)" using d by (simp add: of_char_digit)
  finally show ?thesis by simp
qed

lemma read_precision_digits:
  "ds \<noteq> [] \<Longrightarrow> \<forall>d\<in>set ds. d < 10 \<Longrightarrow> rest = [] \<or> \<not> isdigit (hd rest) \<Longrightarrow>
    read_precision (map (\<lambda>d. digit_char (int d)) ds @ rest) spec
    = (length ds, spec\<lparr>sp_precision := foldl (\<lambda>p d. p * 10 + of_nat d) (sp_precision spec) ds\<rparr>)"
proof (induction ds arbitrary: spec)
  case (Cons d ds)
  show ?case
  proof (cases "ds = []")
    case True
    then show ?thesis using Cons.prems by (auto simp: of_char_digit_u8)
  next
    case False
    then have "hd (map (\<lambda>d. digit_char (int d)) ds @ rest) = digit_char (int (hd ds))" by (cases ds) auto
    then have "isdigit (hd (map (\<lambda>d. digit_char (int d)) ds @ rest))"
      using False Cons.prems(2) isdigit_digit_char [of "hd ds"] by (cases ds) auto
    then show ?thesis using False Cons by (auto simp: of_char_digit_u8 Let_def)
  qed
qed simp

text \<open>The digits of a number below 256 as a list of numbers.\<close>

lemma show_nat_digits: "\<exists>ds. ds \<noteq> [] \<and> (\<forall>d\<in>set ds. d < 10) \<and> show_nat 10 n = map (\<lambda>d. digit_char (int d)) ds
   \<and> foldl (\<lambda>p d. p * 10 + of_nat d) 0 ds = (of_nat n :: u8)"
proof (induction n rule: less_induct)
  case (less n)
  show ?case
  proof (cases "n < 10")
    case True
    then show ?thesis by (intro exI [of _ "[n]"]) (simp add: show_nat.simps)
  next
    case False
    then obtain ds where ds: "ds \<noteq> []" "\<forall>d\<in>set ds. d < 10" "show_nat 10 (n div 10) = map (\<lambda>d. digit_char (int d)) ds"
       "foldl (\<lambda>p d. p * 10 + of_nat d) 0 ds = (of_nat (n div 10) :: u8)"
      using less [of "n div 10"] by auto
    have "(of_nat (n div 10) * 10 + of_nat (n mod 10) :: u8) = of_nat (n div 10 * 10 + n mod 10)"
      by (simp only: of_nat_add of_nat_mult of_nat_numeral)
    then have "foldl (\<lambda>p d. p * 10 + of_nat d) 0 (ds @ [n mod 10]) = (of_nat n :: u8)"
      using ds(4) by (simp only: foldl_append foldl.simps div_mult_mod_eq)
    then show ?thesis
      using ds False by (intro exI [of _ "ds @ [n mod 10]"]) (auto simp: show_nat.simps [of 10 n])
  qed
qed

text \<open>The text of a format specification, of the form \<open>%[.precision][length]type\<close> of the file's comment.\<close>

definition length_str :: "printf_length \<Rightarrow> string" where
  "length_str l = (case l of UNKNOWN_LENGTH \<Rightarrow> '''' | LONG_LENGTH \<Rightarrow> ''l'' | LONG_LONG_LENGTH \<Rightarrow> ''ll'' | ERROR_LENGTH \<Rightarrow> ''lll'')"

text \<open>The conversions: the letter, the type and the base it stands for.\<close>

definition conversions :: "(char \<times> printf_type \<times> u8) list" where
  "conversions = [(CHR ''d'', SIGNED_INT_TYPE, 10), (CHR ''i'', SIGNED_INT_TYPE, 10), (CHR ''u'', UNSIGNED_INT_DEC_TYPE, 10),
     (CHR ''x'', UNSIGNED_INT_HEX_TYPE, 16), (CHR ''o'', UNSIGNED_INT_OCT_TYPE, 8), (CHR ''c'', CHAR_TYPE, 0),
     (CHR ''s'', STRING_TYPE, 0), (CHR ''p'', POINTER_TYPE, 16)]"

lemma is_type_conversions: "is_type c \<longleftrightarrow> (\<exists>t b. (c, t, b) \<in> set conversions)"
  by (auto simp: is_type_def conversions_def)

lemma type_step_conversions:
  "(c, t, b) \<in> set conversions \<Longrightarrow> sp_type spec = UNKNOWN_TYPE \<Longrightarrow> type_step c spec = spec\<lparr>sp_type := t, sp_base := b\<rparr>"
  by (auto simp: conversions_def type_step_def)

lemma conversions_type: "(c, t, b) \<in> set conversions \<Longrightarrow> t \<noteq> ERROR_TYPE \<and> t \<noteq> UNKNOWN_TYPE"
  by (auto simp: conversions_def)

lemma type_chars: "is_type c \<Longrightarrow> c \<noteq> CHR ''%'' \<and> c \<noteq> CHR ''.'' \<and> \<not> is_length c \<and> \<not> isdigit c"
  unfolding is_type_def by (elim disjE) (simp_all add: is_length_def isdigit_def)

lemma read_type_known: "sp_type spec \<noteq> UNKNOWN_TYPE \<Longrightarrow> sp_type (snd (read_type (c # fmt) spec)) = ERROR_TYPE"
proof (induction fmt arbitrary: c spec)
  case (Cons a fmt)
  have "sp_type (type_step c spec) = ERROR_TYPE" using Cons.prems by (simp add: type_step_def)
  then show ?case
    using Cons.IH [of "type_step c spec" a] by (simp add: Let_def case_prod_beta read_type.simps(2) [of c] del: read_type.simps(2))
qed (simp add: type_step_def)

lemma decode_type:
  assumes "(c, t, b) \<in> set conversions" "rest = [] \<or> \<not> is_type (hd rest)" "sp_type spec = UNKNOWN_TYPE"
  shows "format_decode_loop (c # rest) False True i spec = (i + 1, spec\<lparr>sp_type := t, sp_base := b\<rparr>)"
proof -
  have c: "is_type c" using assms(1) is_type_conversions by blast
  show ?thesis using assms(2) c type_chars [OF c] type_step_conversions [OF assms(1,3)] by auto
qed

lemma decode_two_types:
  assumes "is_type c" "is_type c'" "sp_type spec = UNKNOWN_TYPE"
  shows "sp_type (snd (format_decode_loop (c # c' # rest) False True i spec)) = ERROR_TYPE"
proof -
  obtain t b where t: "(c, t, b) \<in> set conversions" using assms(1) is_type_conversions by blast
  then have "sp_type (type_step c spec) \<noteq> UNKNOWN_TYPE"
    using type_step_conversions [OF t assms(3)] conversions_type [OF t] by simp
  then have "sp_type (snd (read_type (c # c' # rest) spec)) = ERROR_TYPE"
    using read_type_known [of "type_step c spec" c' rest] assms(2) by (simp add: Let_def case_prod_beta read_type.simps(2) [of c] del: read_type.simps(2))
  then show ?thesis using assms(1) type_chars [OF assms(1)] by (simp add: Let_def del: read_type.simps)
qed

lemma decode_length:
  assumes "is_type c" "sp_length spec = UNKNOWN_LENGTH" "l \<noteq> ERROR_LENGTH"
  shows "format_decode_loop (length_str l @ c # rest) False True i spec
    = format_decode_loop (c # rest) False True (i + length (length_str l)) (spec\<lparr>sp_length := l\<rparr>)"
proof -
  have nl: "\<not> is_length c" using type_chars [OF assms(1)] by blast
  have il: "is_length CHR ''l''" "\<not> isdigit CHR ''l''" by (simp_all add: is_length_def isdigit_def)
  have same: "spec\<lparr>sp_length := UNKNOWN_LENGTH\<rparr> = spec" using assms(2) by (cases spec) simp
  note step = format_decode_loop.simps(2) [of "CHR ''l''"]
  show ?thesis
  proof (cases l)
    case UNKNOWN_LENGTH
    then show ?thesis by (simp only: same length_str_def printf_length.case append_Nil list.size add_0_right)
  qed (use assms(2,3) nl il in \<open>simp_all add: length_str_def step del: format_decode_loop.simps\<close>)
qed

definition fmt_text :: "nat option \<Rightarrow> printf_length \<Rightarrow> char \<Rightarrow> string" where
  "fmt_text p l c = CHR ''%'' # (case p of None \<Rightarrow> '''' | Some n \<Rightarrow> CHR ''.'' # show_nat 10 n) @ length_str l @ [c]"

lemma hd_length_str: "is_type c \<Longrightarrow> \<not> isdigit (hd (length_str l @ c # rest))"
  using type_chars [of c] by (cases l) (auto simp: length_str_def isdigit_def)

text \<open>Decoding up to the type letter.\<close>

definition prefix_spec :: "nat option \<Rightarrow> printf_length \<Rightarrow> print_fmt_spec" where
  "prefix_spec p l = empty_spec\<lparr>sp_length := l, sp_precision := (case p of None \<Rightarrow> 0 | Some n \<Rightarrow> of_nat n)\<rparr>"

lemma decode_prefix:
  assumes "is_type c" "l \<noteq> ERROR_LENGTH"
  shows "format_decode (fmt_text p l c @ rest) empty_spec
    = format_decode_loop (c # rest) False True (length (fmt_text p l c) - 1) (prefix_spec p l)"
proof (cases p)
  case None
  have "format_decode (fmt_text p l c @ rest) empty_spec = format_decode_loop (length_str l @ c # rest) False True 1 empty_spec"
    using None by (simp add: format_decode_def fmt_text_def)
  also have "\<dots> = format_decode_loop (c # rest) False True (1 + length (length_str l)) (empty_spec\<lparr>sp_length := l\<rparr>)"
    by (rule decode_length [OF assms(1) _ assms(2)]) (simp add: empty_spec_def)
  finally show ?thesis using None by (simp add: fmt_text_def prefix_spec_def empty_spec_def del: format_decode_loop.simps)
next
  case (Some n)
  obtain ds where ds: "ds \<noteq> []" "\<forall>d\<in>set ds. d < 10" "show_nat 10 n = map (\<lambda>d. digit_char (int d)) ds"
     "foldl (\<lambda>p d. p * 10 + of_nat d) 0 ds = (of_nat n :: u8)" using show_nat_digits by blast
  let ?t = "length_str l @ c # rest"
  obtain x xs where x: "show_nat 10 n = x # xs" "isdigit x"
    using ds isdigit_digit_char by (cases ds) auto
  have nx: "x \<noteq> CHR ''%'' \<and> x \<noteq> CHR ''.''" using x(2) by (auto simp: isdigit_def)
  have rp: "read_precision (x # xs @ ?t) empty_spec = (length (show_nat 10 n), empty_spec\<lparr>sp_precision := of_nat n\<rparr>)"
  proof -
    have eq: "x # xs @ ?t = map (\<lambda>d. digit_char (int d)) ds @ ?t" using x(1) ds(3) by simp
    show ?thesis unfolding eq using read_precision_digits [OF ds(1,2), of ?t empty_spec] hd_length_str [OF assms(1)] ds(3,4)
      by (simp add: empty_spec_def del: read_precision.simps)
  qed
  have "format_decode (fmt_text p l c @ rest) empty_spec = format_decode_loop (x # xs @ ?t) True True 2 empty_spec"
    using Some x by (simp add: format_decode_def fmt_text_def del: format_decode_loop.simps(2) add: format_decode_loop.simps(2) [of "CHR ''%''"] format_decode_loop.simps(2) [of "CHR ''.''"] numeral_2_eq_2)
  also have "\<dots> = format_decode_loop ?t False True (2 + length (show_nat 10 n)) (empty_spec\<lparr>sp_precision := of_nat n\<rparr>)"
    using x nx rp by (subst format_decode_loop.simps(2)) (simp add: Let_def del: read_precision.simps)
  also have "\<dots> = format_decode_loop (c # rest) False True (2 + length (show_nat 10 n) + length (length_str l)) (empty_spec\<lparr>sp_precision := of_nat n, sp_length := l\<rparr>)"
    by (rule decode_length [OF assms(1) _ assms(2)]) (simp add: empty_spec_def)
  finally show ?thesis using Some by (simp add: fmt_text_def prefix_spec_def empty_spec_def del: format_decode_loop.simps)
qed

lemma decode_fmt_text:
  assumes "(c, t, b) \<in> set conversions" "rest = [] \<or> \<not> is_type (hd rest)" "l \<noteq> ERROR_LENGTH"
  shows "format_decode (fmt_text p l c @ rest) empty_spec = (length (fmt_text p l c), (prefix_spec p l)\<lparr>sp_type := t, sp_base := b\<rparr>)"
proof -
  have c: "is_type c" using assms(1) is_type_conversions by blast
  have "sp_type (prefix_spec p l) = UNKNOWN_TYPE" by (simp add: prefix_spec_def empty_spec_def)
  then have "format_decode (fmt_text p l c @ rest) empty_spec
      = (length (fmt_text p l c) - 1 + 1, (prefix_spec p l)\<lparr>sp_type := t, sp_base := b\<rparr>)"
    unfolding decode_prefix [OF c assms(3)] by (rule decode_type [OF assms(1,2)])
  then show ?thesis by (simp add: fmt_text_def)
qed

lemma decode_adjacent:
  assumes "is_type c" "is_type c'" "l \<noteq> ERROR_LENGTH"
  shows "sp_type (snd (format_decode (fmt_text p l c @ c' # rest) empty_spec)) = ERROR_TYPE"
  unfolding decode_prefix [OF assms(1,3)]
  by (rule decode_two_types [OF assms(1,2)]) (simp add: prefix_spec_def empty_spec_def)

subsection \<open>Output\<close>

text \<open>Memory with a string stored at \<open>p\<close>.\<close>

definition blit :: "bmem \<Rightarrow> addr \<Rightarrow> string \<Rightarrow> bmem" where
  "blit m p s = (\<lambda>a. if unat (a - p) < length s then s ! unat (a - p) else m a)"

lemma blit_Cons:
  assumes "length s < 2 ^ 64"
  shows "blit (m(p := c)) (p + 1) s = blit m p (c # s)"
proof
  fix a
  show "blit (m(p := c)) (p + 1) s a = blit m p (c # s) a"
  proof (cases "a = p")
    case True
    have "unat (p - (p + 1)) = 2 ^ 64 - 1" using unat_minus_wrap [of 0 1] by simp
    then show ?thesis using True assms by (simp add: blit_def)
  next
    case False
    then have g: "0 < unat (a - p)" by (simp add: unat_gt_0)
    have "unat (a - (p + 1)) = unat (a - p) - 1"
      using unat_minus_wrap [of "a - p" 1] g by (simp add: diff_diff_eq [symmetric])
    then show ?thesis using False g by (auto simp: blit_def nth_Cons')
  qed
qed


text \<open>Literal text: no conversion, no tab, no NUL.\<close>

definition plain :: "string \<Rightarrow> bool" where "plain s \<longleftrightarrow> (\<forall>c\<in>set s. c \<noteq> CHR ''%'' \<and> c \<noteq> CHR 0x09 \<and> c \<noteq> NUL)"

lemma c_str_id: "NUL \<notin> set s \<Longrightarrow> c_str s = s"
  by (auto simp: c_str_def takeWhile_eq_all_conv)

lemma plain_no_NUL: "plain s \<Longrightarrow> NUL \<notin> set s"
  by (auto simp: plain_def)

lemma fmt_text_no_NUL:
  assumes "is_type c"
  shows "NUL \<notin> set (fmt_text p l c)"
proof -
  have "c \<noteq> NUL" using assms by (auto simp: is_type_def)
  moreover have "NUL \<notin> set (length_str l)" by (cases l) (simp_all add: length_str_def)
  ultimately show ?thesis using show_nat_no_NUL [of 10] by (auto simp: fmt_text_def split: option.splits)
qed

lemma vsnprintf_loop_prefix:
  "plain s \<Longrightarrow> length s < 2 ^ 64 \<Longrightarrow>
    vsnprintf_loop (s @ fmt) m buf bs r args = vsnprintf_loop fmt (blit m (buf + r) s) buf bs (r + of_nat (length s)) args"
proof (induction s arbitrary: m r)
  case (Cons c s)
  have "vsnprintf_loop ((c # s) @ fmt) m buf bs r args = vsnprintf_loop (s @ fmt) (m(buf + r := c)) buf bs (r + 1) args"
    using Cons.prems by (simp add: plain_def)
  also have "\<dots> = vsnprintf_loop fmt (blit (m(buf + r := c)) (buf + r + 1) s) buf bs (r + 1 + of_nat (length s)) args"
    using Cons by (simp add: plain_def add.assoc)
  finally show ?case using blit_Cons [of s m "buf + r" c] Cons.prems(2) by (simp add: add.assoc)
qed (simp add: blit_def)

lemma vsnprintf_loop_plain:
  "plain s \<Longrightarrow> length s < 2 ^ 64 \<Longrightarrow> vsnprintf_loop s m buf bs r args = Inr (blit m (buf + r) s, r + of_nat (length s))"
  using vsnprintf_loop_prefix [of s "[]"] by simp








lemma vsnprintf_adjacent:
  assumes "plain pre" "length pre < 2 ^ 64" "is_type c" "is_type c'" "l \<noteq> ERROR_LENGTH"
  shows "vsnprintf m buf bs (pre @ fmt_text p l c @ c' # rest) args
    = Inr (copy_from (str_bytes PRINTK_DECD_ERROR_MSG) 0 (MIN_u64 (bs - of_nat (length pre)) 22) (blit m buf pre) (buf + of_nat (length pre)),
           of_nat (length pre) + 21)"
proof -
  let ?f = "fmt_text p l c @ c' # c_str rest"
  have nul: "NUL \<notin> set (pre @ fmt_text p l c @ [c'])"
    using plain_no_NUL [OF assms(1)] fmt_text_no_NUL [OF assms(3)] assms(4) by (auto simp: is_type_def)
  then have "c_str ((pre @ fmt_text p l c @ [c']) @ rest) = (pre @ fmt_text p l c @ [c']) @ c_str rest"
    unfolding c_str_def by (intro takeWhile_append2) auto
  then have "vsnprintf m buf bs (pre @ fmt_text p l c @ c' # rest) args = vsnprintf_loop (pre @ ?f) m buf bs 0 args"
    by (simp add: vsnprintf_def)
  also have "\<dots> = vsnprintf_loop ?f (blit m buf pre) buf bs (of_nat (length pre)) args"
    using vsnprintf_loop_prefix [OF assms(1,2), of ?f m buf bs 0 args] by simp
  finally have eq: "vsnprintf m buf bs (pre @ fmt_text p l c @ c' # rest) args
    = vsnprintf_loop ?f (blit m buf pre) buf bs (of_nat (length pre)) args" .
  obtain cs where cs: "?f = CHR ''%'' # cs" by (simp add: fmt_text_def)
  have "sp_type (snd (format_decode (CHR ''%'' # cs) empty_spec)) = ERROR_TYPE"
    using decode_adjacent [OF assms(3-5), of p "c_str rest"] cs by simp
  then show ?thesis unfolding eq cs by (simp add: case_prod_beta Let_def PRINTK_DECD_ERROR_MSG_def)
qed

subsection \<open>Properties\<close>

text \<open>C24: \<open>format_decode\<close> reads back every specification \<open>%[.precision][length]type\<close>: it consumes exactly its
  characters and finds the type and base that the table of conversions has for the letter, the length, and the
  precision modulo 256, unless a type letter follows.\<close>

theorem format_decode_roundtrip:
  assumes "(c, t, b) \<in> set conversions" "rest = [] \<or> \<not> is_type (hd rest)" "l \<noteq> ERROR_LENGTH"
  shows "format_decode (fmt_text p l c @ rest) empty_spec
    = (length (fmt_text p l c),
       \<lparr>sp_type = t, sp_length = l, sp_base = b, sp_precision = (case p of None \<Rightarrow> 0 | Some n \<Rightarrow> of_nat n)\<rparr>)"
  using decode_fmt_text [OF assms, of p] by (simp add: prefix_spec_def empty_spec_def)

theorem format_decode_roundtrip_witness:
  "format_decode ''%.16llx - 0x'' empty_spec
    = (7, \<lparr>sp_type = UNSIGNED_INT_HEX_TYPE, sp_length = LONG_LONG_LENGTH, sp_base = 16, sp_precision = 16\<rparr>)"
proof -
  have "fmt_text (Some 16) LONG_LONG_LENGTH (CHR ''x'') = ''%.16llx''" by code_simp
  moreover have "(CHR ''x'', UNSIGNED_INT_HEX_TYPE, 16) \<in> set conversions" "\<not> is_type (hd '' - 0x'')"
    by (simp_all add: conversions_def is_type_def)
  ultimately show ?thesis
    using format_decode_roundtrip [of "CHR ''x''" UNSIGNED_INT_HEX_TYPE 16 "'' - 0x''" LONG_LONG_LENGTH "Some 16"] by simp
qed



text \<open>C28: literal text is never truncated, although the comments of \<open>vsnprintf\<close> promise to keep to \<open>buf_size\<close>: a
  format without conversions and tabs is copied as a whole, whatever the size, so that the characters from
  \<open>buf_size\<close> on are stored behind the end of the buffer.\<close>

theorem vsnprintf_literal_unbounded:
  assumes "plain fmt" "length fmt < 2 ^ 64"
  shows "vsnprintf m buf buf_size fmt args = Inr (blit m buf fmt, of_nat (length fmt))
    \<and> (unat buf_size \<le> i \<and> i < length fmt \<longrightarrow> blit m buf fmt (buf + of_nat i) = fmt ! i)"
proof -
  have "unat (of_nat i :: u64) = i" if "i < length fmt" using that assms(2) by (intro unat_of_nat_small) simp
  then show ?thesis
    using vsnprintf_loop_plain [OF assms, of m buf buf_size 0 args]
    by (simp add: vsnprintf_def c_str_id plain_no_NUL [OF assms(1)] blit_def)
qed

theorem vsnprintf_literal_unbounded_witness:
  "vsnprintf (\<lambda>_. NUL) 4096 2 ''overflow'' [] = Inr (blit (\<lambda>_. NUL) 4096 ''overflow'', 8)
    \<and> blit (\<lambda>_. NUL) 4096 ''overflow'' (4096 + of_nat 7) = CHR ''w''"
  using vsnprintf_literal_unbounded [of "''overflow''" "\<lambda>_. NUL" 4096 2 "[]" 7] by (simp add: plain_def)

text \<open>C29: a type letter right behind a conversion is taken for a second type: whatever the letters, the precision, the
  length, the text around them and the arguments, the output ends there with the message of a decoding error instead
  of the value and the letter.\<close>

theorem vsnprintf_adjacent_letter:
  assumes "plain pre" "length pre < 2 ^ 64" "is_type c" "is_type c'" "l \<noteq> ERROR_LENGTH"
  shows "vsnprintf m buf bs (pre @ fmt_text p l c @ c' # rest) args
    = Inr (copy_from (str_bytes PRINTK_DECD_ERROR_MSG) 0 (MIN_u64 (bs - of_nat (length pre)) 22) (blit m buf pre) (buf + of_nat (length pre)),
           of_nat (length pre) + 21)"
  by (rule vsnprintf_adjacent [OF assms])

theorem vsnprintf_adjacent_letter_witness:
  "vsnprintf (\<lambda>_. NUL) 4096 1023 ''a %dx'' [Va_int 5]
    = Inr (copy_from (str_bytes PRINTK_DECD_ERROR_MSG) 0 22 (blit (\<lambda>_. NUL) 4096 ''a '') 4098, 23)"
proof -
  have "fmt_text None UNKNOWN_LENGTH (CHR ''d'') = ''%d''" by code_simp
  then show ?thesis
    using vsnprintf_adjacent_letter [of "''a ''" "CHR ''d''" "CHR ''x''" UNKNOWN_LENGTH "\<lambda>_. NUL" 4096 1023 None "[]" "[Va_int 5]"]
    by (simp add: plain_def is_type_def MIN_u64_def)
qed

end
