(* ===== verification/Port_IO.thy ===== *)
theory Port_IO
  imports Addr_Conv Bit_Ops Kernel_Printf
begin

text \<open>
  Port input and output and the interrupt flag, the instructions of include/kernel/asm/generic.h that the
  drivers use.  What a device answers is not code of the repository: it is the field \<open>io_in\<close>, a function of
  the number of reads so far and of the port.  Everything written is recorded in order in \<open>io_out\<close>.  The
  drivers also log: a call of \<open>printk\<close> by a driver is recorded, with its level, format and arguments, in
  \<open>io_log\<close>; what \<open>printk\<close> itself does with the console and the serial line is the theory Printk.
\<close>

record io_state =
  io_out :: "(u16 \<times> u8) list"
  io_in :: "nat \<Rightarrow> u16 \<Rightarrow> u8"
  io_reads :: nat
  io_if :: bool
  io_log :: "(u8 \<times> string \<times> va_slot list) list"

text \<open>The port operand of \<open>in\<close> and \<open>out\<close> is the register \<open>dx\<close>, the low 16 bits of the argument.\<close>

definition inb :: "u64 \<Rightarrow> io_state \<Rightarrow> u8 \<times> io_state" where
  "inb port s = (io_in s (io_reads s) (ucast port), s\<lparr>io_reads := Suc (io_reads s)\<rparr>)"

definition outb :: "u64 \<Rightarrow> u8 \<Rightarrow> io_state \<Rightarrow> io_state" where
  "outb port val s = s\<lparr>io_out := io_out s @ [(ucast port, val)]\<rparr>"

definition enable_interrupts :: "io_state \<Rightarrow> io_state" where "enable_interrupts s = s\<lparr>io_if := True\<rparr>"

definition disable_interrupts :: "io_state \<Rightarrow> io_state" where "disable_interrupts s = s\<lparr>io_if := False\<rparr>"

definition log_printk :: "u8 \<Rightarrow> string \<Rightarrow> va_slot list \<Rightarrow> io_state \<Rightarrow> io_state" where
  "log_printk level fmt args s = s\<lparr>io_log := io_log s @ [(level, fmt, args)]\<rparr>"

abbreviation "printk_debug \<equiv> log_printk 3"
abbreviation "printk_fine \<equiv> log_printk 2"
abbreviation "printk_info \<equiv> log_printk 1"
abbreviation "printk_error \<equiv> log_printk 0"

definition UNSAFE_VA :: "u64 \<Rightarrow> u64" where "UNSAFE_VA phys_add = VIRT_ADDR_KERNEL_START + phys_add"

definition UNSAFE_PA :: "u64 \<Rightarrow> u64" where "UNSAFE_PA virt_add = virt_add - VIRT_ADDR_KERNEL_START"

lemma outb_simps [simp]:
  "io_out (outb p v s) = io_out s @ [(ucast p, v)]" "io_in (outb p v s) = io_in s"
  "io_reads (outb p v s) = io_reads s" "io_if (outb p v s) = io_if s"
  by (simp_all add: outb_def)

lemma inb_simps [simp]:
  "fst (inb p s) = io_in s (io_reads s) (ucast p)" "io_out (snd (inb p s)) = io_out s"
  "io_in (snd (inb p s)) = io_in s" "io_reads (snd (inb p s)) = Suc (io_reads s)" "io_if (snd (inb p s)) = io_if s"
  by (simp_all add: inb_def)

lemma log_simps [simp]:
  "io_out (log_printk l f a s) = io_out s" "io_in (log_printk l f a s) = io_in s"
  "io_reads (log_printk l f a s) = io_reads s" "io_if (log_printk l f a s) = io_if s"
  "io_log (log_printk l f a s) = io_log s @ [(l, f, a)]" "io_log (outb p v s) = io_log s" "io_log (snd (inb p s)) = io_log s"
  by (simp_all add: log_printk_def outb_def inb_def)

lemma if_simps [simp]:
  "io_out (enable_interrupts s) = io_out s" "io_out (disable_interrupts s) = io_out s"
  "io_in (enable_interrupts s) = io_in s" "io_in (disable_interrupts s) = io_in s"
  "io_reads (enable_interrupts s) = io_reads s" "io_reads (disable_interrupts s) = io_reads s"
  "io_log (enable_interrupts s) = io_log s" "io_log (disable_interrupts s) = io_log s"
  "io_if (enable_interrupts s)" "\<not> io_if (disable_interrupts s)"
  by (simp_all add: enable_interrupts_def disable_interrupts_def)

text \<open>The higher-half alias of a port below \<open>2 ^ 16\<close> selects the same port.\<close>

lemma ucast_UNSAFE_VA [simp]: "(ucast (UNSAFE_VA p) :: u16) = ucast p"
proof -
  have "(18446603336221196288 + x) mod 65536 = x mod (65536 :: nat)" for x
    using mod_mult_self2 [of x 65536 281472829227008] by (simp add: add.commute)
  then have "unat (ucast (UNSAFE_VA p) :: u16) = unat (ucast p :: u16)"
    by (simp add: UNSAFE_VA_def VIRT_ADDR_KERNEL_START_def unsigned_ucast_eq take_bit_eq_mod unat_word_ariths mod_mod_cancel)
  then show ?thesis by (simp only: word_unat_eq_iff)
qed

end
