(* ===== verification/Serial.thy ===== *)
theory Serial
  imports Port_IO
begin

text \<open>
  The COM1 driver of src/kernel/device/serial.c.  The static flag \<open>initialised\<close> is an argument; what the line
  status register answers is the device's, so waiting for it may take any number of reads.
\<close>

subsection \<open>Model\<close>

definition COM1_PORT :: u64 where "COM1_PORT = UNSAFE_VA 0x3f8"

definition init_serial :: "bool \<Rightarrow> io_state \<Rightarrow> bool \<times> io_state" where
  "init_serial initialised s =
     (let s = outb (COM1_PORT + 1) 0x00 s;
          s = outb (COM1_PORT + 3) 0x80 s;
          s = outb (COM1_PORT + 0) 0x0C s;
          s = outb (COM1_PORT + 1) 0x00 s;
          s = outb (COM1_PORT + 3) 0x03 s;
          s = outb (COM1_PORT + 2) 0xC7 s;
          s = outb (COM1_PORT + 4) 0x0B s;
          s = outb (COM1_PORT + 4) 0x1E s;
          s = outb (COM1_PORT + 0) 0xAE s;
          (v, s) = inb (COM1_PORT + 0) s;
          initialised = (if v \<noteq> 0xAE then False else initialised);
          s = outb (COM1_PORT + 4) 0x0F s;
          initialised = True
      in (initialised, s))"

definition is_transmit_empty :: "io_state \<Rightarrow> bool \<times> io_state" where
  "is_transmit_empty s = (let (v, s) = inb (COM1_PORT + 5) s in (v AND 0x20 \<noteq> 0, s))"

partial_function (option) wait_transmit :: "io_state \<Rightarrow> io_state option" where
  "wait_transmit s = (let r = is_transmit_empty s in if \<not> fst r then wait_transmit (snd r) else Some (snd r))"

definition write_char_serial :: "bool \<Rightarrow> char \<Rightarrow> io_state \<Rightarrow> io_state option" where
  "write_char_serial initialised a s =
     (if \<not> initialised then Some s
      else case wait_transmit s of None \<Rightarrow> None | Some s \<Rightarrow> Some (outb COM1_PORT (of_char a) s))"

fun write_serial_loop :: "bool \<Rightarrow> string \<Rightarrow> io_state \<Rightarrow> io_state option" where
  "write_serial_loop initialised [] s = Some s"
| "write_serial_loop initialised (c # cs) s = Option.bind (write_char_serial initialised c s) (write_serial_loop initialised cs)"

definition write_string_serial :: "bool \<Rightarrow> (nat \<Rightarrow> char) \<Rightarrow> u64 \<Rightarrow> io_state \<Rightarrow> io_state option" where
  "write_string_serial initialised arr len s =
     (if \<not> initialised then Some s
      else Option.bind (write_serial_loop initialised (map arr [0..<unat len]) s) (write_char_serial initialised CHR 0x0A))"

subsection \<open>Properties\<close>

text \<open>The device becomes ready again and again.\<close>

definition transmits :: "io_state \<Rightarrow> bool" where
  "transmits s \<longleftrightarrow> (\<forall>n. \<exists>m\<ge>n. io_in s m 0x3fd AND 0x20 \<noteq> 0)"

lemma COM1_ports [simp]: "(ucast COM1_PORT :: u16) = 0x3f8" "(ucast (COM1_PORT + 5) :: u16) = 0x3fd"
  by (simp_all add: COM1_PORT_def UNSAFE_VA_def VIRT_ADDR_KERNEL_START_def)

lemma is_transmit_empty_eq:
  "is_transmit_empty s = (io_in s (io_reads s) 0x3fd AND 0x20 \<noteq> 0, s\<lparr>io_reads := Suc (io_reads s)\<rparr>)"
  by (simp add: is_transmit_empty_def inb_def)

lemma wait_transmit_returns:
  assumes "io_reads s \<le> m" "io_in s m 0x3fd AND 0x20 \<noteq> 0"
  shows "\<exists>k. wait_transmit s = Some (s\<lparr>io_reads := k\<rparr>)"
  using assms
proof (induction "m - io_reads s" arbitrary: s)
  case 0
  then have "io_reads s = m" by simp
  then show ?case using 0 by (subst wait_transmit.simps) (auto simp: is_transmit_empty_eq)
next
  case (Suc n)
  show ?case
  proof (cases "io_in s (io_reads s) 0x3fd AND 0x20 = 0")
    case True
    have "\<exists>k. wait_transmit (s\<lparr>io_reads := Suc (io_reads s)\<rparr>) = Some (s\<lparr>io_reads := k\<rparr>)"
      using Suc.hyps(1) [of "s\<lparr>io_reads := Suc (io_reads s)\<rparr>"] Suc.hyps(2) Suc.prems by simp
    then show ?thesis using True by (subst wait_transmit.simps) (simp add: is_transmit_empty_eq)
  next
    case False
    then show ?thesis by (subst wait_transmit.simps) (auto simp: is_transmit_empty_eq)
  qed
qed

lemma write_char_sends:
  assumes "transmits s"
  shows "\<exists>k. write_char_serial True a s = Some (s\<lparr>io_reads := k, io_out := io_out s @ [(0x3f8, of_char a)]\<rparr>)"
proof -
  obtain m where "io_reads s \<le> m" "io_in s m 0x3fd AND 0x20 \<noteq> 0" using assms unfolding transmits_def by blast
  then obtain k where "wait_transmit s = Some (s\<lparr>io_reads := k\<rparr>)" using wait_transmit_returns by blast
  then show ?thesis by (simp add: write_char_serial_def outb_def) blast
qed

lemma write_loop_sends:
  "transmits s \<Longrightarrow> \<exists>k. write_serial_loop True cs s = Some (s\<lparr>io_reads := k, io_out := io_out s @ map (\<lambda>c. (0x3f8, of_char c)) cs\<rparr>)"
proof (induction cs arbitrary: s)
  case Nil
  then show ?case by (intro exI [of _ "io_reads s"]) simp
next
  case (Cons c cs)
  obtain k where k: "write_char_serial True c s = Some (s\<lparr>io_reads := k, io_out := io_out s @ [(0x3f8, of_char c)]\<rparr>)"
    using write_char_sends [OF Cons.prems] by blast
  have "transmits (s\<lparr>io_reads := k, io_out := io_out s @ [(0x3f8, of_char c)]\<rparr>)"
    using Cons.prems by (simp add: transmits_def)
  then show ?case using Cons.IH k by fastforce
qed

lemma write_string_sends:
  assumes "transmits s"
  shows "\<exists>k. write_string_serial True arr len s =
    Some (s\<lparr>io_reads := k, io_out := io_out s @ map (\<lambda>c. (0x3f8, of_char c)) (map arr [0..<unat len] @ [CHR 0x0A])\<rparr>)"
proof -
  obtain k where k: "write_serial_loop True (map arr [0..<unat len]) s =
      Some (s\<lparr>io_reads := k, io_out := io_out s @ map (\<lambda>c. (0x3f8, of_char c)) (map arr [0..<unat len])\<rparr>)" (is "_ = Some ?s")
    using write_loop_sends [OF assms] by blast
  have "transmits ?s" using assms by (simp add: transmits_def)
  then show ?thesis using write_char_sends [of ?s "CHR 0x0A"] k by (simp add: write_string_serial_def)
qed

lemma init_serial_ignores_test: "fst (init_serial initialised s)"
  by (simp add: init_serial_def Let_def split_beta)

end
