(* ===== verification/Ring_Buffer.thy ===== *)
theory Ring_Buffer
  imports Kernel_String
begin

text \<open>
  The ring buffer of console lines of src/kernel/lib/ringbuffer.c.  The indexes are C \<open>int\<close>s that never leave
  \<open>- 1 \<dots> 23\<close>; the two-dimensional array is flat, row \<open>r\<close> starting at \<open>81 * r\<close>, so that a line that is too
  long runs into the next row as it does in C.  \<open>rb_contents\<close> is the list of lines the buffer stands for, and
  \<open>bounded_log\<close> the interface it refines.
\<close>

subsection \<open>Model\<close>

record ringbuffer_tp =
  rb_head :: int
  rb_tail :: int
  rb_size :: int
  rb_data :: "nat \<Rightarrow> char"

definition ringbuffer_init :: "ringbuffer_tp \<Rightarrow> ringbuffer_tp" where
  "ringbuffer_init buf = buf\<lparr>rb_head := - 1, rb_tail := - 1\<rparr>"

definition row_start :: "int \<Rightarrow> nat" where "row_start r = 81 * nat r"

text \<open>\<open>item\<close> has the \<open>size\<close> bytes that are copied, the NUL included.\<close>

definition ringbuffer_put :: "ringbuffer_tp \<Rightarrow> string \<Rightarrow> ringbuffer_tp" where
  "ringbuffer_put buf item =
     (let buf = (if rb_head buf = rb_tail buf \<and> rb_head buf = - 1
                 then buf\<lparr>rb_head := rb_head buf + 1, rb_tail := rb_tail buf + 1\<rparr>
                 else if rb_head buf = 0 \<and> rb_tail buf < rb_size buf - 1
                 then buf\<lparr>rb_tail := rb_tail buf + 1\<rparr>
                 else buf\<lparr>rb_head := (rb_head buf + 1) smod rb_size buf, rb_tail := (rb_tail buf + 1) smod rb_size buf\<rparr>);
          p = row_start (rb_tail buf)
      in buf\<lparr>rb_data := (\<lambda>i. if p \<le> i \<and> i < p + length item then item ! (i - p) else rb_data buf i)\<rparr>)"

text \<open>The callback gets a pointer: the characters from the start of the row on.\<close>

definition row_ptr :: "ringbuffer_tp \<Rightarrow> int \<Rightarrow> nat \<Rightarrow> char" where
  "row_ptr buf r k = rb_data buf (row_start r + k)"

partial_function (option) for_each_loop :: "ringbuffer_tp \<Rightarrow> ((nat \<Rightarrow> char) \<Rightarrow> 's \<Rightarrow> 's) \<Rightarrow> int \<Rightarrow> 's \<Rightarrow> 's option" where
  "for_each_loop buf fn idx s =
     (let idx = idx smod rb_size buf;
          s = fn (row_ptr buf idx) s;
          idx = idx + 1
      in if (rb_tail buf > rb_head buf \<and> idx \<le> rb_tail buf) \<or> (rb_tail buf < rb_head buf \<and> idx \<noteq> rb_head buf)
         then for_each_loop buf fn idx s else Some s)"

definition ringbuffer_for_each :: "ringbuffer_tp \<Rightarrow> ((nat \<Rightarrow> char) \<Rightarrow> 's \<Rightarrow> 's) \<Rightarrow> 's \<Rightarrow> 's option" where
  "ringbuffer_for_each buf fn s =
     (if (rb_head buf = - 1 \<or> rb_tail buf = - 1) \<or> rb_size buf = 0 then Some s
      else for_each_loop buf fn (rb_head buf) s)"

subsection \<open>Invariant and contents\<close>

definition rb_ok :: "ringbuffer_tp \<Rightarrow> bool" where
  "rb_ok buf \<longleftrightarrow> 1 < rb_size buf \<and>
     ((rb_head buf = - 1 \<and> rb_tail buf = - 1) \<or> (rb_head buf = 0 \<and> 0 \<le> rb_tail buf \<and> rb_tail buf < rb_size buf)
      \<or> (0 < rb_head buf \<and> rb_head buf < rb_size buf \<and> rb_tail buf = rb_head buf - 1))"

definition rb_rows :: "ringbuffer_tp \<Rightarrow> int list" where
  "rb_rows buf = (if rb_head buf = - 1 then [] else if rb_head buf \<le> rb_tail buf then [rb_head buf..rb_tail buf]
     else [rb_head buf..rb_size buf - 1] @ [0..rb_tail buf])"

definition row_str :: "ringbuffer_tp \<Rightarrow> int \<Rightarrow> string" where
  "row_str buf r = takeWhile (\<lambda>c. c \<noteq> NUL) (map (row_ptr buf r) [0..<81])"

definition rb_contents :: "ringbuffer_tp \<Rightarrow> string list" where
  "rb_contents buf = map (row_str buf) (rb_rows buf)"

lemma smod_nonneg: "0 \<le> a \<Longrightarrow> 0 < (b::int) \<Longrightarrow> a smod b = a mod b"
  by (cases "a = 0") (simp_all add: signed_modulo_int_def signed_divide_int_def minus_div_mult_eq_mod [symmetric])

lemma rb_rows_range: "rb_ok buf \<Longrightarrow> r \<in> set (rb_rows buf) \<Longrightarrow> 0 \<le> r \<and> r < rb_size buf"
  by (auto simp: rb_ok_def rb_rows_def split: if_splits)

lemma rb_rows_put:
  assumes "rb_ok buf"
  shows "rb_ok (ringbuffer_put buf item) \<and> rb_size (ringbuffer_put buf item) = rb_size buf
    \<and> rb_rows (ringbuffer_put buf item) =
       (if int (length (rb_rows buf)) = rb_size buf then tl (rb_rows buf) else rb_rows buf) @ [rb_tail (ringbuffer_put buf item)]
    \<and> 0 \<le> rb_tail (ringbuffer_put buf item)
    \<and> rb_tail (ringbuffer_put buf item) \<notin> set (if int (length (rb_rows buf)) = rb_size buf then tl (rb_rows buf) else rb_rows buf)"
proof -
  define h t n where "h = rb_head buf" and "t = rb_tail buf" and "n = rb_size buf"
  note d = h_def [symmetric] t_def [symmetric] n_def [symmetric]
  have n: "1 < n" using assms by (simp add: rb_ok_def n_def)
  consider (empty) "h = - 1" "t = - 1" | (fill) "h = 0" "0 \<le> t" "t < n - 1" | (full) "h = 0" "t = n - 1"
    | (wrap) "0 < h" "h < n - 1" "t = h - 1" | (last) "h = n - 1" "t = n - 2"
    using assms n by (auto simp: rb_ok_def d) linarith+
  then show ?thesis
  proof cases
    case empty
    then show ?thesis using n by (simp add: ringbuffer_put_def rb_rows_def rb_ok_def Let_def d)
  next
    case fill
    have "[0..t + 1] = [0..t] @ [t + 1]" using fill by (simp add: upto_rec2)
    then show ?thesis using fill n by (simp add: ringbuffer_put_def rb_rows_def rb_ok_def Let_def d)
  next
    case full
    have "[0..n - 1] = 0 # [1..n - 1]" using n by (simp add: upto_rec1)
    then show ?thesis using full n by (simp add: ringbuffer_put_def rb_rows_def rb_ok_def Let_def d smod_nonneg)
  next
    case wrap
    have "[h..n - 1] = h # [h + 1..n - 1]" using wrap by (simp add: upto_rec1)
    moreover have "[0..h] = [0..h - 1] @ [h]" using wrap by (simp add: upto_rec2)
    ultimately show ?thesis using wrap n by (simp add: ringbuffer_put_def rb_rows_def rb_ok_def Let_def d smod_nonneg)
  next
    case last
    have "[n - 1..n - 1] = [n - 1]" by (simp add: upto_rec1)
    moreover have "[0..n - 1] = [0..n - 2] @ [n - 1]" using n by (simp add: upto_rec2)
    ultimately show ?thesis using last n by (simp add: ringbuffer_put_def rb_rows_def rb_ok_def Let_def d smod_nonneg zmod_minus1)
  qed
qed

subsection \<open>Traversal\<close>

definition visit :: "ringbuffer_tp \<Rightarrow> ((nat \<Rightarrow> char) \<Rightarrow> 's \<Rightarrow> 's) \<Rightarrow> int list \<Rightarrow> 's \<Rightarrow> 's" where
  "visit buf fn rs s = fold (\<lambda>r. fn (row_ptr buf r)) rs s"

lemma for_each_step:
  "0 \<le> idx \<Longrightarrow> idx < rb_size buf \<Longrightarrow> for_each_loop buf fn idx s =
    (if (rb_tail buf > rb_head buf \<and> idx + 1 \<le> rb_tail buf) \<or> (rb_tail buf < rb_head buf \<and> idx + 1 \<noteq> rb_head buf)
     then for_each_loop buf fn (idx + 1) (fn (row_ptr buf idx) s) else Some (fn (row_ptr buf idx) s))"
  by (subst for_each_loop.simps) (simp add: smod_nonneg Let_def)

lemma for_each_up:
  assumes "idx = rb_tail buf - int n" "rb_head buf \<le> idx" "0 \<le> rb_head buf" "rb_tail buf < rb_size buf"
  shows "for_each_loop buf fn idx s = Some (visit buf fn [idx..rb_tail buf] s)"
  using assms
proof (induction n arbitrary: idx s)
  case 0
  then show ?case by (simp add: for_each_step visit_def)
next
  case (Suc n)
  have "[idx..rb_tail buf] = idx # [idx + 1..rb_tail buf]" using Suc.prems by (simp add: upto_rec1)
  then show ?case using Suc.IH [of "idx + 1"] Suc.prems by (simp add: for_each_step visit_def)
qed

lemma for_each_low:
  assumes "idx = rb_tail buf - int n" "0 \<le> idx" "rb_tail buf = rb_head buf - 1" "rb_head buf < rb_size buf"
  shows "for_each_loop buf fn idx s = Some (visit buf fn [idx..rb_tail buf] s)"
  using assms
proof (induction n arbitrary: idx s)
  case 0
  then show ?case by (simp add: for_each_step visit_def)
next
  case (Suc n)
  have "[idx..rb_tail buf] = idx # [idx + 1..rb_tail buf]" using Suc.prems by (simp add: upto_rec1)
  then show ?case using Suc.IH [of "idx + 1"] Suc.prems by (simp add: for_each_step visit_def)
qed

lemma for_each_wrap: "0 < rb_size buf \<Longrightarrow> for_each_loop buf fn (rb_size buf) s = for_each_loop buf fn 0 s"
  by (subst (1 2) for_each_loop.simps) (simp add: smod_nonneg)

lemma for_each_high:
  assumes "idx = rb_size buf - 1 - int n" "rb_head buf \<le> idx" "rb_tail buf = rb_head buf - 1" "0 < rb_head buf"
  shows "for_each_loop buf fn idx s = Some (visit buf fn ([idx..rb_size buf - 1] @ [0..rb_tail buf]) s)"
  using assms
proof (induction n arbitrary: idx s)
  case 0
  then have "for_each_loop buf fn idx s = for_each_loop buf fn 0 (fn (row_ptr buf idx) s)"
    using for_each_wrap [of buf fn] by (simp add: for_each_step)
  then show ?case using 0 for_each_low [of 0 buf "nat (rb_tail buf)"] by (simp add: visit_def)
next
  case (Suc n)
  have "[idx..rb_size buf - 1] = idx # [idx + 1..rb_size buf - 1]" using Suc.prems by (simp add: upto_rec1)
  then show ?case using Suc.IH [of "idx + 1"] Suc.prems by (simp add: for_each_step visit_def)
qed

lemma for_each_visits:
  assumes "rb_ok buf"
  shows "ringbuffer_for_each buf fn s = Some (visit buf fn (rb_rows buf) s)"
proof -
  consider (empty) "rb_head buf = - 1" "rb_tail buf = - 1" | (up) "rb_head buf = 0" "0 \<le> rb_tail buf" "rb_tail buf < rb_size buf"
    | (wrap) "0 < rb_head buf" "rb_head buf < rb_size buf" "rb_tail buf = rb_head buf - 1"
    using assms by (auto simp: rb_ok_def)
  then show ?thesis
  proof cases
    case empty
    then show ?thesis by (simp add: ringbuffer_for_each_def rb_rows_def visit_def)
  next
    case up
    then show ?thesis using assms for_each_up [of 0 buf "nat (rb_tail buf)" fn s]
      by (simp add: ringbuffer_for_each_def rb_rows_def rb_ok_def)
  next
    case wrap
    then show ?thesis using assms for_each_high [of "rb_head buf" buf "nat (rb_size buf - 1 - rb_head buf)" fn s]
      by (simp add: ringbuffer_for_each_def rb_rows_def rb_ok_def)
  qed
qed

subsection \<open>The bounded log it refines\<close>

definition last_n :: "nat \<Rightarrow> 'a list \<Rightarrow> 'a list" where "last_n n xs = drop (length xs - n) xs"

text \<open>A log that keeps the newest \<open>cap\<close> entries; \<open>good\<close> are the entries that fit.\<close>

locale bounded_log =
  fixes ok :: "'b \<Rightarrow> bool" and contents :: "'b \<Rightarrow> 'l list" and put :: "'b \<Rightarrow> 'l \<Rightarrow> 'b" and cap :: "'b \<Rightarrow> nat" and good :: "'l \<Rightarrow> bool"
  assumes put_ok: "ok b \<Longrightarrow> good l \<Longrightarrow> ok (put b l) \<and> cap (put b l) = cap b"
    and put_contents: "ok b \<Longrightarrow> good l \<Longrightarrow>
      contents (put b l) = (if length (contents b) = cap b then tl (contents b) else contents b) @ [l]"
    and bounded: "ok b \<Longrightarrow> length (contents b) \<le> cap b \<and> 0 < cap b"
begin

lemma put_last_n: "ok b \<Longrightarrow> good l \<Longrightarrow> contents (put b l) = last_n (cap b) (contents b @ [l])"
  using put_contents [of b l] bounded [of b] by (cases "contents b") (auto simp: last_n_def)

lemma last_n_last_n: "last_n n (last_n n xs @ ys) = last_n n (xs @ ys)"
proof (cases "n \<le> length xs")
  case True
  then have "length xs + length ys - n = length ys + (length xs - n)" by linarith
  then show ?thesis using True by (simp add: last_n_def add.commute)
qed (simp add: last_n_def)

lemma put_many:
  "ok b \<Longrightarrow> \<forall>l\<in>set ls. good l \<Longrightarrow>
    ok (foldl put b ls) \<and> cap (foldl put b ls) = cap b \<and> contents (foldl put b ls) = last_n (cap b) (contents b @ ls)"
proof (induction ls arbitrary: b)
  case Nil
  then show ?case using bounded [of b] by (simp add: last_n_def)
next
  case (Cons l ls)
  then have "ok (put b l)" "cap (put b l) = cap b" using put_ok by auto
  then show ?case using Cons put_last_n [of b l] last_n_last_n [of "cap b" "contents b @ [l]" ls] by simp
qed

end

definition line_ok :: "string \<Rightarrow> bool" where "line_ok s \<longleftrightarrow> length s \<le> 80 \<and> NUL \<notin> set s"

lemma row_ptr_put_self:
  "row_ptr (ringbuffer_put buf item) (rb_tail (ringbuffer_put buf item)) k =
    (if k < length item then item ! k else row_ptr buf (rb_tail (ringbuffer_put buf item)) k)"
  by (simp add: row_ptr_def ringbuffer_put_def Let_def)

lemma row_ptr_put_other:
  assumes "0 \<le> r" "0 \<le> rb_tail (ringbuffer_put buf item)" "r \<noteq> rb_tail (ringbuffer_put buf item)" "length item \<le> 81" "k < 81"
  shows "row_ptr (ringbuffer_put buf item) r k = row_ptr buf r k"
proof -
  define t where "t = rb_tail (ringbuffer_put buf item)"
  have data: "rb_data (ringbuffer_put buf item) i = (if row_start t \<le> i \<and> i < row_start t + length item then item ! (i - row_start t) else rb_data buf i)" for i
    unfolding t_def by (simp add: ringbuffer_put_def Let_def)
  have "nat r \<noteq> nat t" using assms unfolding t_def by (simp add: nat_eq_iff)
  then have "nat r + 1 \<le> nat t \<or> nat t + 1 \<le> nat r" by linarith
  then have "\<not> (row_start t \<le> row_start r + k \<and> row_start r + k < row_start t + length item)"
    using assms(4,5) unfolding row_start_def by (elim disjE) linarith+
  then show ?thesis unfolding row_ptr_def data by presburger
qed

lemma row_str_put_other:
  assumes "0 \<le> r" "0 \<le> rb_tail (ringbuffer_put buf item)" "r \<noteq> rb_tail (ringbuffer_put buf item)" "length item \<le> 81"
  shows "row_str (ringbuffer_put buf item) r = row_str buf r"
proof -
  have "map (row_ptr (ringbuffer_put buf item) r) [0..<81] = map (row_ptr buf r) [0..<81]"
    using row_ptr_put_other [OF assms] by simp
  then show ?thesis by (simp only: row_str_def)
qed

lemma takeWhile_line:
  assumes "NUL \<notin> set s" "\<And>i. i < length s \<Longrightarrow> f i = s ! i" "f (length s) = NUL" "length s < n"
  shows "takeWhile (\<lambda>c. c \<noteq> NUL) (map f [0..<n]) = s"
proof -
  have "[0..<n] = [0..<length s] @ length s # [Suc (length s)..<n]" using assms(4)
    upt_add_eq_append [of 0 "length s" "n - length s"] by (simp add: upt_conv_Cons)
  moreover have "map f [0..<length s] = s" using assms(2) by (intro nth_equalityI) auto
  ultimately show ?thesis using assms(1,3) by (auto simp: takeWhile_append takeWhile_eq_all_conv)
qed

lemma row_str_put_self:
  assumes "line_ok s"
  shows "row_str (ringbuffer_put buf (s @ [NUL])) (rb_tail (ringbuffer_put buf (s @ [NUL]))) = s"
  unfolding row_str_def
  by (rule takeWhile_line) (use assms in \<open>auto simp: line_ok_def row_ptr_put_self nth_append\<close>)

lemma put_full_tail:
  assumes "rb_ok buf" "int (length (rb_rows buf)) = rb_size buf"
  shows "rb_tail (ringbuffer_put buf item) = hd (rb_rows buf)"
proof -
  consider "rb_head buf = 0" "rb_tail buf = rb_size buf - 1" | "0 < rb_head buf" "rb_head buf < rb_size buf" "rb_tail buf = rb_head buf - 1"
    using assms by (auto simp: rb_ok_def rb_rows_def)
  then show ?thesis using assms(1)
    by cases (auto simp: rb_ok_def rb_rows_def ringbuffer_put_def Let_def smod_nonneg upto_rec1)
qed

interpretation rbl: bounded_log rb_ok rb_contents "\<lambda>b s. ringbuffer_put b (s @ [NUL])" "\<lambda>b. nat (rb_size b)" line_ok
proof
  fix b s assume ok: "rb_ok b" and s: "line_ok s"
  let ?b = "ringbuffer_put b (s @ [NUL])"
  let ?rs = "if int (length (rb_rows b)) = rb_size b then tl (rb_rows b) else rb_rows b"
  note p = rb_rows_put [OF ok, of "s @ [NUL]"]
  show "rb_ok ?b \<and> nat (rb_size ?b) = nat (rb_size b)" using p by simp
  have "row_str ?b r = row_str b r" if "r \<in> set ?rs" for r
  proof -
    have "r \<in> set (rb_rows b)" using that list.set_sel(2) [of "rb_rows b" r] by (cases "rb_rows b") (auto split: if_splits)
    then show ?thesis using p that s rb_rows_range [OF ok] by (intro row_str_put_other) (auto simp: line_ok_def)
  qed
  then have "rb_contents ?b = map (row_str b) ?rs @ [s]"
    using p row_str_put_self [OF s, of b] by (simp add: rb_contents_def)
  moreover have "int (length (rb_rows b)) = rb_size b \<longleftrightarrow> length (rb_contents b) = nat (rb_size b)"
    using ok by (auto simp: rb_contents_def rb_ok_def)
  ultimately show "rb_contents ?b = (if length (rb_contents b) = nat (rb_size b) then tl (rb_contents b) else rb_contents b) @ [s]"
    by (simp add: rb_contents_def map_tl)
next
  fix b assume "rb_ok b"
  then show "length (rb_contents b) \<le> nat (rb_size b) \<and> 0 < nat (rb_size b)"
    by (auto simp: rb_contents_def rb_rows_def rb_ok_def)
qed

end
