(* ===== verification/Vga_Console.thy ===== *)
theory Vga_Console
  imports Ring_Buffer Port_IO
begin

text \<open>
  The text console of src/kernel/video/vga_console.c.  The video memory is a function from the byte offset in
  the frame buffer to the byte there; \<open>c_ring\<close> is the static \<open>msg_buffer\<close> and \<open>c_row\<close> the static \<open>row\<close>.  A
  pointer argument is the function from an offset to the character there.  The console refines the log of the
  last 24 lines written, and the screen shows that log; an empty line is the exception.
\<close>

subsection \<open>Model\<close>

record console =
  c_row :: int
  c_video :: "nat \<Rightarrow> char"
  c_ring :: ringbuffer_tp
  c_io :: io_state

definition update_cursor :: "int \<Rightarrow> int \<Rightarrow> console \<Rightarrow> console" where
  "update_cursor row col s =
     (let row = (if row = 25 then row - 1 else if row = 0 then row + 1 else row);
          pos = (word_of_int (row * 80 + col) :: u16);
          io = outb (UNSAFE_VA 0x3D4) 0x0F (c_io s);
          io = outb (UNSAFE_VA 0x3D5) (ucast (pos AND 0xFF)) io;
          io = outb (UNSAFE_VA 0x3D4) 0x0E io;
          io = outb (UNSAFE_VA 0x3D5) (ucast (drop_bit 8 pos AND 0xFF)) io
      in s\<lparr>c_io := io\<rparr>)"

fun clear_loop :: "nat \<Rightarrow> nat \<Rightarrow> (nat \<Rightarrow> char) \<Rightarrow> nat \<Rightarrow> char" where
  "clear_loop 0 p v = v"
| "clear_loop (Suc n) p v = clear_loop n (p + 2) (v(p := CHR '' '', p + 1 := CHR 0x0F))"

definition clear_console :: "console \<Rightarrow> console" where
  "clear_console s = update_cursor 0 0 (s\<lparr>c_video := clear_loop (80 * 25) 0 (c_video s), c_row := 0\<rparr>)"

definition vga_console_init :: "console \<Rightarrow> console" where
  "vga_console_init s = clear_console (s\<lparr>c_ring := ringbuffer_init (c_ring s)\<rparr>)"

text \<open>The first loop of \<open>write_line_to_dma\<close>; \<open>None\<close>: there is no NUL behind \<open>buf\<close>.\<close>

partial_function (option) write_chars ::
  "(nat \<Rightarrow> char) \<Rightarrow> nat \<Rightarrow> char \<Rightarrow> nat \<Rightarrow> u8 \<Rightarrow> (nat \<Rightarrow> char) \<Rightarrow> ((nat \<Rightarrow> char) \<times> nat \<times> u8) option" where
  "write_chars buf k c p idx v =
     (let v = v(p := c, p + 1 := CHR 0x0F);
          p = p + 2;
          idx = idx + 1;
          k = k + 1;
          c = buf k
      in if c \<noteq> NUL then write_chars buf k c p idx v else Some (v, p, idx))"

function fill_blanks :: "u8 \<Rightarrow> nat \<Rightarrow> (nat \<Rightarrow> char) \<Rightarrow> nat \<Rightarrow> char" where
  "fill_blanks idx p v =
     (if idx < 80 - 1 then fill_blanks (idx + 1) (p + 2) (v(p := CHR '' '', p + 1 := CHR 0x0F)) else v)"
  by pat_completeness auto
termination
  by (relation "measure (\<lambda>(idx, p, v). 79 - unat idx)") (auto simp: word_less_nat_alt unat_word_ariths)

declare fill_blanks.simps [simp del]

definition write_line_to_dma :: "(nat \<Rightarrow> char) \<Rightarrow> console \<Rightarrow> console option" where
  "write_line_to_dma buf s =
     (case write_chars buf 0 (buf 0) (nat (c_row s * 80 * 2)) 0 (c_video s) of
        None \<Rightarrow> None
      | Some (v, p, idx) \<Rightarrow> Some (s\<lparr>c_video := fill_blanks idx p v, c_row := c_row s + 1\<rparr>))"

text \<open>\<open>line\<close> is the part of the local array that has been filled, so that its length is \<open>line_p\<close>.\<close>

definition console_char :: "char \<Rightarrow> string \<times> ringbuffer_tp \<Rightarrow> string \<times> ringbuffer_tp" where
  "console_char c st =
     (let (line, ring) = st;
          line = (if c \<noteq> CHR 0x0A then line @ [c] else line)
      in if c = CHR 0x0A \<or> length line = 80 - 1 then ([], ringbuffer_put ring (line @ [NUL])) else (line, ring))"

definition write_console :: "(nat \<Rightarrow> char) \<Rightarrow> u64 \<Rightarrow> console \<Rightarrow> console option" where
  "write_console buf buf_size s =
     (let (line, ring) = fold (\<lambda>i. console_char (buf i)) [0..<unat (buf_size - 1)] ([], c_ring s);
          ring = (if length line > 0 then ringbuffer_put ring (line @ [NUL]) else ring)
      in case ringbuffer_for_each ring (\<lambda>item s. Option.bind s (write_line_to_dma item)) (Some (s\<lparr>c_ring := ring, c_row := 0\<rparr>)) of
           Some (Some s) \<Rightarrow> Some (update_cursor (c_row s) 0 s)
         | _ \<Rightarrow> None)"

subsection \<open>Drawing one line\<close>

definition draw :: "nat \<Rightarrow> string \<Rightarrow> (nat \<Rightarrow> char) \<Rightarrow> nat \<Rightarrow> char" where
  "draw p s v a = (if p \<le> a \<and> a < p + 2 * length s then if even (a - p) then s ! ((a - p) div 2) else CHR 0x0F else v a)"

lemma draw_Nil [simp]: "draw p [] v = v"
  by (auto simp: draw_def fun_eq_iff)

lemma draw_append: "draw (p + 2 * length s) t (draw p s v) = draw p (s @ t) v"
proof
  fix a
  consider "a < p" | "p \<le> a" "a < p + 2 * length s" | "p + 2 * length s \<le> a" by linarith
  then show "draw (p + 2 * length s) t (draw p s v) a = draw p (s @ t) v a"
  proof cases
    case 3
    then obtain b where "a = p + 2 * length s + b" using le_Suc_ex by blast
    then show ?thesis by (simp add: draw_def nth_append)
  qed (auto simp: draw_def nth_append)
qed

lemma draw_Cons: "draw (p + 2) s (v(p := c, p + 1 := CHR 0x0F)) = draw p (c # s) v"
proof -
  have "v(p := c, p + 1 := CHR 0x0F) = draw p [c] v"
  proof
    fix a
    consider "a = p" | "a = p + 1" | "a < p" | "p + 2 \<le> a" by linarith
    then show "(v(p := c, p + 1 := CHR 0x0F)) a = draw p [c] v a" by cases (auto simp: draw_def)
  qed
  then show ?thesis using draw_append [of p "[c]" s v] by simp
qed

lemma clear_loop_draw: "clear_loop n p v = draw p (replicate n CHR '' '') v"
  by (induction n arbitrary: p v) (simp_all only: clear_loop.simps draw_Cons replicate.simps draw_Nil)

lemma write_chars_draw:
  assumes "\<forall>i<n. buf (Suc k + i) \<noteq> NUL" "buf (Suc k + n) = NUL"
  shows "write_chars buf k c p idx v = Some (draw p (c # map buf [Suc k..<Suc k + n]) v, p + 2 * Suc n, idx + of_nat (Suc n))"
  using assms
proof (induction n arbitrary: k c p idx v)
  case 0
  then show ?case by (subst write_chars.simps) (simp add: Let_def draw_Cons [of p "[]", simplified])
next
  case (Suc n)
  let ?v = "v(p := c, p + 1 := CHR 0x0F)"
  have "buf (Suc k) \<noteq> NUL" using Suc.prems(1) by (metis add.right_neutral zero_less_Suc)
  then have "write_chars buf k c p idx v = write_chars buf (Suc k) (buf (Suc k)) (p + 2) (idx + 1) ?v"
    by (subst write_chars.simps) (simp add: Let_def)
  also have "\<dots> = Some (draw (p + 2) (buf (Suc k) # map buf [Suc (Suc k)..<Suc (Suc k) + n]) ?v,
      p + 2 + 2 * Suc n, idx + 1 + of_nat (Suc n))"
    using Suc.prems by (intro Suc.IH) (metis Suc_less_eq add_Suc_shift, simp)
  also have "buf (Suc k) # map buf [Suc (Suc k)..<Suc (Suc k) + n] = map buf [Suc k..<Suc k + Suc n]"
    by (simp add: upt_conv_Cons del: upt_Suc)
  finally show ?case unfolding draw_Cons by (simp add: algebra_simps del: upt_Suc)
qed

lemma fill_blanks_draw: "unat idx = 79 - n \<Longrightarrow> n \<le> 79 \<Longrightarrow> fill_blanks idx p v = draw p (replicate n CHR '' '') v"
proof (induction n arbitrary: idx p v)
  case 0
  then show ?case by (subst fill_blanks.simps) (simp add: word_less_nat_alt)
next
  case (Suc n)
  have "unat (idx + 1) = 79 - n" using Suc.prems by (simp add: unat_word_ariths)
  moreover have "unat idx < 79" using Suc.prems by linarith
  ultimately show ?case using Suc by (subst fill_blanks.simps) (simp add: word_less_nat_alt draw_Cons [simplified])
qed

text \<open>What a line shows: the first character, whatever it is, and what follows it up to a NUL.\<close>

definition shown :: "(nat \<Rightarrow> char) \<Rightarrow> string" where
  "shown buf = buf 0 # takeWhile (\<lambda>c. c \<noteq> NUL) (map buf [1..<80])"

definition padded :: "string \<Rightarrow> string" where "padded s = s @ replicate (79 - length s) CHR '' ''"

definition terminated :: "(nat \<Rightarrow> char) \<Rightarrow> bool" where "terminated buf \<longleftrightarrow> (\<exists>k\<in>{1..79}. buf k = NUL)"

lemma terminated_least:
  assumes "terminated buf"
  obtains n where "n < 79" "\<forall>i<n. buf (Suc i) \<noteq> NUL" "buf (Suc n) = NUL" "shown buf = buf 0 # map buf [1..<Suc n]"
proof -
  define n where "n = (LEAST n. buf (Suc n) = NUL)"
  obtain k where k: "1 \<le> k" "k \<le> 79" "buf k = NUL" using assms by (auto simp: terminated_def)
  then have kk: "buf (Suc (k - 1)) = NUL" by simp
  have n: "buf (Suc n) = NUL" "n \<le> k - 1" unfolding n_def using kk by (auto intro: LeastI Least_le)
  have lt: "\<forall>i<n. buf (Suc i) \<noteq> NUL" unfolding n_def by (auto dest: not_less_Least)
  have "[1..<80] = [1..<Suc n] @ [Suc n..<80]" using n(2) k upt_add_eq_append [of 1 "Suc n" "79 - n"] by simp
  moreover have "[Suc n..<80] = Suc n # [Suc (Suc n)..<80]" using n(2) k by (simp add: upt_conv_Cons)
  moreover have "\<forall>i\<in>set [1..<Suc n]. buf i \<noteq> NUL" using lt by (auto simp: Suc_le_eq gr0_conv_Suc)
  ultimately have "shown buf = buf 0 # map buf [1..<Suc n]"
    using n(1) by (auto simp: shown_def takeWhile_append takeWhile_eq_all_conv)
  moreover have "n < 79" using n(2) k by linarith
  ultimately show thesis using that n(1) lt by blast
qed

lemma write_line_draw:
  assumes "terminated buf" "c_row s = int r"
  shows "write_line_to_dma buf s = Some (s\<lparr>c_video := draw (160 * r) (padded (shown buf)) (c_video s), c_row := int (Suc r)\<rparr>)"
proof -
  obtain n where n: "n < 79" "\<forall>i<n. buf (Suc i) \<noteq> NUL" "buf (Suc n) = NUL" "shown buf = buf 0 # map buf [1..<Suc n]"
    using terminated_least [OF assms(1)] by blast
  have r: "nat (c_row s * 80 * 2) = 160 * r" using assms(2) by simp
  have w: "write_chars buf 0 (buf 0) (160 * r) 0 (c_video s)
      = Some (draw (160 * r) (shown buf) (c_video s), 160 * r + 2 * length (shown buf), of_nat (Suc n))"
    using write_chars_draw [of n buf 0 "buf 0" "160 * r" 0] n by simp
  have "unat (of_nat (Suc n) :: u8) = 79 - (79 - length (shown buf))"
    using n by (simp add: unat_of_nat take_bit_eq_mod del: of_nat_Suc)
  then have "fill_blanks (of_nat (Suc n)) (160 * r + 2 * length (shown buf)) (draw (160 * r) (shown buf) (c_video s))
      = draw (160 * r) (padded (shown buf)) (c_video s)"
    by (simp add: fill_blanks_draw [of _ "79 - length (shown buf)"] draw_append padded_def)
  then show ?thesis unfolding write_line_to_dma_def r w by (simp add: assms(2))
qed


subsection \<open>The screen\<close>

definition screen_line :: "console \<Rightarrow> nat \<Rightarrow> string" where
  "screen_line s r = map (\<lambda>k. c_video s (160 * r + 2 * k)) [0..<79]"

lemma length_padded: "length t \<le> 79 \<Longrightarrow> length (padded t) = 79"
  by (simp add: padded_def)

lemma length_shown: "length (shown buf) \<le> 80"
  using length_takeWhile_le [of "\<lambda>c. c \<noteq> NUL" "map buf [1..<80]"] by (simp add: shown_def)

lemma length_shown_terminated: "terminated buf \<Longrightarrow> length (shown buf) \<le> 79"
  by (erule terminated_least) (simp del: upt_Suc)

lemma screen_line_draw:
  assumes "length t = 79"
  shows "screen_line (s\<lparr>c_video := draw (160 * r) t (c_video s), c_row := z\<rparr>) q = (if q = r then t else screen_line s q)"
proof (cases "q = r")
  case True
  then show ?thesis using assms by (intro nth_equalityI) (auto simp: screen_line_def draw_def)
next
  case False
  have "\<not> (160 * r \<le> 160 * q + 2 * k \<and> 160 * q + 2 * k < 160 * r + 158)" if "k < 79" for k
    using False that by (cases "q < r") auto
  then show ?thesis using False assms by (auto simp: screen_line_def draw_def)
qed

lemma draw_all:
  assumes "\<forall>b\<in>set ps. terminated b" "c_row s = int r"
  shows "\<exists>s'. fold (\<lambda>item s. Option.bind s (write_line_to_dma item)) ps (Some s) = Some s' \<and> c_row s' = int (r + length ps)
    \<and> c_ring s' = c_ring s \<and> c_io s' = c_io s \<and> (\<forall>i<length ps. screen_line s' (r + i) = padded (shown (ps ! i)))
    \<and> (\<forall>q<r. screen_line s' q = screen_line s q)"
  using assms
proof (induction ps arbitrary: s r)
  case Nil
  then show ?case by simp
next
  case (Cons b ps)
  define s1 where "s1 = s\<lparr>c_video := draw (160 * r) (padded (shown b)) (c_video s), c_row := int (Suc r)\<rparr>"
  have w: "write_line_to_dma b s = Some s1" unfolding s1_def using Cons.prems by (intro write_line_draw) auto
  have l: "screen_line s1 q = (if q = r then padded (shown b) else screen_line s q)" for q
    unfolding s1_def using Cons.prems by (intro screen_line_draw length_padded length_shown_terminated) auto
  obtain s' where s': "fold (\<lambda>item s. Option.bind s (write_line_to_dma item)) ps (Some s1) = Some s'" "c_row s' = int (Suc r + length ps)"
      "c_ring s' = c_ring s1" "c_io s' = c_io s1" "\<forall>i<length ps. screen_line s' (Suc r + i) = padded (shown (ps ! i))"
      "\<forall>q<Suc r. screen_line s' q = screen_line s1 q"
    using Cons.IH [of s1 "Suc r"] Cons.prems by (auto simp: s1_def)
  have "screen_line s' (r + i) = padded (shown ((b # ps) ! i))" if "i < length (b # ps)" for i
    using that s'(5,6) l by (cases i) auto
  then show ?case using s' w l by (intro exI [of _ s']) (auto simp: s1_def)
qed

subsection \<open>The lines of a text\<close>

text \<open>A text is cut at every newline, and its segments are wrapped after 79 characters.\<close>

function wrap79 :: "string \<Rightarrow> string list" where
  "wrap79 s = (if length s < 79 then [s] else take 79 s # wrap79 (drop 79 s))"
  by pat_completeness auto
termination by (relation "measure length") auto

declare wrap79.simps [simp del]

fun segments :: "string \<Rightarrow> string \<times> string list" where
  "segments [] = ([], [])"
| "segments (c # cs) = (let (s, ss) = segments cs in if c = CHR 0x0A then ([], s # ss) else (c # s, ss))"

text \<open>Every newline ends a line; what follows the last one is a line unless it is empty.\<close>

definition console_lines :: "string \<Rightarrow> string list" where
  "console_lines msg = (let (s, ss) = segments msg; ls = concat (map wrap79 (s # ss))
     in if last ls = [] then butlast ls else ls)"

lemma wrap79_ne [simp]: "wrap79 s \<noteq> []"
  by (subst wrap79.simps) simp

lemma wrap79_short [simp]: "length s < 79 \<Longrightarrow> wrap79 s = [s]"
  by (subst wrap79.simps) simp

lemma console_fold:
  assumes "length line < 79" "segments msg = (s, ss)"
  shows "\<exists>l. fold console_char msg (line, ring) =
      (l, foldl (\<lambda>b x. ringbuffer_put b (x @ [NUL])) ring (butlast (concat (map wrap79 ((line @ s) # ss)))))
    \<and> l = last (concat (map wrap79 ((line @ s) # ss))) \<and> length l < 79"
  using assms
proof (induction msg arbitrary: line ring s ss)
  case Nil
  then show ?case by simp
next
  case (Cons c cs)
  obtain t ts where t: "segments cs = (t, ts)" by (cases "segments cs")
  have ne: "concat (map wrap79 ((x @ t) # ts)) \<noteq> []" for x by (simp add: wrap79_ne)
  consider (nl) "c = CHR 0x0A" | (full) "c \<noteq> CHR 0x0A" "length line = 78" | (more) "c \<noteq> CHR 0x0A" "length line < 78"
    using Cons.prems(1) by fastforce
  then show ?case
  proof cases
    case nl
    then have "s = []" "ss = t # ts" using Cons.prems t by auto
    moreover have "wrap79 line = [line]" using Cons.prems(1) by simp
    ultimately show ?thesis
      using Cons.IH [of "[]" t ts "ringbuffer_put ring (line @ [NUL])"] t nl ne [of "[]"] by (simp add: console_char_def)
  next
    case full
    then have "s = c # t" "ss = ts" using Cons.prems t by auto
    moreover have "wrap79 (line @ c # t) = (line @ [c]) # wrap79 t" using full by (subst wrap79.simps) simp
    ultimately show ?thesis
      using Cons.IH [of "[]" t ts "ringbuffer_put ring ((line @ [c]) @ [NUL])"] t full ne [of "[]"] by (simp add: console_char_def)
  next
    case more
    then have "s = c # t" "ss = ts" using Cons.prems t by auto
    then show ?thesis using Cons.IH [of "line @ [c]" t ts ring] t more by (simp add: console_char_def)
  qed
qed

lemma segments_set: "segments msg = (s, ss) \<Longrightarrow> \<forall>x\<in>set (s # ss). set x \<subseteq> set msg"
  by (induction msg arbitrary: s ss) (fastforce split: prod.splits if_splits)+

lemma wrap79_lines: "x \<in> set (wrap79 s) \<Longrightarrow> length x \<le> 79 \<and> set x \<subseteq> set s"
proof (induction s rule: wrap79.induct)
  case (1 s)
  show ?case
  proof (cases "length s < 79")
    case True
    then show ?thesis using 1(2) by simp
  next
    case False
    then have "x = take 79 s \<or> x \<in> set (wrap79 (drop 79 s))" using 1(2) by (subst (asm) wrap79.simps) simp
    then show ?thesis using 1(1) False set_drop_subset [of 79 s] set_take_subset [of 79 s] by auto
  qed
qed

lemma console_lines_fit:
  assumes "x \<in> set (console_lines msg)"
  shows "length x \<le> 79 \<and> set x \<subseteq> set msg"
proof -
  obtain s ss where ss: "segments msg = (s, ss)" by (cases "segments msg")
  then obtain y where "y \<in> set (s # ss)" "x \<in> set (wrap79 y)"
    using assms in_set_butlastD [of x "concat (map wrap79 (s # ss))"] by (auto simp: console_lines_def Let_def split: if_splits)
  then show ?thesis using wrap79_lines [of x y] segments_set [OF ss] by blast
qed

lemma console_ring:
  defines "put \<equiv> \<lambda>b x. ringbuffer_put b (x @ [NUL])"
  shows "(let (line, ring) = fold console_char msg ([], ring0)
    in if length line > 0 then ringbuffer_put ring (line @ [NUL]) else ring) = foldl put ring0 (console_lines msg)"
proof -
  obtain s ss where ss: "segments msg = (s, ss)" by (cases "segments msg")
  define ls where "ls = concat (map wrap79 (s # ss))"
  have ne: "ls \<noteq> []" by (simp add: ls_def wrap79_ne)
  have f: "fold console_char msg ([], ring0) = (last ls, foldl put ring0 (butlast ls))"
    using console_fold [of "[]" msg s ss ring0] ss by (simp add: ls_def put_def)
  have "foldl put ring0 ls = put (foldl put ring0 (butlast ls)) (last ls)"
    using ne by (metis append_butlast_last_id foldl_Cons foldl_Nil foldl_append)
  then show ?thesis using f ss by (simp add: console_lines_def ls_def [symmetric] put_def del: concat.simps list.map)
qed


subsection \<open>The console as a log\<close>

definition rows_terminated :: "ringbuffer_tp \<Rightarrow> bool" where
  "rows_terminated ring \<longleftrightarrow> (\<forall>r. 0 \<le> r \<and> r < rb_size ring \<longrightarrow> terminated (row_ptr ring r))"

definition console_ok :: "console \<Rightarrow> bool" where
  "console_ok s \<longleftrightarrow> rb_ok (c_ring s) \<and> rb_size (c_ring s) = 24 \<and> rows_terminated (c_ring s)"

lemma rows_terminated_put:
  assumes ok: "rb_ok ring" and t: "rows_terminated ring" and x: "length x \<le> 79"
  shows "rows_terminated (ringbuffer_put ring (x @ [NUL]))"
  unfolding rows_terminated_def
proof (intro allI impI)
  let ?b = "ringbuffer_put ring (x @ [NUL])"
  fix r assume r: "0 \<le> r \<and> r < rb_size ?b"
  have p: "0 \<le> rb_tail ?b" "rb_size ?b = rb_size ring" using rb_rows_put [OF ok, of "x @ [NUL]"] by auto
  then obtain k where k: "k \<in> {1..79}" "row_ptr ring r k = NUL" using t r by (auto simp: rows_terminated_def terminated_def)
  show "terminated (row_ptr ?b r)"
  proof (cases "r = rb_tail ?b")
    case True
    then have "row_ptr ?b r (if x = [] then k else length x) = NUL" using row_ptr_put_self [of ring "x @ [NUL]"] k by auto
    moreover have "(if x = [] then k else length x) \<in> {1..79}" using k x by (simp add: Suc_le_eq)
    ultimately show ?thesis unfolding terminated_def by blast
  next
    case False
    then have "row_ptr ?b r k = NUL" using r p x k by (simp add: row_ptr_put_other)
    then show ?thesis using k unfolding terminated_def by blast
  qed
qed

lemma rows_terminated_put_many:
  "rb_ok ring \<Longrightarrow> rows_terminated ring \<Longrightarrow> \<forall>x\<in>set ls. length x \<le> 79 \<Longrightarrow> rows_terminated (foldl (\<lambda>b x. ringbuffer_put b (x @ [NUL])) ring ls)"
  by (induction ls arbitrary: ring) (use rb_rows_put in \<open>auto simp: rows_terminated_put\<close>)

text \<open>A line that is not empty is shown as it is.\<close>

lemma shown_row:
  assumes "terminated (row_ptr ring r)" "row_str ring r \<noteq> []"
  shows "shown (row_ptr ring r) = row_str ring r"
proof -
  let ?p = "row_ptr ring r"
  obtain n where n: "n < 79" "\<forall>i<n. ?p (Suc i) \<noteq> NUL" "?p (Suc n) = NUL" "shown ?p = ?p 0 # map ?p [1..<Suc n]"
    using terminated_least [OF assms(1)] by blast
  have s: "shown ?p = map ?p [0..<Suc n]" using n(4) by (simp add: upt_conv_Cons del: upt_Suc)
  have "?p 0 \<noteq> NUL" using assms(2) by (auto simp: row_str_def upt_conv_Cons)
  then have nn: "?p i \<noteq> NUL" if "i < Suc n" for i using n(2) that by (cases i) auto
  have "takeWhile (\<lambda>c. c \<noteq> NUL) (map ?p [0..<81]) = map ?p [0..<Suc n]"
    using n(1,3) nn by (intro takeWhile_line) (auto simp del: upt_Suc dest: sym)
  then show ?thesis using s by (simp add: row_str_def)
qed

lemma write_console_step:
  assumes ok: "console_ok s" and sz: "unat sz = Suc (length msg)" and buf: "\<forall>i<length msg. buf i = msg ! i" and nn: "NUL \<notin> set msg"
  defines "ring \<equiv> foldl (\<lambda>b x. ringbuffer_put b (x @ [NUL])) (c_ring s) (console_lines msg)"
  shows "\<exists>s'. write_console buf sz s = Some s' \<and> console_ok s' \<and> c_ring s' = ring
    \<and> rb_contents ring = last_n 24 (rb_contents (c_ring s) @ console_lines msg)
    \<and> c_row s' = int (length (rb_rows ring)) \<and> c_io s' = c_io (update_cursor (int (length (rb_rows ring))) 0 s)
    \<and> (\<forall>r<length (rb_rows ring). screen_line s' r = padded (shown (row_ptr ring (rb_rows ring ! r))))"
proof -
  have fit: "\<forall>x\<in>set (console_lines msg). line_ok x \<and> length x \<le> 79"
    using console_lines_fit [of _ msg] nn by (fastforce simp: line_ok_def)
  note many = rbl.put_many [of "c_ring s" "console_lines msg", folded ring_def]
  have ring: "rb_ok ring" "rb_size ring = 24" "rb_contents ring = last_n 24 (rb_contents (c_ring s) @ console_lines msg)"
    using many ok fit by (auto simp: console_ok_def)
  have rt: "rows_terminated ring" unfolding ring_def using ok fit by (intro rows_terminated_put_many) (auto simp: console_ok_def)
  have mb: "map buf [0..<unat (sz - 1)] = msg"
    using sz buf by (intro nth_equalityI) (auto simp: unat_minus_wrap)
  have f: "fold (\<lambda>i. console_char (buf i)) [0..<unat (sz - 1)] st = fold console_char msg st" for st
    unfolding mb [symmetric] by (simp add: fold_map comp_def)
  let ?ps = "map (row_ptr ring) (rb_rows ring)" and ?s = "s\<lparr>c_ring := ring, c_row := 0\<rparr>"
  have "\<forall>b\<in>set ?ps. terminated b" using rt rb_rows_range [OF ring(1)] by (auto simp: rows_terminated_def)
  then obtain s1 where s1: "fold (\<lambda>item s. Option.bind s (write_line_to_dma item)) ?ps (Some ?s) = Some s1" "c_row s1 = int (length ?ps)"
      "c_ring s1 = ring" "c_io s1 = c_io s" "\<forall>i<length ?ps. screen_line s1 i = padded (shown (?ps ! i))"
    using draw_all [of ?ps ?s 0] by auto
  have "ringbuffer_for_each ring (\<lambda>item s. Option.bind s (write_line_to_dma item)) (Some ?s) = Some (Some s1)"
    using s1(1) by (simp add: for_each_visits [OF ring(1)] visit_def fold_map comp_def)
  then have "write_console buf sz s = Some (update_cursor (c_row s1) 0 s1)"
    using console_ring [of msg "c_ring s", folded ring_def] by (simp add: write_console_def f Let_def split_beta)
  then show ?thesis using s1 ring rt
    by (intro exI [of _ "update_cursor (c_row s1) 0 s1"]) (auto simp: console_ok_def update_cursor_def screen_line_def Let_def)
qed


subsection \<open>Properties\<close>

text \<open>
  C31: The console refines the log of its last 24 lines.  From any state that satisfies the invariant,
  \<open>write_console\<close> of a NUL-free text returns, keeps the invariant, and leaves in the ring buffer the last 24
  lines of what was there followed by the lines of the text (cut at newlines and after 79 characters); row
  \<open>r\<close> of the screen shows the \<open>r\<close>-th of them padded with blanks, provided it is not empty, and the cursor is
  put on the row after the last one.
\<close>

theorem write_console_refines:
  assumes "console_ok s" "unat sz = Suc (length msg)" "\<forall>i<length msg. buf i = msg ! i" "NUL \<notin> set msg"
  shows "\<exists>s' ls. write_console buf sz s = Some s' \<and> console_ok s' \<and> ls = rb_contents (c_ring s')
    \<and> ls = last_n 24 (rb_contents (c_ring s) @ console_lines msg)
    \<and> c_row s' = int (length ls) \<and> c_io s' = c_io (update_cursor (int (length ls)) 0 s)
    \<and> (\<forall>r<length ls. ls ! r \<noteq> [] \<longrightarrow> screen_line s' r = padded (ls ! r))"
proof -
  obtain s' where s': "write_console buf sz s = Some s'" "console_ok s'"
      "rb_contents (c_ring s') = last_n 24 (rb_contents (c_ring s) @ console_lines msg)"
      "c_row s' = int (length (rb_rows (c_ring s')))" "c_io s' = c_io (update_cursor (int (length (rb_rows (c_ring s')))) 0 s)"
      and lines: "\<forall>r<length (rb_rows (c_ring s')). screen_line s' r = padded (shown (row_ptr (c_ring s') (rb_rows (c_ring s') ! r)))"
    using write_console_step [OF assms] by metis
  have ok: "rb_ok (c_ring s')" "rows_terminated (c_ring s')" using s'(2) by (auto simp: console_ok_def)
  have "screen_line s' r = padded (rb_contents (c_ring s') ! r)"
    if "r < length (rb_contents (c_ring s'))" "rb_contents (c_ring s') ! r \<noteq> []" for r
    using that lines shown_row [of "c_ring s'" "rb_rows (c_ring s') ! r"] ok rb_rows_range [OF ok(1), of "rb_rows (c_ring s') ! r"]
    by (simp add: rb_contents_def rows_terminated_def)
  moreover have len: "length (rb_rows (c_ring s')) = length (rb_contents (c_ring s'))" by (simp add: rb_contents_def)
  ultimately show ?thesis using s' [unfolded len] by blast
qed

definition console0 :: console where
  "console0 = vga_console_init \<lparr>c_row = 0, c_video = (\<lambda>_. NUL),
     c_ring = \<lparr>rb_head = 0, rb_tail = 0, rb_size = 24, rb_data = (\<lambda>_. NUL)\<rparr>,
     c_io = \<lparr>io_out = [], io_in = (\<lambda>_ _. 0), io_reads = 0, io_if = False, io_log = []\<rparr>\<rparr>"

lemma console0_ok: "console_ok console0" "rb_contents (c_ring console0) = []"
  by (auto simp: console0_def vga_console_init_def clear_console_def update_cursor_def ringbuffer_init_def Let_def console_ok_def
      rb_ok_def rows_terminated_def terminated_def row_ptr_def rb_contents_def rb_rows_def)

theorem write_console_refines_witness:
  "\<exists>s'. write_console (\<lambda>i. ''ab\<newline>c'' ! i) 5 console0 = Some s' \<and> rb_contents (c_ring s') = [''ab'', ''c'']
    \<and> screen_line s' 1 = padded ''c''"
proof -
  define msg :: string where "msg = ''ab\<newline>c''"
  have l: "console_lines msg = [''ab'', ''c'']" by (simp add: console_lines_def msg_def)
  have m: "unat (5 :: u64) = Suc (length msg)" "NUL \<notin> set msg" by (simp_all add: msg_def)
  have "\<exists>s' ls. write_console (\<lambda>i. msg ! i) 5 console0 = Some s' \<and> console_ok s' \<and> ls = rb_contents (c_ring s')
    \<and> ls = last_n 24 (rb_contents (c_ring console0) @ console_lines msg)
    \<and> c_row s' = int (length ls) \<and> c_io s' = c_io (update_cursor (int (length ls)) 0 console0)
    \<and> (\<forall>r<length ls. ls ! r \<noteq> [] \<longrightarrow> screen_line s' r = padded (ls ! r))"
    using console0_ok(1) m(1) allI [of "\<lambda>i. i < length msg \<longrightarrow> msg ! i = msg ! i"] m(2) by (intro write_console_refines) auto
  moreover have "last_n 24 (rb_contents (c_ring console0) @ console_lines msg) = [''ab'', ''c'']"
    by (simp add: console0_ok l last_n_def)
  ultimately obtain s' where "write_console (\<lambda>i. msg ! i) 5 console0 = Some s'" "rb_contents (c_ring s') = [''ab'', ''c'']"
      "\<forall>r<length [''ab'', ''c'']. [''ab'', ''c''] ! r \<noteq> [] \<longrightarrow> screen_line s' r = padded ([''ab'', ''c''] ! r)" by metis
  moreover from this(3) [rule_format, of 1] have "screen_line s' 1 = padded ''c''" by simp
  ultimately show ?thesis unfolding msg_def by blast
qed

text \<open>
  C32: An empty line shows what is left of an older one.  When the buffer is full and its oldest line \<open>h\<close> has at
  least two characters, writing a single newline returns and stores an empty line, but row 23 of the screen
  shows a NUL followed by the rest of \<open>h\<close>: the loop of \<open>write_line_to_dma\<close> tests the character after the one
  it has written.
\<close>

theorem write_console_empty_line:
  assumes "console_ok s" "rb_contents (c_ring s) = h # hs" "length hs = 23" "2 \<le> length h"
  shows "\<exists>s'. write_console (\<lambda>i. CHR 0x0A) 2 s = Some s' \<and> rb_contents (c_ring s') = hs @ [[]]
    \<and> screen_line s' 23 = padded (NUL # tl h)"
proof -
  have l: "console_lines [CHR 0x0A] = [[]]" by (simp add: console_lines_def)
  define ring where "ring = ringbuffer_put (c_ring s) [NUL]"
  obtain s' where s': "write_console (\<lambda>i. CHR 0x0A) 2 s = Some s'" "c_ring s' = ring" "rb_contents ring = hs @ [[]]"
      "\<forall>r<length (rb_rows ring). screen_line s' r = padded (shown (row_ptr ring (rb_rows ring ! r)))"
    using write_console_step [of s 2 "[CHR 0x0A]" "\<lambda>i. CHR 0x0A"] assms l by (auto simp: last_n_def ring_def)
  obtain t ts where ts: "rb_rows (c_ring s) = t # ts" "row_str (c_ring s) t = h" "length ts = 23"
    using assms(2,3) by (auto simp: rb_contents_def)
  have ok: "rb_ok (c_ring s)" "rb_size (c_ring s) = 24" "terminated (row_ptr (c_ring s) t)"
    using assms(1) ts rb_rows_range [of "c_ring s" t] by (auto simp: console_ok_def rows_terminated_def)
  have tail: "rb_tail ring = t" unfolding ring_def using put_full_tail [OF ok(1)] ok(2) ts by simp
  have rows: "rb_rows ring = ts @ [t]" using rb_rows_put [OF ok(1), of "[NUL]"] ok(2) ts tail by (simp add: ring_def)
  have "row_ptr ring t k = (if k = 0 then NUL else row_ptr (c_ring s) t k)" for k
    using row_ptr_put_self [of "c_ring s" "[NUL]" k] tail by (simp add: ring_def)
  then have "map (row_ptr ring t) [1..<80] = map (row_ptr (c_ring s) t) [1..<80]" "row_ptr ring t 0 = NUL" by auto
  then have "shown (row_ptr ring t) = NUL # tl (shown (row_ptr (c_ring s) t))" by (simp only: shown_def list.sel)
  also have "shown (row_ptr (c_ring s) t) = h"
    using shown_row [OF ok(3)] unfolding ts(2) using assms(4) by (cases h) auto
  finally show ?thesis using s' rows ts(3) by (intro exI [of _ s']) (simp add: nth_append)
qed

definition console_full :: console where
  "console_full = console0\<lparr>c_ring := \<lparr>rb_head = 0, rb_tail = 23, rb_size = 24,
     rb_data = (\<lambda>i. if i mod 81 = 3 then NUL else CHR ''x'')\<rparr>\<rparr>"

lemma console_full_row: "row_ptr (c_ring console_full) r k = (if k mod 81 = 3 then NUL else CHR ''x'')"
  by (simp add: row_ptr_def console_full_def row_start_def)

theorem write_console_empty_line_witness:
  "\<exists>s'. write_console (\<lambda>i. CHR 0x0A) 2 console_full = Some s' \<and> screen_line s' 23 = padded [NUL, CHR ''x'', CHR ''x'']"
proof -
  have size: "rb_head (c_ring console_full) = 0" "rb_tail (c_ring console_full) = 23" "rb_size (c_ring console_full) = 24"
    by (simp_all add: console_full_def)
  have "row_ptr (c_ring console_full) r 3 = NUL" for r by (simp add: console_full_row)
  then have "terminated (row_ptr (c_ring console_full) r)" for r unfolding terminated_def by (intro bexI [of _ 3]) auto
  then have ok: "console_ok console_full" using size by (simp add: console_ok_def rb_ok_def rows_terminated_def)
  have "row_str (c_ring console_full) r = ''xxx''" for r
    unfolding row_str_def by (rule takeWhile_line) (auto simp: console_full_row less_Suc_eq)
  then have "rb_contents (c_ring console_full) = map (\<lambda>_. ''xxx'') [0..23]" by (simp add: rb_contents_def rb_rows_def size)
  then have "rb_contents (c_ring console_full) = ''xxx'' # replicate 23 ''xxx''"
    by (simp add: map_replicate_const flip: replicate_Suc)
  then show ?thesis using write_console_empty_line [OF ok, of "''xxx''" "replicate 23 ''xxx''"] by auto
qed

end
