(* ===== verification/Printk.thy ===== *)
theory Printk
  imports Serial Vga_Console
begin

text \<open>
  The kernel log of src/kernel/lib/printk.c: formatting into the static buffer, then the console, then the
  serial line.  The result is \<open>None\<close> when the call does not return (the serial device never becomes ready) and
  a fault when the arguments do not fit the format.  It is also a fault when the count of \<open>vsnprintf\<close> is beyond the
  1024 bytes of the static buffer: then a character was stored behind the array, or \<open>write_console\<close> would read from
  there, and what the objects placed behind it become is not defined by the source.
\<close>

record terminal =
  t_level :: u8
  t_mem :: bmem
  t_buffer :: addr
  t_serial :: bool
  t_console :: console

definition printk :: "u8 \<Rightarrow> string \<Rightarrow> va_slot list \<Rightarrow> terminal \<Rightarrow> terminal kres option" where
  "printk level fmt args t =
     (if level > t_level t then Some (Inr t)
      else
        let buffer_size = 1024;
            m = fst (memset (t_mem t) (t_buffer t) NUL buffer_size)
        in case vsnprintf m (t_buffer t) (buffer_size - 1) fmt args of
             Inl e \<Rightarrow> Some (Inl e)
           | Inr (m, buf_pointer) \<Rightarrow>
               if buf_pointer > buffer_size then Some (Inl (Undefined ''printk'')) else
               let buffer = (\<lambda>i. m (t_buffer t + of_nat i))
               in case write_console buffer (buf_pointer + 1) (t_console t) of
                    None \<Rightarrow> None
                  | Some c \<Rightarrow>
                      (case write_string_serial (t_serial t) buffer buf_pointer (c_io c) of
                         None \<Rightarrow> None
                       | Some io \<Rightarrow> Some (Inr (t\<lparr>t_mem := m, t_console := c\<lparr>c_io := io\<rparr>\<rparr>))))"

definition printk_init :: "u8 \<Rightarrow> terminal \<Rightarrow> terminal kres option" where
  "printk_init level t =
     (if level > 3 then
        obind (printk 0 ''Debug level doesn't exist, setting PRINTK_INFO_LEVEL'' [] t) (\<lambda>t. Some (Inr (t\<lparr>t_level := 1\<rparr>)))
      else Some (Inr (t\<lparr>t_level := level\<rparr>)))"

subsection \<open>Properties\<close>

definition sent :: "console \<Rightarrow> (u16 \<times> u8) list" where
  "sent c = filter (\<lambda>(p, v). p = 0x3f8) (io_out (c_io c))"

definition printable :: "string \<Rightarrow> bool" where
  "printable s \<longleftrightarrow> plain s \<and> length s \<le> 1024"

lemma cursor_io:
  "\<exists>ws. c_io (update_cursor r c s) = (c_io s)\<lparr>io_out := io_out (c_io s) @ ws\<rparr> \<and> (\<forall>(p, v)\<in>set ws. p \<noteq> 0x3f8)"
proof -
  have u: "c_io (s\<lparr>c_io := x\<rparr>) = x" for x by simp
  have "\<exists>lo hi. c_io (update_cursor r c s) =
      outb (UNSAFE_VA 0x3D5) hi (outb (UNSAFE_VA 0x3D4) 0x0E (outb (UNSAFE_VA 0x3D5) lo (outb (UNSAFE_VA 0x3D4) 0x0F (c_io s))))"
    unfolding update_cursor_def Let_def u by blast
  then obtain lo hi where "c_io (update_cursor r c s) = (c_io s)\<lparr>io_out := io_out (c_io s) @ [(0x3D4, 0x0F), (0x3D5, lo), (0x3D4, 0x0E), (0x3D5, hi)]\<rparr>"
    by (auto simp: outb_def)
  then show ?thesis by (intro exI conjI) auto
qed

lemma printk_writes:
  assumes lv: "level \<le> t_level t" and ok: "console_ok (t_console t)" and s: "t_serial t" and tr: "transmits (c_io (t_console t))"
    and p: "printable fmt"
  shows "\<exists>t'. printk level fmt args t = Some (Inr t') \<and> console_ok (t_console t') \<and> t_level t' = t_level t \<and> t_serial t'
    \<and> rb_contents (c_ring (t_console t')) = last_n 24 (rb_contents (c_ring (t_console t)) @ console_lines fmt)
    \<and> sent (t_console t') = sent (t_console t) @ map (\<lambda>c. (0x3f8, of_char c)) (fmt @ [CHR 0x0A])"
proof -
  define m0 where "m0 = fst (memset (t_mem t) (t_buffer t) NUL 1024)"
  define m where "m = blit m0 (t_buffer t) fmt"
  define buf where "buf = (\<lambda>i. m (t_buffer t + of_nat i))"
  have len: "length fmt < 2 ^ 64" "unat (of_nat (length fmt) + 1 :: u64) = Suc (length fmt)" "unat (of_nat (length fmt) :: u64) = length fmt"
    using p by (auto simp: printable_def unat_of_nat_small unat_word_ariths)
  have fits: "\<not> of_nat (length fmt) > (1024 :: u64)" using p len(3) by (simp add: word_less_nat_alt printable_def)
  have v: "vsnprintf m0 (t_buffer t) (1024 - 1) fmt args = Inr (m, of_nat (length fmt))"
    using vsnprintf_loop_plain [of fmt m0 "t_buffer t" "1024 - 1" 0 args] p len(1)
    by (simp add: printable_def vsnprintf_def m_def c_str_id plain_no_NUL)
  have bufs: "\<forall>i<length fmt. buf i = fmt ! i"
    using len(1) by (auto simp: buf_def m_def blit_def unat_of_nat_small)
  have nn: "NUL \<notin> set fmt" using p by (auto simp: printable_def plain_def)
  obtain c where c: "write_console buf (of_nat (length fmt) + 1) (t_console t) = Some c" "console_ok c"
      "rb_contents (c_ring c) = last_n 24 (rb_contents (c_ring (t_console t)) @ console_lines fmt)"
      "\<exists>r. c_io c = c_io (update_cursor r 0 (t_console t))"
    using write_console_step [OF ok len(2) bufs nn] by metis
  then obtain ws where ws: "c_io c = (c_io (t_console t))\<lparr>io_out := io_out (c_io (t_console t)) @ ws\<rparr>" "\<forall>(p, v)\<in>set ws. p \<noteq> 0x3f8"
    using cursor_io by metis
  have "transmits (c_io c)" using tr ws by (simp add: transmits_def)
  then obtain k where k: "write_string_serial True buf (of_nat (length fmt)) (c_io c) =
      Some ((c_io c)\<lparr>io_reads := k, io_out := io_out (c_io c) @ map (\<lambda>c. (0x3f8, of_char c)) (map buf [0..<length fmt] @ [CHR 0x0A])\<rparr>)"
    using write_string_sends [of "c_io c" buf "of_nat (length fmt)"] len(3) by auto
  have "map buf [0..<length fmt] = fmt" using bufs by (intro nth_equalityI) auto
  moreover have "filter (\<lambda>(p, v). p = 0x3f8) ws = []" using ws(2) by (auto simp: filter_empty_conv)
  ultimately have "sent (c\<lparr>c_io := (c_io c)\<lparr>io_reads := k, io_out := io_out (c_io c) @ map (\<lambda>c. (0x3f8, of_char c)) (map buf [0..<length fmt] @ [CHR 0x0A])\<rparr>\<rparr>)
      = sent (t_console t) @ map (\<lambda>c. (0x3f8, of_char c)) (fmt @ [CHR 0x0A])"
    using ws(1) by (simp add: sent_def filter_map comp_def)
  moreover have "\<not> t_level t < level" using lv by (simp add: not_less)
  ultimately show ?thesis
    using s c(1-3) k v fits by (simp add: printk_def m0_def [symmetric] buf_def [symmetric] Let_def console_ok_def)
qed

text \<open>
  C33: A message without conversions that fits in the static buffer, of at most 1024 characters, reaches both outputs.  When its level is enabled and the serial device keeps
  becoming ready, \<open>printk\<close> returns, the console stands for the last 24 lines of its contents followed by the
  lines of the message, and exactly the characters of the message and a newline go to the serial line, in order.
\<close>

theorem printk_message:
  assumes "level \<le> t_level t" "console_ok (t_console t)" "t_serial t" "transmits (c_io (t_console t))" "printable fmt"
  shows "\<exists>t'. printk level fmt args t = Some (Inr t') \<and> console_ok (t_console t')
    \<and> rb_contents (c_ring (t_console t')) = last_n 24 (rb_contents (c_ring (t_console t)) @ console_lines fmt)
    \<and> sent (t_console t') = sent (t_console t) @ map (\<lambda>c. (0x3f8, of_char c)) (fmt @ [CHR 0x0A])"
  using printk_writes [OF assms] by blast

definition terminal0 :: terminal where
  "terminal0 = \<lparr>t_level = 1, t_mem = (\<lambda>_. NUL), t_buffer = 4096, t_serial = True,
     t_console = console0\<lparr>c_io := (c_io console0)\<lparr>io_in := (\<lambda>n _. if even n then 0x20 else 0)\<rparr>\<rparr>\<rparr>"

theorem printk_message_witness:
  "\<exists>t'. printk 1 ''hi'' [] terminal0 = Some (Inr t') \<and> rb_contents (c_ring (t_console t')) = [''hi'']
    \<and> sent (t_console t') = [(0x3f8, 104), (0x3f8, 105), (0x3f8, 10)]"
proof -
  have "transmits (c_io (t_console terminal0))"
    unfolding transmits_def terminal0_def 
  proof
    fix n :: nat
    show "\<exists>m\<ge>n. io_in (c_io (t_console \<lparr>t_level = 1, t_mem = (\<lambda>_. NUL), t_buffer = 4096, t_serial = True,
       t_console = console0\<lparr>c_io := (c_io console0)\<lparr>io_in := (\<lambda>n _. if even n then 0x20 else 0)\<rparr>\<rparr>\<rparr>)) m 0x3fd AND 0x20 \<noteq> 0"
      by (intro exI [of _ "2 * n"]) simp
  qed
  moreover have "sent (t_console terminal0) = []"
    by (simp add: sent_def terminal0_def console0_def vga_console_init_def clear_console_def update_cursor_def Let_def)
  moreover have "console_lines ''hi'' = [''hi'']" by (simp add: console_lines_def)
  ultimately show ?thesis
    using printk_message [of 1 terminal0 "''hi''" "[]"] console0_ok
    by (auto simp: terminal0_def console_ok_def printable_def plain_def last_n_def)
qed

text \<open>C38: An enabled message without conversions of more than 1024 characters does not fit: \<open>vsnprintf\<close> is given the size
  of the static buffer but stores the whole message, so that \<open>printk\<close> leaves the buffer.\<close>

theorem printk_overflow:
  assumes "level \<le> t_level t" "plain fmt" "1024 < length fmt" "length fmt < 2 ^ 64"
  shows "printk level fmt args t = Some (Inl (Undefined ''printk''))"
proof -
  have "vsnprintf m (t_buffer t) (1024 - 1) fmt args = Inr (blit m (t_buffer t) fmt, of_nat (length fmt))" for m
    using vsnprintf_loop_plain [OF assms(2,4), of m "t_buffer t" "1024 - 1" 0 args]
    by (simp add: vsnprintf_def c_str_id plain_no_NUL [OF assms(2)])
  moreover have "of_nat (length fmt) > (1024 :: u64)" using assms(3,4) by (simp add: word_less_nat_alt unat_of_nat_small)
  moreover have "\<not> t_level t < level" using assms(1) by (simp add: not_less)
  ultimately show ?thesis by (simp add: printk_def Let_def)
qed

theorem printk_overflow_witness: "printk 1 (replicate 1025 CHR ''a'') [] terminal0 = Some (Inl (Undefined ''printk''))"
  using printk_overflow [of 1 terminal0 "replicate 1025 CHR ''a''" "[]"] by (simp add: terminal0_def plain_def)

end
