(* ===== verification/Irq_Devices.thy ===== *)
theory Irq_Devices
  imports Port_IO
begin

unbundle bit_operations_syntax

text \<open>
  The interrupt controller of src/kernel/arch/pic.c and the devices that use it: the timer chip of
  src/kernel/arch/pit.c (not its handler, which calls the scheduler), the keyboard of src/kernel/device/keyboard.c
  and the spurious interrupt of src/kernel/interrupt/spurious.c.  What the chips answer is the input of the
  state; the lemmas say what is written to which port.
\<close>

subsection \<open>Interrupt controller\<close>

definition PIC1_COMMAND :: u64 where "PIC1_COMMAND = UNSAFE_VA 0x20"
definition PIC1_DATA :: u64 where "PIC1_DATA = UNSAFE_VA (0x20 + 1)"
definition PIC2_COMMAND :: u64 where "PIC2_COMMAND = UNSAFE_VA 0xA0"
definition PIC2_DATA :: u64 where "PIC2_DATA = UNSAFE_VA (0xA0 + 1)"

definition PIC_EOI :: u8 where "PIC_EOI = 0x20"
definition PIC_READ_ISR :: u8 where "PIC_READ_ISR = 0x0b"

text \<open>\<open>ICW1_INIT | ICW1_CALLADDR_4 | ICW1_ICW4_NEEDED\<close> as the macros expand.\<close>

definition ICW1 :: u8 where "ICW1 = push_bit 8 0 OR push_bit 4 1 OR push_bit 2 1 OR 1"

definition pic_disable_all_irq :: "io_state \<Rightarrow> io_state" where
  "pic_disable_all_irq s = outb PIC2_DATA 0xff (outb PIC1_DATA 0xff s)"

definition pic_init :: "io_state \<Rightarrow> io_state" where
  "pic_init s =
     (let s = outb PIC1_COMMAND ICW1 s;
          s = outb PIC2_COMMAND ICW1 s;
          s = outb PIC1_DATA 32 s;
          s = outb PIC2_DATA 40 s;
          s = outb PIC1_DATA 4 s;
          s = outb PIC2_DATA 2 s;
          s = outb PIC1_DATA 1 s;
          s = outb PIC2_DATA 1 s;
          s = pic_disable_all_irq s
      in printk_info ''PIC initialised'' [] s)"

definition pic_send_eoi :: "u8 \<Rightarrow> io_state \<Rightarrow> io_state" where
  "pic_send_eoi isa_irq s =
     (let s = (if isa_irq \<ge> 8 then outb PIC2_COMMAND PIC_EOI s else s)
      in outb PIC1_COMMAND PIC_EOI s)"

definition pic_unmask_irq :: "u8 \<Rightarrow> io_state \<Rightarrow> io_state" where
  "pic_unmask_irq isa_irq s =
     (let (pic_selector, isa_irq) = (if isa_irq < 8 then (PIC1_DATA, isa_irq) else (PIC2_DATA, isa_irq - 8));
          (v, s) = inb pic_selector s;
          s = printk_debug ''PIC Addr: 0x%x mask state: %u\<newline>'' [Va_int pic_selector, Va_int (ucast v)] s
      in if test_bit isa_irq (ucast v) then
           (let v = (ucast (clear_bit isa_irq (ucast v)) :: u8);
                s = printk_debug ''PIC Addr: 0x%x new mask State: %u\<newline>'' [Va_int pic_selector, Va_int (ucast v)] s;
                s = outb pic_selector v s
            in printk_debug ''IRQ %u unmasked\<newline>'' [Va_int (ucast isa_irq)] s)
         else s)"

definition pic_mask_irq :: "u8 \<Rightarrow> io_state \<Rightarrow> io_state" where
  "pic_mask_irq isa_irq s =
     (let (pic_selector, isa_irq) = (if isa_irq < 8 then (PIC1_DATA, isa_irq) else (PIC2_DATA, isa_irq - 8));
          (v, s) = inb pic_selector s;
          s = printk_debug ''PIC Addr: 0x%x mask state: %u\<newline>'' [Va_int pic_selector, Va_int (ucast v)] s
      in if \<not> test_bit isa_irq (ucast v) then
           (let v = (ucast (set_bit_u64 isa_irq (ucast v)) :: u8);
                s = printk_debug ''PIC Addr: 0x%x new mask State: %u\<newline>'' [Va_int pic_selector, Va_int (ucast v)] s;
                s = outb pic_selector v s
            in printk_debug ''IRQ %u masked\<newline>'' [Va_int (ucast isa_irq)] s)
         else s)"

text \<open>The operands of \<open>|\<close> are read from left to right here; C leaves the order of the two reads open.\<close>

definition pic_get_irq_reg :: "u8 \<Rightarrow> io_state \<Rightarrow> u16 \<times> io_state" where
  "pic_get_irq_reg ocw3 s =
     (let s = outb PIC1_COMMAND ocw3 s;
          s = outb PIC2_COMMAND ocw3 s;
          (hi, s) = inb PIC2_COMMAND s;
          (lo, s) = inb PIC1_COMMAND s
      in (push_bit 8 (ucast hi) OR ucast lo, s))"

definition pic_read_isr :: "io_state \<Rightarrow> u16 \<times> io_state" where
  "pic_read_isr s = pic_get_irq_reg PIC_READ_ISR s"

subsection \<open>Timer chip\<close>

definition PIT_CHANNEL_0_DATA_PORT :: u64 where "PIT_CHANNEL_0_DATA_PORT = UNSAFE_VA 0x40"
definition PIT_MODE_CMD_REG :: u64 where "PIT_MODE_CMD_REG = UNSAFE_VA 0x43"
definition PIT_CHIP_FREQ :: u32 where "PIT_CHIP_FREQ = 1193182"

definition pit_init :: "u32 \<Rightarrow> io_state \<Rightarrow> io_state" where
  "pit_init freq_hz s =
     (let s = outb PIT_MODE_CMD_REG (push_bit 4 3 OR push_bit 2 1 OR 0) s;
          (freq_hz, s) =
            (if freq_hz < 19 then
               (19, printk_error ''PIT desired frequency can't smaller then 19 Hz, using %lu instead'' [Va_int 19] s)
             else if freq_hz > PIT_CHIP_FREQ then
               (PIT_CHIP_FREQ, printk_error ''PIT desired frequency %lu is too high, using %lu instead''
                  [Va_int (ucast freq_hz), Va_int (ucast PIT_CHIP_FREQ)] s)
             else (freq_hz, s));
          divider = (ucast (PIT_CHIP_FREQ div freq_hz) :: u16);
          s = outb PIT_CHANNEL_0_DATA_PORT (ucast (divider AND 0xFF)) s;
          s = outb PIT_CHANNEL_0_DATA_PORT (ucast (drop_bit 8 (divider AND 0xFF00))) s
      in printk_info ''PIT initiated'' [] s)"

definition PIC_PROG_INT_TIMER_INTERRUPT :: u8 where "PIC_PROG_INT_TIMER_INTERRUPT = 0"

definition pit_enable :: "io_state \<Rightarrow> io_state" where
  "pit_enable s =
     (let s = disable_interrupts s;
          s = pic_unmask_irq PIC_PROG_INT_TIMER_INTERRUPT s;
          s = printk_info ''PIT IRQ enabled'' [] s
      in enable_interrupts s)"

subsection \<open>Keyboard and spurious interrupt\<close>

definition PIC_KEYBOARD_INTERRUPT :: u8 where "PIC_KEYBOARD_INTERRUPT = 1"

definition keyboard_enable :: "io_state \<Rightarrow> io_state" where
  "keyboard_enable s =
     (let s = disable_interrupts s;
          s = pic_unmask_irq PIC_KEYBOARD_INTERRUPT s;
          s = enable_interrupts s
      in printk_info ''Keyboard IRQ enabled'' [] s)"

definition keyboard_handle_irq :: "io_state \<Rightarrow> io_state" where
  "keyboard_handle_irq s =
     (let (scan_code, s) = inb 0x60 s;
          event = (if \<not> test_bit 7 (ucast scan_code) then ''pressed'' else ''released'');
          s = printk_info ''Keyboard %s %u'' [Va_str event, Va_int (ucast scan_code)] s
      in pic_send_eoi PIC_KEYBOARD_INTERRUPT s)"

definition PIC_LPT1_OR_SPURIOUS_INTERRUPT :: u8 where "PIC_LPT1_OR_SPURIOUS_INTERRUPT = 7"

definition spurious_irq_enable :: "io_state \<Rightarrow> io_state" where
  "spurious_irq_enable s =
     (let s = disable_interrupts s;
          s = pic_unmask_irq PIC_LPT1_OR_SPURIOUS_INTERRUPT s;
          s = enable_interrupts s
      in printk_info ''Spurious IRQ enabled'' [] s)"

definition spurious_handle_irq :: "io_state \<Rightarrow> io_state" where
  "spurious_handle_irq s =
     (let s = printk_info ''Spurious irq happened'' [] s;
          (isr, s) = pic_read_isr s
      in if test_bit 7 (ucast isr) then pic_send_eoi PIC_LPT1_OR_SPURIOUS_INTERRUPT s else s)"

subsection \<open>What reaches the chips\<close>

lemma pic_ports [simp]:
  "(ucast PIC1_COMMAND :: u16) = 0x20" "(ucast PIC1_DATA :: u16) = 0x21"
  "(ucast PIC2_COMMAND :: u16) = 0xa0" "(ucast PIC2_DATA :: u16) = 0xa1"
  "(ucast PIT_CHANNEL_0_DATA_PORT :: u16) = 0x40" "(ucast PIT_MODE_CMD_REG :: u16) = 0x43"
  by (simp_all add: PIC1_COMMAND_def PIC1_DATA_def PIC2_COMMAND_def PIC2_DATA_def PIT_CHANNEL_0_DATA_PORT_def PIT_MODE_CMD_REG_def)

definition data_port :: "nat \<Rightarrow> u16" where "data_port irq = (if irq < 8 then 0x21 else 0xa1)"

text \<open>The mask a controller holds after the writes \<open>ws\<close>, if it held \<open>m\<close> before.\<close>

definition mask_after :: "u16 \<Rightarrow> u8 \<Rightarrow> (u16 \<times> u8) list \<Rightarrow> u8" where
  "mask_after port m ws = foldl (\<lambda>m (p, v). if p = port then v else m) m ws"

lemma irq_split:
  assumes "irq < 16"
  shows "(if (of_nat irq :: u8) < 8 then (PIC1_DATA, of_nat irq) else (PIC2_DATA, of_nat irq - 8))
    = (if irq < 8 then PIC1_DATA else PIC2_DATA, of_nat (irq mod 8) :: u8)"
proof -
  have u: "unat (of_nat irq :: u8) = irq" using assms by (simp add: unat_of_nat take_bit_eq_mod)
  have "(of_nat irq - 8 :: u8) = of_nat (irq - 8)" if "8 \<le> irq" using that by (simp add: of_nat_diff)
  moreover have "irq mod 8 = irq - 8" if "8 \<le> irq" using that assms by (simp add: mod_if)
  ultimately show ?thesis by (simp add: word_less_nat_alt u)
qed

lemma unat_bit_no: "unat (of_nat (irq mod 8) :: u8) = irq mod 8"
  using mod_less_divisor [of 8 irq] by (simp add: unat_of_nat take_bit_eq_mod)

lemma bit_u8_up: "bit (ucast (v :: u8) :: u64) n = bit v n"
  by (auto simp: bit_simps dest: bit_imp_le_length)

lemma pic_unmask_writes:
  assumes "irq < 16"
  shows "\<exists>ws. io_out (pic_unmask_irq (of_nat irq) s) = io_out s @ ws \<and> (\<forall>(p, v)\<in>set ws. p = data_port irq)
    \<and> (\<forall>n<8. bit (mask_after (data_port irq) (io_in s (io_reads s) (data_port irq)) ws) n
         = (n \<noteq> irq mod 8 \<and> bit (io_in s (io_reads s) (data_port irq)) n))"
proof -
  let ?m = "io_in s (io_reads s) (data_port irq)" and ?b = "of_nat (irq mod 8) :: u8"
  have p: "ucast (if irq < 8 then PIC1_DATA else PIC2_DATA) = data_port irq" by (simp add: data_port_def)
  have "bit (ucast (clear_bit ?b (ucast ?m)) :: u8) n = (n \<noteq> irq mod 8 \<and> bit ?m n)" if "n < 8" for n
    using that by (simp add: bit_ucast_iff bit_clear_bit unat_bit_no bit_u8_up)
  moreover have "io_out (pic_unmask_irq (of_nat irq) s) = io_out s @
      (if bit ?m (irq mod 8) then [(data_port irq, ucast (clear_bit ?b (ucast ?m)))] else [])"
    by (simp add: pic_unmask_irq_def irq_split [OF assms] Let_def split_beta p test_bit_iff unat_bit_no bit_u8_up del: if_split)
  ultimately show ?thesis
    by (intro exI [of _ "if bit ?m (irq mod 8) then [(data_port irq, ucast (clear_bit ?b (ucast ?m)))] else []"])
      (auto simp: mask_after_def)
qed

lemma pic_mask_writes:
  assumes "irq < 16"
  shows "\<exists>ws. io_out (pic_mask_irq (of_nat irq) s) = io_out s @ ws \<and> (\<forall>(p, v)\<in>set ws. p = data_port irq)
    \<and> (\<forall>n<8. bit (mask_after (data_port irq) (io_in s (io_reads s) (data_port irq)) ws) n
         = (n = irq mod 8 \<or> bit (io_in s (io_reads s) (data_port irq)) n))"
proof -
  let ?m = "io_in s (io_reads s) (data_port irq)" and ?b = "of_nat (irq mod 8) :: u8"
  have p: "ucast (if irq < 8 then PIC1_DATA else PIC2_DATA) = data_port irq" by (simp add: data_port_def)
  have "bit (ucast (set_bit_u64 ?b (ucast ?m)) :: u8) n = (n = irq mod 8 \<or> bit ?m n)" if "n < 8" for n
    using that by (simp add: bit_ucast_iff bit_set_bit unat_bit_no bit_u8_up)
  moreover have "io_out (pic_mask_irq (of_nat irq) s) = io_out s @
      (if bit ?m (irq mod 8) then [] else [(data_port irq, ucast (set_bit_u64 ?b (ucast ?m)))])"
    by (simp add: pic_mask_irq_def irq_split [OF assms] Let_def split_beta p test_bit_iff unat_bit_no bit_u8_up del: if_split)
  ultimately show ?thesis
    by (intro exI [of _ "if bit ?m (irq mod 8) then [] else [(data_port irq, ucast (set_bit_u64 ?b (ucast ?m)))]"])
      (auto simp: mask_after_def)
qed

text \<open>
  C34: Masking and unmasking touch one line only.  For each of the 16 interrupt lines, with \<open>m\<close> the mask read from
  the controller of the line, \<open>pic_unmask_irq\<close> and \<open>pic_mask_irq\<close> write to the data port of that controller
  only, and leave it with the mask \<open>m\<close> in which exactly the bit of the line is cleared, respectively set.
\<close>

theorem pic_mask_unmask_correct:
  assumes "irq < 16" "m = io_in s (io_reads s) (data_port irq)"
  shows "\<exists>us ms. io_out (pic_unmask_irq (of_nat irq) s) = io_out s @ us \<and> io_out (pic_mask_irq (of_nat irq) s) = io_out s @ ms
    \<and> (\<forall>(p, v)\<in>set us \<union> set ms. p = data_port irq)
    \<and> (\<forall>n<8. bit (mask_after (data_port irq) m us) n = (n \<noteq> irq mod 8 \<and> bit m n))
    \<and> (\<forall>n<8. bit (mask_after (data_port irq) m ms) n = (n = irq mod 8 \<or> bit m n))"
proof -
  obtain us where "io_out (pic_unmask_irq (of_nat irq) s) = io_out s @ us" "\<forall>(p, v)\<in>set us. p = data_port irq"
      "\<forall>n<8. bit (mask_after (data_port irq) m us) n = (n \<noteq> irq mod 8 \<and> bit m n)"
    using pic_unmask_writes [OF assms(1)] unfolding assms(2) by blast
  moreover obtain ms where "io_out (pic_mask_irq (of_nat irq) s) = io_out s @ ms" "\<forall>(p, v)\<in>set ms. p = data_port irq"
      "\<forall>n<8. bit (mask_after (data_port irq) m ms) n = (n = irq mod 8 \<or> bit m n)"
    using pic_mask_writes [OF assms(1)] unfolding assms(2) by blast
  ultimately show ?thesis by (intro exI [of _ us] exI [of _ ms]) blast
qed

definition io0 :: io_state where
  "io0 = \<lparr>io_out = [], io_in = (\<lambda>_ _. 0xff), io_reads = 0, io_if = False, io_log = []\<rparr>"

theorem pic_mask_unmask_correct_witness:
  "\<exists>us. io_out (pic_unmask_irq (of_nat 9) io0) = us \<and> \<not> bit (mask_after 0xa1 0xff us) 1 \<and> bit (mask_after 0xa1 0xff us) 0"
proof -
  have "data_port 9 = 0xa1" "io_in io0 (io_reads io0) (data_port 9) = 0xff" "io_out io0 = []" by (simp_all add: data_port_def io0_def)
  then obtain us where "io_out (pic_unmask_irq (of_nat 9) io0) = us"
      "\<forall>n<8. bit (mask_after 0xa1 0xff us) n = (n \<noteq> 9 mod 8 \<and> bit (0xff :: u8) n)"
    using pic_mask_unmask_correct [of 9 "0xff" io0] by auto
  then show ?thesis by (intro exI [of _ us]) (simp add: bit_numeral_rec)
qed

text \<open>
  C35: The divider of the timer chip fits its 16 bits.  For every requested frequency \<open>pit_init\<close> writes the mode
  byte and then the low and high byte of the quotient of the chip frequency by the requested one, taken as 19 Hz
  when it is lower and as the chip frequency when it is higher; the conversion to 16 bits loses nothing.
\<close>

theorem pit_init_divider:
  "\<exists>lo hi. io_out (pit_init f s) = io_out s @ [(0x43, 0x34), (0x40, lo), (0x40, hi)]
    \<and> unat lo + 256 * unat hi = 1193182 div max 19 (min (unat f) 1193182)"
proof -
  define g where "g = max 19 (min (unat f) 1193182)"
  have g: "19 \<le> g" "g \<le> 1193182" by (simp_all add: g_def)
  have gl: "g < 2 ^ 32" using g by simp
  define d where "d = (ucast (PIT_CHIP_FREQ div of_nat g) :: u16)"
  have "1193182 div g \<le> 1193182 div 19" using g by (intro div_le_mono2) auto
  then have "1193182 div g < 65536" by simp
  then have ud: "unat d = 1193182 div g"
    using gl by (simp add: d_def unsigned_ucast_eq unat_div_distrib PIT_CHIP_FREQ_def unat_of_nat take_bit_eq_mod)
  have "io_out (pit_init f s) = io_out s @ [(0x43, 0x34), (0x40, ucast (d AND 0xFF)), (0x40, ucast (drop_bit 8 (d AND 0xFF00)))]"
  proof -
    have f: "(of_nat (unat f) :: u32) = f" by simp
    have "of_nat g = (if f < 19 then 19 else if f > PIT_CHIP_FREQ then PIT_CHIP_FREQ else f)"
      by (auto simp: g_def word_less_nat_alt PIT_CHIP_FREQ_def max_def min_def)
    then show ?thesis by (auto simp: pit_init_def d_def Let_def)
  qed
  moreover have "(d AND 0xFF) = take_bit 8 d" using take_bit_eq_mask [of 8 d] by (simp add: mask_eq_exp_minus_1)
  moreover have "drop_bit 8 (d AND 0xFF00) = drop_bit 8 d"
  proof -
    have "drop_bit 8 (0xFF00 :: u16) = mask 8" by (simp add: mask_eq_exp_minus_1 drop_bit_eq_div)
    moreover have "drop_bit 8 d AND mask 8 = drop_bit 8 d"
      by (rule bit_word_eqI) (auto simp: bit_simps dest: bit_imp_le_length)
    ultimately show ?thesis by (simp add: drop_bit_and)
  qed
  moreover have "unat (ucast (take_bit 8 d) :: u8) = unat d mod 256"
    by (simp add: unsigned_ucast_eq take_bit_eq_mod unat_mod_distrib)
  moreover have "unat (ucast (drop_bit 8 d) :: u8) = unat d div 256"
  proof -
    have "unat d < 2 ^ LENGTH(16)" by (rule unsigned_less)
    then show ?thesis using drop_bit_unat_div [of 8 d] by (simp add: unsigned_ucast_eq take_bit_eq_mod)
  qed
  ultimately show ?thesis unfolding g_def [symmetric] ud [symmetric]
    by (intro exI [of _ "ucast (take_bit 8 d)"] exI [of _ "ucast (drop_bit 8 d)"]) simp
qed

end
