(* ===== verification/Rtc.thy ===== *)
theory Rtc
  imports Port_IO
begin

unbundle bit_operations_syntax

text \<open>
  The clock: the CMOS registers of src/kernel/arch/cmos.c, the conversion to Unix time of
  src/kernel/time/rtc.c, the tick counter of src/kernel/time/jiffies.c and the busy loops of
  src/kernel/time/delay.c.  The products of \<open>int\<close>s in the conversion are kept at 32 bits with wrap-around, the
  arithmetic of the machine; the conversion is compared with a calendar that counts days.
\<close>

subsection \<open>CMOS clock\<close>

record cmos_clock_t =
  cl_second :: u8
  cl_minute :: u8
  cl_hour :: u8
  cl_day :: u8
  cl_month :: u8
  cl_year :: u8

text \<open>The macro divides and multiplies \<open>int\<close>s made of a byte; the result is at most 165 and is stored in a byte.\<close>

definition BCD_TO_BIN :: "u8 \<Rightarrow> u8" where
  "BCD_TO_BIN bcd = word_of_int ((uint bcd div 16) * 10 + uint (bcd AND 0xf))"

definition cmos_read_reg :: "u8 \<Rightarrow> io_state \<Rightarrow> u8 \<times> io_state" where
  "cmos_read_reg reg s = (let reg = reg OR push_bit 7 1; s = outb 0x70 reg s in inb 0x71 s)"

partial_function (option) wait_cmos :: "io_state \<Rightarrow> io_state option" where
  "wait_cmos s = (let r = cmos_read_reg 0x0A s in if test_bit 7 (ucast (fst r)) then wait_cmos (snd r) else Some (snd r))"

definition read_clock_regs :: "io_state \<Rightarrow> cmos_clock_t \<times> io_state" where
  "read_clock_regs s =
     (let (sec, s) = cmos_read_reg 0x00 s;
          (mins, s) = cmos_read_reg 0x02 s;
          (hours, s) = cmos_read_reg 0x04 s;
          (day, s) = cmos_read_reg 0x07 s;
          (mon, s) = cmos_read_reg 0x08 s;
          (yr, s) = cmos_read_reg 0x09 s
      in (\<lparr>cl_second = sec, cl_minute = mins, cl_hour = hours, cl_day = day, cl_month = mon, cl_year = yr\<rparr>, s))"

partial_function (option) read_stable :: "io_state \<Rightarrow> (cmos_clock_t \<times> io_state) option" where
  "read_stable s =
     (case wait_cmos s of
        None \<Rightarrow> None
      | Some s \<Rightarrow>
          (let r = read_clock_regs s;
               c = cmos_read_reg 0x00 (snd r)
           in if cl_second (fst r) \<noteq> fst c then read_stable (snd c) else Some (fst r, snd c)))"

definition decode_clock :: "u8 \<Rightarrow> cmos_clock_t \<Rightarrow> cmos_clock_t" where
  "decode_clock reg_b ret =
     (let bin_mod_set = test_bit 2 (ucast reg_b);
          fmt24_set = test_bit 1 (ucast reg_b);
          ret = (if \<not> bin_mod_set then
                   \<lparr>cl_second = BCD_TO_BIN (cl_second ret), cl_minute = BCD_TO_BIN (cl_minute ret),
                    cl_hour = BCD_TO_BIN (cl_hour ret) OR (cl_hour ret AND push_bit 7 1),
                    cl_day = BCD_TO_BIN (cl_day ret), cl_month = BCD_TO_BIN (cl_month ret), cl_year = BCD_TO_BIN (cl_year ret)\<rparr>
                 else ret)
      in if \<not> fmt24_set \<and> cl_hour ret AND push_bit 7 1 \<noteq> 0
         then ret\<lparr>cl_hour := word_of_int ((uint (cl_hour ret AND NOT (push_bit 7 1)) + 12) mod 24)\<rparr> else ret)"

definition cmos_read_rtc :: "io_state \<Rightarrow> (cmos_clock_t \<times> io_state) option" where
  "cmos_read_rtc s =
     (case read_stable s of
        None \<Rightarrow> None
      | Some (ret, s) \<Rightarrow> (let (reg_b, s) = cmos_read_reg 0x0B s in Some (decode_clock reg_b ret, s)))"

subsection \<open>Unix time\<close>

definition RTC_MILLISEC_IN_SEC :: s32 where "RTC_MILLISEC_IN_SEC = 1000"
definition RTC_MILLISEC_IN_MIN :: s32 where "RTC_MILLISEC_IN_MIN = 1000 * 60"
definition RTC_MILLISEC_IN_HOUR :: s32 where "RTC_MILLISEC_IN_HOUR = 1000 * 60 * 60"
definition RTC_MILLISEC_IN_DAY :: s32 where "RTC_MILLISEC_IN_DAY = 1000 * 60 * 60 * 24"

definition RTC_MILLISEC_YEAR :: u64 where "RTC_MILLISEC_YEAR = 31536000000"
definition RTC_MILLISEC_LEAP_YEAR :: u64 where "RTC_MILLISEC_LEAP_YEAR = 31622400000"

definition CMOS_ELAPSED_MSECS_UNTIL_20_CENTURY :: u64 where "CMOS_ELAPSED_MSECS_UNTIL_20_CENTURY = 0xdc6acfac00"

text \<open>The static table \<open>month\<close>: the multiplication by a \<open>long\<close> is a 64-bit one.\<close>

definition month_table :: "u64 list" where
  "month_table = map (\<lambda>d. scast RTC_MILLISEC_IN_DAY * d)
     [0,
      31,
      31 + 28,
      31 + 28 + 31,
      31 + 28 + 31 + 30,
      31 + 28 + 31 + 30 + 31,
      31 + 28 + 31 + 30 + 31 + 30,
      31 + 28 + 31 + 30 + 31 + 30 + 31,
      31 + 28 + 31 + 30 + 31 + 30 + 31 + 31,
      31 + 28 + 31 + 30 + 31 + 30 + 31 + 31 + 30,
      31 + 28 + 31 + 30 + 31 + 30 + 31 + 31 + 30 + 31,
      31 + 28 + 31 + 30 + 31 + 30 + 31 + 31 + 30 + 31 + 30]"

definition is_leap_year :: "nat \<Rightarrow> bool" where
  "is_leap_year year =
     (if year mod 400 = 0 then True else if year mod 100 = 0 then False else if year mod 4 = 0 then True else False)"

text \<open>The loop over the previous years.\<close>

definition add_years :: "nat \<Rightarrow> u64 \<Rightarrow> u64" where
  "add_years year ret =
     fold (\<lambda>i ret. if is_leap_year (2000 + i) then ret + RTC_MILLISEC_LEAP_YEAR else ret + RTC_MILLISEC_YEAR) [0..<year] ret"

definition rtc_covert_to_unixtime :: "cmos_clock_t \<Rightarrow> u64 kres" where
  "rtc_covert_to_unixtime now =
     (let ret = CMOS_ELAPSED_MSECS_UNTIL_20_CENTURY;
          ret = add_years (unat (cl_year now)) ret
      in if cl_month now = 0 \<or> cl_month now > 12 then Inl (Undefined ''month'')
         else
           let ret = ret + month_table ! (unat (cl_month now) - 1);
               ret = (if cl_month now > 2 \<and> is_leap_year (2000 + unat (cl_year now)) then ret + scast RTC_MILLISEC_IN_DAY else ret);
               ret = ret + scast (RTC_MILLISEC_IN_DAY * (ucast (cl_day now) - 1));
               ret = ret + scast (RTC_MILLISEC_IN_HOUR * ucast (cl_hour now));
               ret = ret + scast (RTC_MILLISEC_IN_MIN * ucast (cl_minute now));
               ret = ret + scast (RTC_MILLISEC_IN_SEC * ucast (cl_second now))
           in Inr ret)"

record rtc_state =
  rtc_startup_unixtime :: u64
  rtc_curr_unixtime :: u64

definition rtc_init :: "rtc_state \<Rightarrow> io_state \<Rightarrow> (rtc_state \<times> io_state) kres option" where
  "rtc_init r s =
     (case cmos_read_rtc s of
        None \<Rightarrow> None
      | Some (now, s) \<Rightarrow> Some (kbind (rtc_covert_to_unixtime now) (\<lambda>t. Inr (r\<lparr>rtc_startup_unixtime := t\<rparr>, s))))"

definition rtc_init_curr_time :: "rtc_state \<Rightarrow> io_state \<Rightarrow> (rtc_state \<times> io_state) kres option" where
  "rtc_init_curr_time r s =
     (let s = disable_interrupts s
      in case cmos_read_rtc s of
           None \<Rightarrow> None
         | Some (now, s) \<Rightarrow>
             let s = enable_interrupts s
             in Some (kbind (rtc_covert_to_unixtime now) (\<lambda>t. Inr (r\<lparr>rtc_curr_unixtime := t\<rparr>, s))))"

subsection \<open>Busy loops\<close>

text \<open>The assembly of \<open>__delay\<close>; the result is the number of turns it has made.\<close>

function delay_loop :: "u64 \<Rightarrow> nat \<Rightarrow> nat" where
  "delay_loop loop_idx turns = (if loop_idx = 0 then turns else delay_loop (loop_idx - 1) (Suc turns))"
  by pat_completeness auto
termination
  by (relation "measure (\<lambda>(i, _). unat i)") (auto simp: unat_minus_wrap Suc_le_eq unat_gt_0)

declare delay_loop.simps [simp del]

definition ndelay :: "u64 \<Rightarrow> u64 \<Rightarrow> nat" where
  "ndelay loops_per_jiffy nsecs = delay_loop ((nsecs * 1000 * loops_per_jiffy) div 1000000000) 0"

definition udelay :: "u64 \<Rightarrow> u64 \<Rightarrow> nat" where
  "udelay loops_per_jiffy usecs = delay_loop ((usecs * 1000 * loops_per_jiffy) div 1000000) 0"

text \<open>
  \<open>jiffies\<close> is changed by the timer interrupt while the calibration runs: \<open>j n\<close> is the value the \<open>n\<close>-th
  read of it gives.
\<close>

partial_function (option) wait_tick :: "(nat \<Rightarrow> u64) \<Rightarrow> u64 \<Rightarrow> nat \<Rightarrow> nat option" where
  "wait_tick j ticks n = (if ticks = j n then wait_tick j ticks (Suc n) else Some (Suc n))"

partial_function (option) calibrate_delay :: "(nat \<Rightarrow> u64) \<Rightarrow> u64 \<Rightarrow> nat \<Rightarrow> (u64 \<times> nat) option" where
  "calibrate_delay j loops_per_jiffy n =
     (let loops_per_jiffy = push_bit 1 loops_per_jiffy
      in if loops_per_jiffy \<noteq> 0 then
           (case wait_tick j (j n) (Suc n) of
              None \<Rightarrow> None
            | Some n \<Rightarrow>
                (let ticks = j n;
                     ticks = j (Suc n) - ticks
                 in if ticks \<noteq> 0 then Some (loops_per_jiffy, n + 2) else calibrate_delay j loops_per_jiffy (n + 2)))
         else Some (loops_per_jiffy, n))"

lemma delay_loop_turns: "delay_loop i k = unat i + k"
proof (induction i k rule: delay_loop.induct)
  case (1 i k)
  show ?case
  proof (cases "i = 0")
    case False
    then have "1 \<le> unat i" by (simp add: Suc_le_eq unat_gt_0)
    then show ?thesis using 1 False by (subst delay_loop.simps) (simp add: unat_minus_wrap)
  qed (simp add: delay_loop.simps)
qed

lemma wait_tick_returns:
  assumes "n \<le> m" "j m \<noteq> t"
  shows "\<exists>k. wait_tick j t n = Some k"
  using assms
proof (induction "m - n" arbitrary: n)
  case 0
  then show ?case by (subst wait_tick.simps) auto
next
  case (Suc d)
  then have "t = j n \<Longrightarrow> n \<noteq> m" by auto
  then show ?case using Suc.hyps(1) [of "Suc n"] Suc.hyps(2) Suc.prems by (subst wait_tick.simps) auto
qed

text \<open>The calibration ends as long as the counter goes on: after 64 doublings nothing is left to double.\<close>

lemma calibrate_delay_returns:
  assumes "\<forall>n. \<exists>m>n. j m \<noteq> j n"
  shows "\<exists>r. calibrate_delay j (push_bit k x) n = Some r"
proof (induction "64 - k" arbitrary: k n)
  case 0
  then have "push_bit 1 (push_bit k x) = 0" unfolding push_bit_push_bit
    by (intro bit_word_eqI) (simp add: bit_push_bit_iff del: push_bit_Suc)
  then show ?case by (subst calibrate_delay.simps) simp
next
  case (Suc d)
  obtain m where "Suc n \<le> m" "j m \<noteq> j n" using assms Suc_le_eq by blast
  then obtain i where i: "wait_tick j (j n) (Suc n) = Some i" using wait_tick_returns by blast
  have "\<exists>r. calibrate_delay j (push_bit 1 (push_bit k x)) (i + 2) = Some r"
    using Suc.hyps(1) [of "Suc k" "i + 2"] Suc.hyps(2) by (simp add: push_bit_push_bit)
  then show ?case by (subst calibrate_delay.simps) (auto simp: Let_def i)
qed

subsection \<open>The calendar\<close>

text \<open>The Gregorian calendar, stated without the functions of the code.\<close>

definition gregorian_leap :: "nat \<Rightarrow> bool" where
  "gregorian_leap year \<longleftrightarrow> 4 dvd year \<and> (100 dvd year \<longrightarrow> 400 dvd year)"

definition month_length :: "nat \<Rightarrow> nat \<Rightarrow> nat" where
  "month_length year m =
     (if m = 2 then if gregorian_leap year then 29 else 28 else if m \<in> {4, 6, 9, 11} then 30 else 31)"

definition year_length :: "nat \<Rightarrow> nat" where
  "year_length year = sum_list (map (month_length year) [1..<13])"

text \<open>The days from 1 January 1970 to the given date, month by month and year by year.\<close>

definition epoch_days :: "nat \<Rightarrow> nat \<Rightarrow> nat \<Rightarrow> nat" where
  "epoch_days year m d = sum_list (map year_length [1970..<year]) + sum_list (map (month_length year) [1..<m]) + (d - 1)"

definition unix_msecs :: "cmos_clock_t \<Rightarrow> nat" where
  "unix_msecs c =
     1000 * (86400 * epoch_days (2000 + unat (cl_year c)) (unat (cl_month c)) (unat (cl_day c))
       + 3600 * unat (cl_hour c) + 60 * unat (cl_minute c) + unat (cl_second c))"

definition valid_clock :: "cmos_clock_t \<Rightarrow> bool" where
  "valid_clock c \<longleftrightarrow> cl_second c < 60 \<and> cl_minute c < 60 \<and> cl_hour c < 24 \<and> cl_year c < 100
     \<and> 1 \<le> unat (cl_month c) \<and> unat (cl_month c) \<le> 12
     \<and> 1 \<le> unat (cl_day c) \<and> unat (cl_day c) \<le> month_length (2000 + unat (cl_year c)) (unat (cl_month c))"

lemma is_leap_year_gregorian: "is_leap_year y = gregorian_leap y"
proof -
  have "4 dvd y" if "400 dvd y" using that dvd_trans [of 4 400 y] by simp
  then show ?thesis by (auto simp: is_leap_year_def gregorian_leap_def dvd_eq_mod_eq_0)
qed

lemma year_length_eq: "year_length y = (if is_leap_year y then 366 else 365)"
  by (simp add: year_length_def month_length_def upt_conv_Cons is_leap_year_gregorian)

lemma add_years_eq: "add_years n r = r + of_nat (86400000 * sum_list (map year_length [2000..<2000 + n]))"
proof (induction n)
  case 0
  then show ?case by (simp add: add_years_def)
next
  case (Suc n)
  have "add_years (Suc n) r = add_years n r + of_nat (86400000 * year_length (2000 + n))"
    by (simp add: add_years_def year_length_eq RTC_MILLISEC_LEAP_YEAR_def RTC_MILLISEC_YEAR_def)
  moreover have "[2000..<2000 + Suc n] = [2000..<2000 + n] @ [2000 + n]"
    by (simp only: add_Suc_right upt_Suc le_add1 if_True)
  ultimately show ?case using Suc by (simp add: distrib_left del: upt_Suc)
qed

lemma month_table_eq:
  assumes "1 \<le> m" "m \<le> 12"
  shows "month_table ! (m - 1) + (if 2 < m \<and> is_leap_year y then 86400000 else 0)
    = of_nat (86400000 * sum_list (map (month_length y) [1..<m]))"
proof -
  have "m = 1 \<or> m = 2 \<or> m = 3 \<or> m = 4 \<or> m = 5 \<or> m = 6 \<or> m = 7 \<or> m = 8 \<or> m = 9 \<or> m = 10 \<or> m = 11 \<or> m = 12"
    using assms by arith
  then show ?thesis
    by (elim disjE) (simp_all add: upt_conv_Cons month_table_def RTC_MILLISEC_IN_DAY_def month_length_def is_leap_year_gregorian)
qed

lemma epoch_split: "sum_list (map year_length [1970..<2000 + n]) = 10957 + sum_list (map year_length [2000..<2000 + n])"
proof -
  have "[1970..<2000 + n] = [1970..<2000] @ [2000..<2000 + n]" using upt_add_eq_append [of 1970 2000 n] by simp
  moreover have "sum_list (map year_length [1970..<2000]) = 10957" by (simp add: year_length_eq is_leap_year_def)
  ultimately show ?thesis by simp
qed

lemma scast_of_nat_s32:
  assumes "k < 2 ^ 32"
  shows "(scast (of_nat k :: s32) :: u64) = (if k < 2 ^ 31 then of_nat k else of_nat k - 2 ^ 32)"
proof -
  have u: "uint (of_nat k :: s32) = int k" using assms by (simp add: uint_nat unat_of_nat take_bit_eq_mod)
  have "sint (of_nat k :: s32) = (if k < 2 ^ 31 then int k else int k - 2 ^ 32)"
  proof (cases "k < 2 ^ 31")
    case True
    then show ?thesis by (simp add: sint_uint u signed_take_bit_int_eq_self)
  next
    case False
    then have "int k div 2 ^ 31 = 1" using assms by (intro div_pos_geq [THEN trans]) auto
    then have "bit (int k) 31" by (simp add: bit_iff_odd)
    then show ?thesis using False assms
      by (simp add: sint_uint u signed_take_bit_eq_take_bit_minus take_bit_int_eq_self)
  qed
  then show ?thesis by (simp add: scast_eq)
qed

lemma time_of_day:
  assumes "unat h < 24" "unat m < 60" "unat s < 60"
  shows "(scast (RTC_MILLISEC_IN_HOUR * ucast (h :: u8)) :: u64) = of_nat (3600000 * unat h)"
    "(scast (RTC_MILLISEC_IN_MIN * ucast (m :: u8)) :: u64) = of_nat (60000 * unat m)"
    "(scast (RTC_MILLISEC_IN_SEC * ucast (s :: u8)) :: u64) = of_nat (1000 * unat s)"
  using assms scast_of_nat_s32 [of "3600000 * unat h"] scast_of_nat_s32 [of "60000 * unat m"] scast_of_nat_s32 [of "1000 * unat s"]
  by (simp_all add: RTC_MILLISEC_IN_HOUR_def RTC_MILLISEC_IN_MIN_def RTC_MILLISEC_IN_SEC_def)

lemma day_of_month:
  assumes "1 \<le> unat d" "unat d \<le> 31"
  shows "(scast (RTC_MILLISEC_IN_DAY * (ucast (d :: u8) - 1)) :: u64)
    = of_nat (86400000 * (unat d - 1)) - (if 26 \<le> unat d then 2 ^ 32 else 0)"
proof -
  have "(ucast d - 1 :: s32) = of_nat (unat d - 1)" using assms by (simp add: of_nat_diff)
  then have "RTC_MILLISEC_IN_DAY * (ucast d - 1) = of_nat (86400000 * (unat d - 1))" by (simp add: RTC_MILLISEC_IN_DAY_def)
  moreover have "86400000 * (unat d - 1) < (2 :: nat) ^ 31 \<longleftrightarrow> \<not> 26 \<le> unat d" "86400000 * (unat d - 1) < (2 :: nat) ^ 32"
    using assms by auto
  ultimately show ?thesis using scast_of_nat_s32 [of "86400000 * (unat d - 1)"] by simp
qed

lemma month_length_le: "month_length y m \<le> 31"
  by (simp add: month_length_def)

lemma unixtime_value:
  assumes "valid_clock c"
  shows "rtc_covert_to_unixtime c = Inr (of_nat (unix_msecs c) - (if 26 \<le> unat (cl_day c) then 2 ^ 32 else 0))"
proof -
  define y where "y = 2000 + unat (cl_year c)"
  let ?m = "unat (cl_month c)" and ?d = "unat (cl_day c)"
  have v: "unat (cl_hour c) < 24" "unat (cl_minute c) < 60" "unat (cl_second c) < 60" "1 \<le> ?m" "?m \<le> 12" "1 \<le> ?d" "?d \<le> 31"
    using assms month_length_le [of y ?m] by (auto simp: valid_clock_def word_less_nat_alt y_def)
  have m: "\<not> (cl_month c = 0 \<or> cl_month c > 12)" "cl_month c > 2 \<longleftrightarrow> 2 < ?m"
    using v by (auto simp: word_less_nat_alt unat_eq_zero)
  have year: "add_years (unat (cl_year c)) CMOS_ELAPSED_MSECS_UNTIL_20_CENTURY
      = of_nat (86400000 * sum_list (map year_length [1970..<y]))"
    by (simp add: add_years_eq epoch_split y_def CMOS_ELAPSED_MSECS_UNTIL_20_CENTURY_def distrib_left)
  have day: "(scast RTC_MILLISEC_IN_DAY :: u64) = 86400000" by (simp add: RTC_MILLISEC_IN_DAY_def)
  have mon: "x + month_table ! (?m - 1) + (if 2 < ?m \<and> is_leap_year y then 86400000 else 0)
      = x + of_nat (86400000 * sum_list (map (month_length y) [1..<?m]))" for x
    using month_table_eq [OF v(4,5), of y] by (simp only: add.assoc)
  have split: "(if b then x + 86400000 else x) = x + (if b then 86400000 else 0)" for b and x :: u64 by simp
  have "unix_msecs c = 86400000 * sum_list (map year_length [1970..<y]) + 86400000 * sum_list (map (month_length y) [1..<?m])
      + 86400000 * (?d - 1) + 3600000 * unat (cl_hour c) + 60000 * unat (cl_minute c) + 1000 * unat (cl_second c)"
    by (simp add: unix_msecs_def epoch_days_def y_def distrib_left)
  then show ?thesis
    unfolding rtc_covert_to_unixtime_def Let_def year day m(2) y_def [symmetric] split mon
      time_of_day [OF v(1-3)] day_of_month [OF v(6,7)]
    using m(1) by (simp add: algebra_simps)
qed

lemma sum_list_bound: "(\<And>x. x \<in> set xs \<Longrightarrow> f x \<le> k) \<Longrightarrow> sum_list (map f xs) \<le> k * length xs" for f :: "'a \<Rightarrow> nat"
  by (induction xs) fastforce+

lemma epoch_days_bounds:
  assumes "valid_clock c"
  shows "epoch_days (2000 + unat (cl_year c)) (unat (cl_month c)) (unat (cl_day c)) < 100000
    \<and> 10957 \<le> epoch_days (2000 + unat (cl_year c)) (unat (cl_month c)) (unat (cl_day c))"
proof -
  let ?y = "2000 + unat (cl_year c)" and ?m = "unat (cl_month c)"
  have v: "unat (cl_year c) < 100" "?m \<le> 12" "unat (cl_day c) \<le> 31"
    using assms month_length_le [of ?y ?m] by (auto simp: valid_clock_def word_less_nat_alt)
  have "sum_list (map year_length [2000..<?y]) \<le> 366 * length [2000..<?y]" by (rule sum_list_bound) (simp add: year_length_eq)
  moreover have "sum_list (map (month_length ?y) [1..<?m]) \<le> 31 * length [1..<?m]" by (rule sum_list_bound) (rule month_length_le)
  ultimately show ?thesis using v by (simp add: epoch_days_def epoch_split)
qed

text \<open>
  C36: Conversion of the clock to Unix time.  For every date of the years 2000 to 2099 the result is the number of
  milliseconds since the epoch that the Gregorian calendar gives, except that from the 26th of a month on it is
  \<open>2 ^ 32\<close> milliseconds too low: the product of the milliseconds of a day and the day of the month is an
  \<open>int\<close> and overflows.
\<close>

theorem rtc_unixtime_correct:
  assumes "valid_clock c"
  shows "\<exists>t. rtc_covert_to_unixtime c = Inr t \<and>
    unat t = unix_msecs c - (if 26 \<le> unat (cl_day c) then 2 ^ 32 else 0)"
proof -
  have "epoch_days (2000 + unat (cl_year c)) (unat (cl_month c)) (unat (cl_day c)) < 100000 \<and> 10957 \<le> epoch_days (2000 + unat (cl_year c)) (unat (cl_month c)) (unat (cl_day c))"
    using epoch_days_bounds [OF assms] .
  then have b: "unix_msecs c < 2 ^ 63" "2 ^ 32 \<le> unix_msecs c"
    using assms by (auto simp: unix_msecs_def valid_clock_def word_less_nat_alt)
  then have "unat (of_nat (unix_msecs c) - (if 26 \<le> unat (cl_day c) then 2 ^ 32 else 0) :: u64)
      = unix_msecs c - (if 26 \<le> unat (cl_day c) then 2 ^ 32 else 0)"
    by (simp add: unat_minus_wrap unat_of_nat_small)
  then show ?thesis using unixtime_value [OF assms] by blast
qed

theorem rtc_unixtime_correct_witness:
  "\<exists>t. rtc_covert_to_unixtime \<lparr>cl_second = 58, cl_minute = 30, cl_hour = 21, cl_day = 26, cl_month = 12, cl_year = 21\<rparr> = Inr t
    \<and> unat t = 1640554258000 - 4294967296"
proof -
  let ?c = "\<lparr>cl_second = 58, cl_minute = 30, cl_hour = 21, cl_day = 26, cl_month = 12, cl_year = 21\<rparr>"
  have "valid_clock ?c" by (simp add: valid_clock_def month_length_def)
  moreover have "unix_msecs ?c = 1640554258000"
    by (simp add: unix_msecs_def epoch_days_def year_length_eq is_leap_year_def gregorian_leap_def month_length_def upt_conv_Cons)
  ultimately show ?thesis using rtc_unixtime_correct [of ?c] by simp
qed

text \<open>The registers in the formats of the chip: two decimal digits in a byte are read as their number.\<close>

lemma bcd_roundtrip:
  assumes "t < 10" "u < 10"
  shows "unat (BCD_TO_BIN (of_nat (16 * t + u))) = 10 * t + u"
proof -
  have "t \<in> set [0..<10]" "u \<in> set [0..<10]" using assms by auto
  moreover have "\<forall>t\<in>set [0..<10]. \<forall>u\<in>set [0..<10]. unat (BCD_TO_BIN (of_nat (16 * t + u))) = 10 * t + u" by code_simp
  ultimately show ?thesis by blast
qed

text \<open>In the 12-hour format one in the afternoon is read as nine in the evening: the flag of the afternoon is still there when the digits are converted.\<close>

lemma decode_clock_pm:
  "cl_hour (decode_clock 0 \<lparr>cl_second = 0, cl_minute = 0, cl_hour = 0x81, cl_day = 1, cl_month = 1, cl_year = 0\<rparr>) = 21"
  by code_simp

end
