(* ===== verification/Qsort.thy ===== *)
theory Qsort
  imports Kernel_String Mem_Types
begin

text \<open>
  The sorting routine of src/kernel/lib/qsort.c and the shuffle of src/kernel/lib/shuffle.c.  The array is the list of
  its items.  The macro \<open>EXCH\<close> of include/kernel/compiler/macro.h exchanges bytes; \<open>EXCH_bytes_items\<close> shows that on the items
  of an array in memory this is the exchange of two elements, which the rest of the model uses.  The comparison
  function is a parameter, as in the code; \<open>comparator\<close> is what the routine relies on, and the comparison of memory
  regions of src/kernel/arch/mem.c provides it.  The result \<open>None\<close> is an access outside of the array or a loop that does
  not end; the lemmas show that neither happens.
\<close>

subsection \<open>Exchange\<close>

text \<open>The loop of the macro, with \<open>size\<close> as the first argument; the body is executed before the test.\<close>

fun EXCH_bytes :: "nat \<Rightarrow> addr \<Rightarrow> addr \<Rightarrow> bmem \<Rightarrow> bmem" where
  "EXCH_bytes 0 a b m = m"
| "EXCH_bytes (Suc sz) a b m = EXCH_bytes sz (a + 1) (b + 1) (m(a := m b, b := m a))"

definition EXCH :: "nat \<Rightarrow> nat \<Rightarrow> 'a list \<Rightarrow> 'a list" where
  "EXCH i j xs = xs[i := xs ! j, j := xs ! i]"

text \<open>The items of an array of \<open>n\<close> elements of \<open>w\<close> bytes.\<close>

definition items :: "bmem \<Rightarrow> addr \<Rightarrow> nat \<Rightarrow> nat \<Rightarrow> string list" where
  "items m base w n = map (\<lambda>i. map (\<lambda>k. m (base + of_nat (i * w + k))) [0..<w]) [0..<n]"

lemma array_addr_eq:
  fixes base :: addr
  assumes "p < 2 ^ 64" "q < 2 ^ 64"
  shows "base + of_nat p = base + of_nat q \<longleftrightarrow> p = q"
proof
  assume "base + of_nat p = base + of_nat q"
  then have "unat (of_nat p :: u64) = unat (of_nat q :: u64)" by simp
  then show "p = q" using assms by (simp add: unat_of_nat_small)
qed simp

lemma EXCH_bytes_eq:
  assumes "a + c \<le> N" "b + c \<le> N" "N \<le> 2 ^ 64" "a = b \<or> a + c \<le> b \<or> b + c \<le> a" "p < N"
  shows "EXCH_bytes c (base + of_nat a) (base + of_nat b) m (base + of_nat p)
    = (if a \<le> p \<and> p < a + c then m (base + of_nat (b + (p - a)))
       else if b \<le> p \<and> p < b + c then m (base + of_nat (a + (p - b))) else m (base + of_nat p))"
  using assms
proof (induction c arbitrary: a b m)
  case (Suc c)
  let ?m = "m(base + of_nat a := m (base + of_nat b), base + of_nat b := m (base + of_nat a))"
  have m1: "?m (base + of_nat q) = (if q = b then m (base + of_nat a) else if q = a then m (base + of_nat b) else m (base + of_nat q))"
    if "q < N" for q
    using that Suc.prems(1-3) array_addr_eq [of q a base] array_addr_eq [of q b base] by simp
  have ih: "EXCH_bytes c (base + of_nat (a + 1)) (base + of_nat (b + 1)) ?m (base + of_nat p)
    = (if a + 1 \<le> p \<and> p < a + 1 + c then ?m (base + of_nat (b + 1 + (p - (a + 1))))
       else if b + 1 \<le> p \<and> p < b + 1 + c then ?m (base + of_nat (a + 1 + (p - (b + 1)))) else ?m (base + of_nat p))"
    using Suc.prems by (intro Suc.IH) auto
  have step: "EXCH_bytes (Suc c) (base + of_nat a) (base + of_nat b) m (base + of_nat p)
      = EXCH_bytes c (base + of_nat (a + 1)) (base + of_nat (b + 1)) ?m (base + of_nat p)"
    by (simp add: add_ac)
  show ?case
  proof (cases "p = a \<or> p = b")
    case True
    then show ?thesis unfolding step ih m1 [OF Suc.prems(5)] using Suc.prems(4) by (elim disjE) simp_all
  next
    case out: False
    show ?thesis
    proof (cases "a < p \<and> p < a + Suc c")
      case True
      then have e: "b + 1 + (p - (a + 1)) = b + (p - a)" "b + (p - a) < N" "b + (p - a) \<noteq> b" "b + (p - a) \<noteq> a"
        using Suc.prems(2,4) out by linarith+
      have "a + 1 \<le> p \<and> p < a + 1 + c" "a \<le> p \<and> p < a + Suc c" using True by linarith+
      then show ?thesis unfolding step ih e(1) m1 [OF e(2)] using e(3,4) by simp
    next
      case a: False
      then have na: "\<not> (a + 1 \<le> p \<and> p < a + 1 + c)" "\<not> (a \<le> p \<and> p < a + Suc c)" using out by linarith+
      show ?thesis
      proof (cases "b < p \<and> p < b + Suc c")
        case True
        then have e: "a + 1 + (p - (b + 1)) = a + (p - b)" "a + (p - b) < N" "a + (p - b) \<noteq> a" "a + (p - b) \<noteq> b"
          using Suc.prems(1,4) a by linarith+
        have "b + 1 \<le> p \<and> p < b + 1 + c" "b \<le> p \<and> p < b + Suc c" using True by linarith+
        then show ?thesis unfolding step ih e(1) m1 [OF e(2)] using e(3,4) na by (simp only: if_True if_False simp_thms)
      next
        case b: False
        then have nb: "\<not> (b + 1 \<le> p \<and> p < b + 1 + c)" "\<not> (b \<le> p \<and> p < b + Suc c)" using out by linarith+
        have "p \<noteq> a" "p \<noteq> b" using out by blast+
        then show ?thesis unfolding step ih m1 [OF Suc.prems(5)] using na nb by (simp only: if_False simp_thms)
      qed
    qed
  qed
qed auto

lemma EXCH_bytes_items:
  assumes "i < n" "j < n" "n * w \<le> 2 ^ 64"
  shows "items (EXCH_bytes w (base + of_nat (i * w)) (base + of_nat (j * w)) m) base w n = EXCH i j (items m base w n)"
proof (rule nth_equalityI)
  let ?m = "EXCH_bytes w (base + of_nat (i * w)) (base + of_nat (j * w)) m"
  fix l assume "l < length (items ?m base w n)"
  then have l: "l < n" by (simp add: items_def)
  have le: "x * w + w \<le> n * w" if "x < n" for x using mult_le_mono1 [OF Suc_leI [OF that], of w] by simp
  have dis: "x * w + w \<le> y * w" if "x < y" for x y :: nat using mult_le_mono1 [OF Suc_leI [OF that], of w] by simp
  have "?m (base + of_nat (l * w + k)) = m (base + of_nat ((if l = i then j else if l = j then i else l) * w + k))" if k: "k < w" for k
  proof -
    have "i * w = j * w \<or> i * w + w \<le> j * w \<or> j * w + w \<le> i * w" using dis [of i j] dis [of j i] by (cases i j rule: linorder_cases) auto
    then have e: "?m (base + of_nat (l * w + k)) = (if i * w \<le> l * w + k \<and> l * w + k < i * w + w then m (base + of_nat (j * w + (l * w + k - i * w)))
       else if j * w \<le> l * w + k \<and> l * w + k < j * w + w then m (base + of_nat (i * w + (l * w + k - j * w))) else m (base + of_nat (l * w + k)))"
      using le [OF l] k by (intro EXCH_bytes_eq [OF le [OF assms(1)] le [OF assms(2)] assms(3)]) simp_all
    have "x * w \<le> l * w + k \<and> l * w + k < x * w + w \<longleftrightarrow> l = x" for x
      using k dis [of l x] dis [of x l] by (cases l x rule: linorder_cases) auto
    then show ?thesis unfolding e by simp
  qed
  then have "items ?m base w n ! l = items m base w n ! (if l = i then j else if l = j then i else l)"
    using l assms by (simp add: items_def)
  also have "\<dots> = EXCH i j (items m base w n) ! l" using l assms by (simp add: EXCH_def items_def nth_list_update)
  finally show "items ?m base w n ! l = EXCH i j (items m base w n) ! l" .
qed (simp add: items_def EXCH_def)

subsection \<open>Model\<close>

text \<open>The comparison of memory regions of src/kernel/arch/mem.c.\<close>

definition qsort_cmp_mem_region :: "mem_map_region_t \<Rightarrow> mem_map_region_t \<Rightarrow> int" where
  "qsort_cmp_mem_region a b =
     (if rg_base a > rg_base b then 1 else if rg_base a < rg_base b then - 1 else 0)"

text \<open>The two scans of \<open>partition\<close>, from the increment on.\<close>

partial_function (option) scan_up :: "('a \<Rightarrow> 'a \<Rightarrow> int) \<Rightarrow> 'a list \<Rightarrow> nat \<Rightarrow> nat \<Rightarrow> nat \<Rightarrow> nat option" where
  "scan_up cmp xs lo hi i =
     (let i = i + 1
      in if i < length xs \<and> lo < length xs then
           (if cmp (xs ! i) (xs ! lo) < 0 then (if i = hi then Some i else scan_up cmp xs lo hi i) else Some i)
         else None)"

partial_function (option) scan_down :: "('a \<Rightarrow> 'a \<Rightarrow> int) \<Rightarrow> 'a list \<Rightarrow> nat \<Rightarrow> nat \<Rightarrow> nat option" where
  "scan_down cmp xs lo j =
     (if j = 0 then None
      else let j = j - 1
           in if j < length xs \<and> lo < length xs then
                (if cmp (xs ! lo) (xs ! j) < 0 then (if j = lo then Some j else scan_down cmp xs lo j) else Some j)
              else None)"

partial_function (option) partition_loop ::
  "('a \<Rightarrow> 'a \<Rightarrow> int) \<Rightarrow> 'a list \<Rightarrow> nat \<Rightarrow> nat \<Rightarrow> nat \<Rightarrow> nat \<Rightarrow> ('a list \<times> nat) option" where
  "partition_loop cmp xs lo hi i j =
     Option.bind (scan_up cmp xs lo hi i) (\<lambda>i.
     Option.bind (scan_down cmp xs lo j) (\<lambda>j.
       if i \<ge> j then Some (xs, j) else partition_loop cmp (EXCH i j xs) lo hi i j))"

definition partition :: "('a \<Rightarrow> 'a \<Rightarrow> int) \<Rightarrow> 'a list \<Rightarrow> nat \<Rightarrow> nat \<Rightarrow> ('a list \<times> nat) option" where
  "partition cmp xs lo hi = Option.bind (partition_loop cmp xs lo hi lo (hi + 1)) (\<lambda>(xs, j). Some (EXCH lo j xs, j))"

partial_function (option) sort_range :: "('a \<Rightarrow> 'a \<Rightarrow> int) \<Rightarrow> 'a list \<Rightarrow> nat \<Rightarrow> nat \<Rightarrow> 'a list option" where
  "sort_range cmp xs lo hi =
     (if hi \<le> lo then Some xs
      else Option.bind (partition cmp xs lo hi) (\<lambda>(xs, j).
           Option.bind (if j > 0 then sort_range cmp xs lo (j - 1) else Some xs) (\<lambda>xs.
             sort_range cmp xs (j + 1) hi)))"

text \<open>\<open>seed\<close> is the state of \<open>rand\<close>.\<close>

fun shuffle_loop :: "nat list \<Rightarrow> u32 \<Rightarrow> 'a list \<Rightarrow> 'a list \<times> u32" where
  "shuffle_loop [] seed arr = (arr, seed)"
| "shuffle_loop (i # is) seed arr =
     (let (v, seed) = rand seed;
          r = unat ((scast v :: u64) mod of_nat (length arr - 1)) + 1
      in shuffle_loop is seed (EXCH i r arr))"

definition shuffle :: "'a list \<Rightarrow> u64 \<Rightarrow> u32 \<Rightarrow> ('a list \<times> u32) kres" where
  "shuffle arr item_width seed =
     BUG_ON ''shuffle'' (item_width = 0)
       (if length arr < 2 then Inr (arr, seed) else Inr (shuffle_loop [0..<length arr] seed arr))"

definition qsort :: "('a \<Rightarrow> 'a \<Rightarrow> int) \<Rightarrow> 'a list \<Rightarrow> u64 \<Rightarrow> u32 \<Rightarrow> ('a list \<times> u32) kres option" where
  "qsort cmp base item_width seed =
     (if length base < 2 then Some (Inr (base, seed))
      else obind (Some (shuffle base item_width seed)) (\<lambda>(base, seed).
             map_option (\<lambda>base. Inr (base, seed)) (sort_range cmp base 0 (length base - 1))))"

subsection \<open>Permutations of a range\<close>

definition perm_in :: "nat \<Rightarrow> nat \<Rightarrow> 'a list \<Rightarrow> 'a list \<Rightarrow> bool" where
  "perm_in lo hi xs ys \<longleftrightarrow> length ys = length xs \<and> mset ys = mset xs
     \<and> (\<forall>k<length xs. k < lo \<or> hi < k \<longrightarrow> ys ! k = xs ! k)
     \<and> (\<forall>k. lo \<le> k \<and> k \<le> hi \<longrightarrow> (\<exists>k'. lo \<le> k' \<and> k' \<le> hi \<and> ys ! k = xs ! k'))"

lemma perm_in_refl [simp]: "perm_in lo hi xs xs"
  by (auto simp: perm_in_def)

lemma perm_in_trans: "perm_in lo hi xs ys \<Longrightarrow> perm_in lo hi ys zs \<Longrightarrow> perm_in lo hi xs zs"
  unfolding perm_in_def by metis

lemma perm_in_outside: "perm_in lo hi xs ys \<Longrightarrow> k < length xs \<Longrightarrow> k < lo \<or> hi < k \<Longrightarrow> ys ! k = xs ! k"
  by (auto simp: perm_in_def)

lemma perm_in_length: "perm_in lo hi xs ys \<Longrightarrow> length ys = length xs"
  by (simp add: perm_in_def)

lemma perm_in_inside: "perm_in lo hi xs ys \<Longrightarrow> lo \<le> k \<Longrightarrow> k \<le> hi \<Longrightarrow> \<exists>k'. lo \<le> k' \<and> k' \<le> hi \<and> ys ! k = xs ! k'"
  by (simp add: perm_in_def)

lemma perm_in_wider:
  assumes "perm_in lo' hi' xs ys" "lo \<le> lo'" "hi' \<le> hi" "hi < length xs"
  shows "perm_in lo hi xs ys"
proof -
  have "\<exists>k'. lo \<le> k' \<and> k' \<le> hi \<and> ys ! k = xs ! k'" if "lo \<le> k" "k \<le> hi" for k
  proof (cases "lo' \<le> k \<and> k \<le> hi'")
    case True
    then obtain k' where "lo' \<le> k'" "k' \<le> hi'" "ys ! k = xs ! k'" using assms(1) by (auto simp: perm_in_def)
    then show ?thesis using assms(2,3) by (intro exI [of _ k']) simp
  next
    case False
    then have "ys ! k = xs ! k" using assms that by (intro perm_in_outside) auto
    then show ?thesis using that by blast
  qed
  then show ?thesis using assms by (auto simp: perm_in_def)
qed

lemma length_EXCH [simp]: "length (EXCH i j xs) = length xs"
  by (simp add: EXCH_def)

lemma EXCH_nth: "i < length xs \<Longrightarrow> j < length xs \<Longrightarrow> k < length xs \<Longrightarrow>
    EXCH i j xs ! k = (if k = j then xs ! i else if k = i then xs ! j else xs ! k)"
  by (simp add: EXCH_def nth_list_update)

lemma mset_EXCH: "i < length xs \<Longrightarrow> j < length xs \<Longrightarrow> mset (EXCH i j xs) = mset xs"
  using mset_swap [of i xs j] by (cases "i = j") (auto simp: EXCH_def list_update_swap)

lemma perm_in_EXCH:
  assumes "lo \<le> i" "i \<le> hi" "lo \<le> j" "j \<le> hi" "hi < length xs"
  shows "perm_in lo hi xs (EXCH i j xs)"
proof -
  have "\<exists>k'. lo \<le> k' \<and> k' \<le> hi \<and> EXCH i j xs ! k = xs ! k'" if "lo \<le> k" "k \<le> hi" for k
    using assms that by (auto simp: EXCH_nth)
  then show ?thesis using assms by (auto simp: perm_in_def mset_EXCH EXCH_nth)
qed

subsection \<open>Correctness for a comparison by key\<close>

locale comparator =
  fixes cmp :: "'a \<Rightarrow> 'a \<Rightarrow> int" and key :: "'a \<Rightarrow> 'k::linorder"
  assumes cmp_less: "cmp a b < 0 \<longleftrightarrow> key a < key b"
begin

lemma scan_up_stops:
  assumes "lo \<le> i" "i < hi" "hi < length xs"
  shows "\<exists>i'. scan_up cmp xs lo hi i = Some i' \<and> i < i' \<and> i' \<le> hi \<and> (\<forall>k. i < k \<and> k < i' \<longrightarrow> key (xs ! k) < key (xs ! lo))
    \<and> (i' = hi \<or> key (xs ! lo) \<le> key (xs ! i'))"
  using assms
proof (induction "hi - i" arbitrary: i)
  case (Suc d)
  have s: "scan_up cmp xs lo hi i = (if key (xs ! Suc i) < key (xs ! lo) then if Suc i = hi then Some (Suc i) else scan_up cmp xs lo hi (Suc i) else Some (Suc i))"
    using Suc.prems by (subst scan_up.simps) (simp add: cmp_less)
  show ?case
  proof (cases "key (xs ! Suc i) < key (xs ! lo) \<and> Suc i \<noteq> hi")
    case True
    then have a: "d = hi - Suc i" "lo \<le> Suc i" "Suc i < hi" using Suc.hyps(2) Suc.prems by auto
    obtain i' where "scan_up cmp xs lo hi (Suc i) = Some i'" "Suc i < i'" "i' \<le> hi" "\<forall>k. Suc i < k \<and> k < i' \<longrightarrow> key (xs ! k) < key (xs ! lo)"
        "i' = hi \<or> key (xs ! lo) \<le> key (xs ! i')"
      using Suc.hyps(1) [OF a Suc.prems(3)] by blast
    moreover have "key (xs ! k) < key (xs ! lo)" if "i < k" "k < i'" for k
      using that calculation(4) True by (cases "k = Suc i") auto
    ultimately show ?thesis using True s by (intro exI [of _ i']) auto
  next
    case False
    then show ?thesis using s Suc.prems by (intro exI [of _ "Suc i"]) auto
  qed
qed simp

lemma scan_down_stops:
  assumes "lo < j" "j \<le> length xs"
  shows "\<exists>j'. scan_down cmp xs lo j = Some j' \<and> lo \<le> j' \<and> j' < j \<and> (\<forall>k. j' < k \<and> k < j \<longrightarrow> key (xs ! lo) < key (xs ! k))
    \<and> key (xs ! j') \<le> key (xs ! lo)"
  using assms
proof (induction "j - lo" arbitrary: j)
  case (Suc d)
  have s: "scan_down cmp xs lo j = (if key (xs ! lo) < key (xs ! (j - 1)) then scan_down cmp xs lo (j - 1) else Some (j - 1))"
    using Suc.prems by (subst scan_down.simps) (auto simp: cmp_less Let_def)
  show ?case
  proof (cases "key (xs ! lo) < key (xs ! (j - 1))")
    case True
    then have "lo < j - 1" using Suc.prems by (cases "lo = j - 1") auto
    then have a: "d = j - 1 - lo" "lo < j - 1" "j - 1 \<le> length xs" using Suc.hyps(2) Suc.prems by auto
    obtain j' where "scan_down cmp xs lo (j - 1) = Some j'" "lo \<le> j'" "j' < j - 1" "\<forall>k. j' < k \<and> k < j - 1 \<longrightarrow> key (xs ! lo) < key (xs ! k)"
        "key (xs ! j') \<le> key (xs ! lo)"
      using Suc.hyps(1) [OF a] by blast
    moreover have "key (xs ! lo) < key (xs ! k)" if "j' < k" "k < j" for k
      using that calculation(4) True by (cases "k = j - 1") auto
    ultimately show ?thesis using True s by (intro exI [of _ j']) auto
  next
    case False
    then show ?thesis using s Suc.prems by (intro exI [of _ "j - 1"]) auto
  qed
qed simp

lemma partition_loop_ends:
  assumes "lo \<le> i" "i < hi" "i < j" "j \<le> hi + 1" "hi < length xs"
    and "\<forall>k. lo < k \<and> k \<le> i \<longrightarrow> key (xs ! k) \<le> key (xs ! lo)" "\<forall>k. j \<le> k \<and> k \<le> hi \<longrightarrow> key (xs ! lo) \<le> key (xs ! k)"
  shows "\<exists>ys m. partition_loop cmp xs lo hi i j = Some (ys, m) \<and> perm_in lo hi xs ys \<and> lo \<le> m \<and> m \<le> hi
    \<and> (\<forall>k. lo \<le> k \<and> k \<le> m \<longrightarrow> key (ys ! k) \<le> key (ys ! lo)) \<and> (\<forall>k. m < k \<and> k \<le> hi \<longrightarrow> key (ys ! lo) \<le> key (ys ! k))"
  using assms
proof (induction "j - i" arbitrary: i j xs rule: less_induct)
  case less
  let ?p = "key (xs ! lo)"
  obtain i' where i: "scan_up cmp xs lo hi i = Some i'" "i < i'" "i' \<le> hi" "\<forall>k. i < k \<and> k < i' \<longrightarrow> key (xs ! k) < ?p"
      "i' = hi \<or> ?p \<le> key (xs ! i')" using scan_up_stops [of lo i hi xs] less.prems by blast
  obtain j' where j: "scan_down cmp xs lo j = Some j'" "lo \<le> j'" "j' < j" "\<forall>k. j' < k \<and> k < j \<longrightarrow> ?p < key (xs ! k)"
      "key (xs ! j') \<le> ?p" using scan_down_stops [of lo j xs] less.prems by auto
  have low: "key (xs ! k) \<le> ?p" if "lo \<le> k" "k < i'" for k
    using that less.prems(6) i(4) by (cases "k = lo"; cases "k \<le> i") (auto intro: less_imp_le)
  have high: "?p \<le> key (xs ! k)" if "j' < k" "k \<le> hi" for k
    using that less.prems(7) j(4) by (cases "j \<le> k") (auto intro: less_imp_le)
  show ?case
  proof (cases "i' \<ge> j'")
    case True
    then have "partition_loop cmp xs lo hi i j = Some (xs, j')" by (subst partition_loop.simps) (simp add: i(1) j(1))
    moreover have "key (xs ! k) \<le> ?p" if "lo \<le> k" "k \<le> j'" for k
      using that True low [of k] j(5) by (cases "k = j'") auto
    ultimately show ?thesis using j high less.prems(4) by (intro exI [of _ xs] exI [of _ j']) auto
  next
    case False
    let ?ys = "EXCH i' j' xs"
    have b: "lo < i'" "i' < length xs" "j' < length xs" "j' \<le> hi" "lo < length xs" using False i j less.prems by auto
    have pl: "partition_loop cmp xs lo hi i j = partition_loop cmp ?ys lo hi i' j'"
      using False by (subst partition_loop.simps) (simp add: i(1) j(1))
    have lo: "?ys ! lo = xs ! lo" using b False by (simp add: EXCH_nth)
    have l: "\<forall>k. lo < k \<and> k \<le> i' \<longrightarrow> key (?ys ! k) \<le> key (?ys ! lo)"
      using b False low j(5) by (auto simp: EXCH_nth lo)
    have h: "\<forall>k. j' \<le> k \<and> k \<le> hi \<longrightarrow> key (?ys ! lo) \<le> key (?ys ! k)"
      using b False high i(5) less.prems(5) by (auto simp: EXCH_nth lo)
    have a: "j' - i' < j - i" "lo \<le> i'" "i' < hi" "i' < j'" "j' \<le> hi + 1" using False i(2) j(3) b less.prems(3) by auto
    obtain zs m where "partition_loop cmp ?ys lo hi i' j' = Some (zs, m)" "perm_in lo hi ?ys zs" "lo \<le> m" "m \<le> hi"
        "\<forall>k. lo \<le> k \<and> k \<le> m \<longrightarrow> key (zs ! k) \<le> key (zs ! lo)" "\<forall>k. m < k \<and> k \<le> hi \<longrightarrow> key (zs ! lo) \<le> key (zs ! k)"
      using less.hyps [OF a(1-5) _ l h] less.prems(5) by auto
    moreover have "perm_in lo hi xs ?ys" using b less.prems(5) False by (intro perm_in_EXCH) auto
    ultimately show ?thesis using pl perm_in_trans [of lo hi xs ?ys zs] by (intro exI [of _ zs] exI [of _ m]) simp
  qed
qed

lemma partition_splits:
  assumes "lo < hi" "hi < length xs"
  shows "\<exists>ys m. partition cmp xs lo hi = Some (ys, m) \<and> perm_in lo hi xs ys \<and> lo \<le> m \<and> m \<le> hi
    \<and> (\<forall>k. lo \<le> k \<and> k < m \<longrightarrow> key (ys ! k) \<le> key (ys ! m)) \<and> (\<forall>k. m < k \<and> k \<le> hi \<longrightarrow> key (ys ! m) \<le> key (ys ! k))"
proof -
  obtain zs m where z: "partition_loop cmp xs lo hi lo (hi + 1) = Some (zs, m)" "perm_in lo hi xs zs" "lo \<le> m" "m \<le> hi"
      "\<forall>k. lo \<le> k \<and> k \<le> m \<longrightarrow> key (zs ! k) \<le> key (zs ! lo)" "\<forall>k. m < k \<and> k \<le> hi \<longrightarrow> key (zs ! lo) \<le> key (zs ! k)"
    using partition_loop_ends [of lo lo hi "hi + 1" xs] assms by (auto simp del: Suc_eq_plus1 Suc_eq_plus1_left) force
  have len: "length zs = length xs" using z(2) by (simp add: perm_in_def)
  have "perm_in lo hi xs (EXCH lo m zs)" using z assms len by (intro perm_in_trans [OF z(2)] perm_in_EXCH) auto
  moreover have "key (EXCH lo m zs ! k) \<le> key (EXCH lo m zs ! m)" if "lo \<le> k" "k < m" for k
    using that z assms len by (auto simp: EXCH_nth)
  moreover have "key (EXCH lo m zs ! m) \<le> key (EXCH lo m zs ! k)" if "m < k" "k \<le> hi" for k
    using that z assms len by (auto simp: EXCH_nth)
  ultimately show ?thesis using z by (intro exI [of _ "EXCH lo m zs"] exI [of _ m]) (simp add: partition_def)
qed

lemma sorted_halves:
  assumes m: "lo \<le> m" "m \<le> hi" "hi < length xs" "length ys = length xs"
    and y: "\<forall>k. lo \<le> k \<and> k < m \<longrightarrow> key (ys ! k) \<le> key (ys ! m)" "\<forall>k. m < k \<and> k \<le> hi \<longrightarrow> key (ys ! m) \<le> key (ys ! k)"
    and z: "if m > 0 then perm_in lo (m - 1) ys zs else zs = ys" "\<forall>a b. lo \<le> a \<and> a \<le> b \<and> b < m \<longrightarrow> key (zs ! a) \<le> key (zs ! b)"
    and w: "perm_in (m + 1) hi zs ws" "\<forall>a b. m + 1 \<le> a \<and> a \<le> b \<and> b \<le> hi \<longrightarrow> key (ws ! a) \<le> key (ws ! b)"
  shows "\<forall>a b. lo \<le> a \<and> a \<le> b \<and> b \<le> hi \<longrightarrow> key (ws ! a) \<le> key (ws ! b)"
proof -
  have lz: "length zs = length xs" using z(1) m(4) perm_in_length [of lo "m - 1" ys zs] by (cases "m > 0") simp_all
  have zout: "zs ! k = ys ! k" if "m \<le> k" "k \<le> hi" for k
  proof (cases "m > 0")
    case True
    then have "m - 1 < k" "k < length ys" using that m by linarith+
    then show ?thesis using z(1) True perm_in_outside [of lo "m - 1" ys zs k] by simp
  next
    case False
    then show ?thesis using z(1) by simp
  qed
  have wout: "ws ! k = zs ! k" if "k \<le> m" for k
  proof (rule perm_in_outside [OF w(1)])
    show "k < length zs" using that m lz by linarith
    show "k < m + 1 \<or> hi < k" using that by simp
  qed
  have low: "key (ws ! k) \<le> key (ys ! m)" if "lo \<le> k" "k \<le> m" for k
  proof (cases "k = m")
    case False
    then have "perm_in lo (m - 1) ys zs" using z(1) that by simp
    moreover have "k \<le> m - 1" using that False by linarith
    ultimately obtain k' where "lo \<le> k'" "k' \<le> m - 1" "zs ! k = ys ! k'"
      using perm_in_inside [OF _ \<open>lo \<le> k\<close>] by blast
    moreover have "k' < m" using calculation(2) that False by linarith
    ultimately show ?thesis using y(1) wout [OF that(2)] by simp
  next
    case True
    then show ?thesis using wout [of m] zout [of m] m by simp
  qed
  have high: "key (ys ! m) \<le> key (ws ! k)" if "m \<le> k" "k \<le> hi" for k
  proof (cases "k = m")
    case False
    then have "m + 1 \<le> k" using that by linarith
    then obtain k' where "m + 1 \<le> k'" "k' \<le> hi" "ws ! k = zs ! k'"
      using perm_in_inside [OF w(1) _ \<open>k \<le> hi\<close>] by blast
    then show ?thesis using y(2) zout [of k'] by simp
  next
    case True
    then show ?thesis using wout [of m] zout [of m] m by simp
  qed
  show ?thesis
  proof (intro allI impI)
    fix a b assume ab: "lo \<le> a \<and> a \<le> b \<and> b \<le> hi"
    consider "b < m" | "m < a" | "a \<le> m" "m \<le> b" by linarith
    then show "key (ws ! a) \<le> key (ws ! b)"
    proof cases
      case 1
      then show ?thesis using z(2) ab wout [of a] wout [of b] by simp
    next
      case 2
      then show ?thesis using w(2) ab by simp
    next
      case 3
      then have "key (ws ! a) \<le> key (ys ! m)" "key (ys ! m) \<le> key (ws ! b)" using low [of a] high [of b] ab by simp_all
      then show ?thesis by (rule order_trans)
    qed
  qed
qed

lemma sort_range_sorts:
  assumes "hi < length xs"
  shows "\<exists>ys. sort_range cmp xs lo hi = Some ys \<and> perm_in lo hi xs ys \<and> (\<forall>a b. lo \<le> a \<and> a \<le> b \<and> b \<le> hi \<longrightarrow> key (ys ! a) \<le> key (ys ! b))"
  using assms
proof (induction "hi - lo" arbitrary: lo hi xs rule: less_induct)
  case less
  show ?case
  proof (cases "hi \<le> lo")
    case True
    then have "sort_range cmp xs lo hi = Some xs" by (subst sort_range.simps) simp
    moreover have "key (xs ! a) \<le> key (xs ! b)" if "lo \<le> a" "a \<le> b" "b \<le> hi" for a b
    proof -
      have "a = b" using True that by linarith
      then show ?thesis by simp
    qed
    ultimately show ?thesis using perm_in_refl by blast
  next
    case False
    obtain ys m where y: "partition cmp xs lo hi = Some (ys, m)" "perm_in lo hi xs ys" "lo \<le> m" "m \<le> hi"
        "\<forall>k. lo \<le> k \<and> k < m \<longrightarrow> key (ys ! k) \<le> key (ys ! m)" "\<forall>k. m < k \<and> k \<le> hi \<longrightarrow> key (ys ! m) \<le> key (ys ! k)"
      using partition_splits [of lo hi xs] False less.prems by auto
    have leny: "length ys = length xs" using y(2) by (simp add: perm_in_def)
    have "\<exists>zs. (if m > 0 then sort_range cmp ys lo (m - 1) else Some ys) = Some zs \<and> (if m > 0 then perm_in lo (m - 1) ys zs else zs = ys)
        \<and> (\<forall>a b. lo \<le> a \<and> a \<le> b \<and> b < m \<longrightarrow> key (zs ! a) \<le> key (zs ! b))"
    proof (cases "m > 0")
      case True
      have "m - 1 - lo < hi - lo" "m - 1 < length ys" using True False y less.prems leny by auto
      then obtain zs where zz: "sort_range cmp ys lo (m - 1) = Some zs" "perm_in lo (m - 1) ys zs"
          "\<forall>a b. lo \<le> a \<and> a \<le> b \<and> b \<le> m - 1 \<longrightarrow> key (zs ! a) \<le> key (zs ! b)" using less.hyps by blast
      have "key (zs ! a) \<le> key (zs ! b)" if "lo \<le> a" "a \<le> b" "b < m" for a b using zz(3) that by simp
      then show ?thesis using True zz(1,2) by auto
    next
      case False
      then show ?thesis by (intro exI [of _ ys]) simp
    qed
    then obtain zs where z: "(if m > 0 then sort_range cmp ys lo (m - 1) else Some ys) = Some zs"
        "if m > 0 then perm_in lo (m - 1) ys zs else zs = ys" "\<forall>a b. lo \<le> a \<and> a \<le> b \<and> b < m \<longrightarrow> key (zs ! a) \<le> key (zs ! b)" by blast
    have lenz: "length zs = length xs" using z(2) leny perm_in_length [of lo "m - 1" ys zs] by (cases "m > 0") simp_all
    have a: "hi - (m + 1) < hi - lo" "hi < length zs" using False y(3) less.prems lenz by auto
    obtain ws where w: "sort_range cmp zs (m + 1) hi = Some ws" "perm_in (m + 1) hi zs ws"
        "\<forall>a b. m + 1 \<le> a \<and> a \<le> b \<and> b \<le> hi \<longrightarrow> key (ws ! a) \<le> key (ws ! b)"
      using less.hyps [OF a] by blast
    have "sort_range cmp xs lo hi = Some ws" using False y(1) z(1) w(1) by (subst sort_range.simps) simp
    moreover have "\<forall>a b. lo \<le> a \<and> a \<le> b \<and> b \<le> hi \<longrightarrow> key (ws ! a) \<le> key (ws ! b)"
      by (rule sorted_halves [of lo m hi xs ys zs ws]) (fact y less.prems leny z w)+
    moreover have "perm_in lo hi ys zs" "perm_in lo hi zs ws"
    proof -
      show "perm_in lo hi ys zs"
        using z(2) y(4) less.prems leny by (cases "m > 0") (auto intro: perm_in_wider [of lo "m - 1"])
      show "perm_in lo hi zs ws" by (rule perm_in_wider [OF w(2) _ order_refl a(2)]) (use y(3) in simp)
    qed
    moreover from this have "perm_in lo hi xs ws" by (intro perm_in_trans [OF perm_in_trans [OF y(2)]])
    ultimately show ?thesis by blast
  qed
qed

lemma shuffle_loop_perm:
  assumes "2 \<le> length xs" "\<forall>i\<in>set is. i < length xs" "length xs < 2 ^ 64"
  shows "length (fst (shuffle_loop is seed xs)) = length xs \<and> mset (fst (shuffle_loop is seed xs)) = mset xs"
  using assms
proof (induction "is" arbitrary: seed xs)
  case (Cons i "is")
  define r where "r = unat ((scast (fst (rand seed)) :: u64) mod of_nat (length xs - 1)) + 1"
  have "unat (of_nat (length xs - 1) :: u64) = length xs - 1" using Cons.prems(3) by (simp add: unat_of_nat_small)
  moreover have "x mod (length xs - 1) < length xs - 1" for x using Cons.prems(1) by (intro mod_less_divisor) linarith
  ultimately have "unat ((scast (fst (rand seed)) :: u64) mod of_nat (length xs - 1)) < length xs - 1"
    by (simp add: unat_mod_distrib)
  then have r: "r < length xs" unfolding r_def by linarith
  have "shuffle_loop (i # is) seed xs = shuffle_loop is (snd (rand seed)) (EXCH i r xs)"
    by (simp add: split_beta Let_def r_def)
  then show ?case using Cons.IH [of "EXCH i r xs" "snd (rand seed)"] Cons.prems r by (simp add: mset_EXCH)
qed simp

lemma qsort_sorts:
  assumes "item_width \<noteq> 0" "length xs < 2 ^ 64"
  shows "\<exists>ys seed'. qsort cmp xs item_width seed = Some (Inr (ys, seed')) \<and> mset ys = mset xs \<and> sorted (map key ys)"
proof (cases "length xs < 2")
  case True
  then have "sorted (map key xs)" by (cases xs; cases "tl xs") auto
  then show ?thesis using True by (simp add: qsort_def)
next
  case False
  define zs seed' where "zs = fst (shuffle_loop [0..<length xs] seed xs)" and "seed' = snd (shuffle_loop [0..<length xs] seed xs)"
  have z: "length zs = length xs" "mset zs = mset xs"
    using shuffle_loop_perm [of xs "[0..<length xs]" seed] False assms(2) by (auto simp: zs_def)
  have sh: "shuffle xs item_width seed = Inr (zs, seed')"
    using False assms(1) by (simp add: shuffle_def zs_def seed'_def)
  have lt: "length zs - 1 < length zs" using z False by linarith
  obtain ys where y: "sort_range cmp zs 0 (length zs - 1) = Some ys" "perm_in 0 (length zs - 1) zs ys"
      "\<forall>a b. 0 \<le> a \<and> a \<le> b \<and> b \<le> length zs - 1 \<longrightarrow> key (ys ! a) \<le> key (ys ! b)"
    using sort_range_sorts [OF lt, of 0] by blast
  have "qsort cmp xs item_width seed = Some (Inr (ys, seed'))"
    using False sh y(1) by (simp add: qsort_def)
  moreover have "mset ys = mset xs" "length ys = length xs" using y(2) z by (auto simp: perm_in_def)
  moreover have "sorted (map key ys)" unfolding sorted_iff_nth_mono
  proof (intro allI impI)
    fix i j assume ij: "i \<le> j" "j < length (map key ys)"
    then have "j \<le> length zs - 1" using calculation(3) z(1) by simp
    then show "map key ys ! i \<le> map key ys ! j" using ij y(3) by simp
  qed
  ultimately show ?thesis by blast
qed

end

interpretation mem_cmp: comparator qsort_cmp_mem_region rg_base
  by unfold_locales (auto simp: qsort_cmp_mem_region_def)

subsection \<open>Properties\<close>

text \<open>The memory map is sorted by base address; \<open>sizeof(mem_map_region_t)\<close> is 20.\<close>

lemma qsort_mem_regions:
  "length xs < 2 ^ 64 \<Longrightarrow> \<exists>ys seed'. qsort qsort_cmp_mem_region xs 20 seed = Some (Inr (ys, seed')) \<and> mset ys = mset xs \<and> sorted (map rg_base ys)"
  by (rule mem_cmp.qsort_sorts) simp_all

text \<open>C37: With a comparison function that orders the items by some key, \<open>qsort\<close> returns for every state of the random
  generator, never accesses an element outside of the array, and leaves a permutation of the items sorted by the key.
  An item width of zero stops the kernel unless there is nothing to sort.\<close>

theorem qsort_correct:
  fixes key :: "'a \<Rightarrow> 'k::linorder"
  assumes "\<And>a b. cmp a b < 0 \<longleftrightarrow> key a < key b" "length xs < 2 ^ 64"
  shows "(item_width \<noteq> 0 \<longrightarrow> (\<exists>ys seed'. qsort cmp xs item_width seed = Some (Inr (ys, seed')) \<and> mset ys = mset xs \<and> sorted (map key ys)))
    \<and> (item_width = 0 \<longrightarrow> qsort cmp xs item_width seed = (if length xs < 2 then Some (Inr (xs, seed)) else Some (Inl (Bug_on ''shuffle''))))"
  using comparator.qsort_sorts [OF comparator.intro [of cmp key, OF assms(1)] _ assms(2)]
  by (auto simp: qsort_def shuffle_def BUG_ON_def)

theorem qsort_correct_witness:
  "\<exists>ys seed'. qsort qsort_cmp_mem_region
     [\<lparr>rg_base = 0x100000, rg_length = 1, rg_type = 1\<rparr>, \<lparr>rg_base = 0, rg_length = 2, rg_type = 1\<rparr>, \<lparr>rg_base = 0x9fc00, rg_length = 3, rg_type = 2\<rparr>]
     20 1 = Some (Inr (ys, seed')) \<and> sorted (map rg_base ys)"
proof -
  have c: "qsort_cmp_mem_region a b < 0 \<longleftrightarrow> rg_base a < rg_base b" for a b by (auto simp: qsort_cmp_mem_region_def)
  let ?xs = "[\<lparr>rg_base = 0x100000, rg_length = 1, rg_type = 1\<rparr>, \<lparr>rg_base = 0, rg_length = 2, rg_type = 1\<rparr>, \<lparr>rg_base = 0x9fc00, rg_length = 3, rg_type = 2\<rparr>]"
  have n: "length ?xs < 2 ^ 64" "(20 :: u64) \<noteq> 0" by simp_all
  show ?thesis using qsort_correct [where cmp = qsort_cmp_mem_region and key = rg_base, OF c n(1), of 20 1] n(2) by blast
qed

end
