(* ===== verification/Spec2Isabelle.thy ===== *)
theory Spec2Isabelle
  imports Buddy_Props Page_Table Printk Irq_Devices Rtc Qsort
begin

text \<open>
  A verification library for the AlmeidaOS kernel: its memory management, its formatted output and its device
  drivers, as the C code under src/ has them.

  \<^bold>\<open>The program.\<close>  The kernel manages physical memory with a buddy allocator (src/kernel/mm/buddy.c), whose blocks hold,
  among others, page tables (src/kernel/mm/page.c) and the lists of page frames they are built from
  (src/kernel/mm/pageframe.c).  Messages are formatted (src/kernel/lib/vsnprintf.c, src/kernel/lib/string.c) and go to
  a console that keeps its lines in a ring buffer (src/kernel/video/vga_console.c, src/kernel/lib/ringbuffer.c) and to
  the serial line (src/kernel/device/serial.c); src/kernel/lib/printk.c puts these together.  The drivers program the
  interrupt controller, the timer, the keyboard and the CMOS clock through input and output ports, and the clock is
  converted to Unix time.

  \<^bold>\<open>Conventions\<close> (\<open>Kernel_Prelude\<close>).  Machine integers are words of their width.  Code that can stop the kernel returns
  \<open>fault + 'a\<close>; a loop that may run for ever returns an option, \<open>None\<close> being the run that does not end.  State is
  passed explicitly: a store from addresses to values for memory, records for the structures and the static
  variables of a file.  The statements about such code say that it returns, and what.

  \<^bold>\<open>Memory management.\<close>
  \<^item> \<open>Bit_Ops\<close> and \<open>Kernel_Math\<close>: include/kernel/lib/bit.h and src/kernel/lib/math, with the logarithm, the roundings to
    powers of two and the power shown to be the mathematical functions.
  \<^item> \<open>Mem_Types\<close>: the region descriptors of include/kernel/arch/mem.h.
  \<^item> \<open>Buddy_Alloc\<close>: every function of buddy.c on a store of slots, with its pointer arithmetic.  \<open>Buddy_Tree\<close> is the abstract
    buddy system, \<open>Buddy_Refine\<close> and \<open>Buddy_Pre\<close> show that the code refines it, and \<open>Block_Allocator\<close> is the contract of an
    allocator as a locale, interpreted on the code in \<open>Buddy_Refine\<close>.  \<open>Buddy_Props\<close> states the results: when an allocation
    succeeds and with which block, what a release removes, that the two cancel, that no block is handed out twice,
    that a range can be reserved, and what happens to an address outside the region.
  \<^item> \<open>Addr_Conv\<close>: the conversions \<open>va\<close> and \<open>pa\<close> of src/kernel/mm/addressconv.c.
  \<^item> \<open>Heap_List\<close> and \<open>Page_Frame\<close>: linked lists in a store of nodes, and pageframe.c on them; its contract is the locale
    \<open>frame_allocator\<close>, interpreted on the code and used by the page tables.
  \<^item> \<open>Page_Table\<close>: page.c on the words of the tables.  \<open>translate\<close> is the walk of the processor; the lemmas give the
    translation of every address after \<open>paging_init\<close>, \<open>page_alloc\<close>, \<open>paging_contiguous_map\<close> and \<open>page_free\<close>.

  \<^item> \<open>Qsort\<close>: qsort.c and shuffle.c of src/kernel/lib, which the memory map uses; the exchange of bytes is shown to exchange items,
    and the routine to return with the items sorted, for every comparison function that obeys the locale \<open>comparator\<close>.
    The locale is interpreted on the comparison of memory regions.

  \<^bold>\<open>Output.\<close>
  \<^item> \<open>Kernel_String\<close>: string.c and ctype.c on byte memory, with the string instructions of the assembly, and the copies in
    src/libc, shown to be the same functions.
  \<^item> \<open>Kernel_Printf\<close>: the decoding of formats as a round trip with the text of a specification, the printing of unsigned
    conversions between literal text, and the two cases in which the output is not what a caller expects.
  \<^item> \<open>Ring_Buffer\<close> and \<open>Vga_Console\<close>: the ring buffer and the console refine a log of the last 24 lines (the locale
    \<open>bounded_log\<close>), and the screen shows that log.
  \<^item> \<open>Port_IO\<close>, \<open>Serial\<close> and \<open>Printk\<close>: ports, the serial line, and the whole path of a message.

  \<^bold>\<open>Devices and time.\<close>  \<open>Irq_Devices\<close> has pic.c, the set-up of pit.c, keyboard.c and spurious.c: which bits of which port a
  call changes.  \<open>Rtc\<close> has cmos.c, rtc.c and delay.c: the Unix time of a clock value against the Gregorian calendar, and the
  end of the loops when the devices answer.

  \<^bold>\<open>Bounds and fuel.\<close>  The loops of buddy.c go up and down the orders of the header, of which there are at most 64;
  \<open>ALLOC_FUEL\<close> is 512 and the refinement lemmas show that a call never uses it up.  The other loops recurse on the data, have a
  measure, or are partial functions, among them the reservation of a range, for which the lemmas show when they
  return.  The page-table lemmas demand tables below
  \<open>2 ^ 36\<close> and mapped pages below \<open>2 ^ 40\<close>, since the code keeps 28 bits of a frame number.

  \<^bold>\<open>Environment.\<close>  What a device answers is a function of the number of reads and of the port, arbitrary but for the
  hypotheses of a statement (for the serial line, that the transmitter keeps becoming ready).  The values of the tick
  counter during the calibration of the delay loop are a parameter of the same kind.

  \<^bold>\<open>Simplifications that a reader should know.\<close>  The page tables and the nodes of the page-frame database are separate
  stores, as their regions do not overlap.  The base field of a page entry is shifted at 64 bits.  \<open>memset\<close> is taken
  to find its buffer in \<open>rdi\<close>.  An overflow of \<open>int\<close> in the conversion of the clock wraps, as the compiled code does.  A
  message that is longer than the static buffer of \<open>printk\<close> is a fault.  Calls of \<open>printk\<close> by a driver are recorded and
  not executed.

  \<^bold>\<open>Not modelled.\<close>  The boot loader and the assembly of the kernel; the memory map (arch/mem.c) but for the comparison
  of its regions; the heap and the set-up at boot (mm/kmem.c, mm/init.c, main.c), which compose the parts above
  with addresses of the linker script; tasks and the scheduler, whose context switch is assembly on saved
  registers, and with them the timer's interrupt handler; the interrupt descriptors, the system calls and the user
  side of them; processor identification and the core dump, which print what instructions return.
\<close>

end
